(* ===== verification/Prelude.thy ===== *)
theory Prelude
  imports Main "HOL-Library.Word" "HOL-Library.AList" "HOL-Library.Monad_Syntax"
    "HOL-Library.Multiset"
begin

text \<open>
  What the components share: the machine integers of the source, big and little endian
  conversions, the fixed-width codec interface with its instances, the Rust \<open>Result\<close> type as
  a sum, byte streams with \<open>read_exact\<close>, hash maps as association lists, and the part of the
  standard library's string handling that the protocol uses (\<open>String::from_utf8_lossy\<close>).

  A hash map is an association list with distinct keys. The position of an entry stands for
  the unspecified iteration order, so no statement about a map depends on that order.
\<close>

unbundle bit_operations_syntax

named_theorems wire_simps \<open>encoders and decoders of wire fields\<close>
named_theorems read_simps \<open>reading from byte streams\<close>
named_theorems amap_simps \<open>hash maps as association lists\<close>

section \<open>Machine integers and byte order\<close>

type_synonym u8 = "8 word"
type_synonym u16 = "16 word"
type_synonym u32 = "32 word"
type_synonym u64 = "64 word"
type_synonym u128 = "128 word"

text \<open>An \<open>i32\<close> is kept as its 32 bits; \<open>sint\<close> reads it as a signed number.\<close>

type_synonym i32 = "32 word"
type_synonym bytes = "u8 list"

definition from_be :: "bytes \<Rightarrow> 'a::len word" where
  "from_be bs = foldl (\<lambda>acc b. push_bit 8 acc OR ucast b) 0 bs"

definition from_le :: "bytes \<Rightarrow> 'a::len word" where
  "from_le bs = from_be (rev bs)"

definition u16_be :: "u16 \<Rightarrow> bytes" where
  "u16_be w = [ucast (drop_bit 8 w), ucast w]"

definition u32_be :: "u32 \<Rightarrow> bytes" where
  "u32_be w = [ucast (drop_bit 24 w), ucast (drop_bit 16 w), ucast (drop_bit 8 w), ucast w]"

definition u16_le :: "u16 \<Rightarrow> bytes" where
  "u16_le w = [ucast w, ucast (drop_bit 8 w)]"

definition u64_le :: "u64 \<Rightarrow> bytes" where
  "u64_le w = map (\<lambda>i. ucast (drop_bit (8 * i) w)) [0, 1, 2, 3, 4, 5, 6, 7]"

lemma length_u16_be [simp]: "length (u16_be w) = 2"
  by (simp add: u16_be_def)

lemma length_u32_be [simp]: "length (u32_be w) = 4"
  by (simp add: u32_be_def)

lemma length_u16_le [simp]: "length (u16_le w) = 2"
  by (simp add: u16_le_def)

lemma length_u64_le [simp]: "length (u64_le w) = 8"
  by (simp add: u64_le_def)

text \<open>One step of the fold restores one byte.\<close>

lemma be_step:
  "push_bit 8 (drop_bit (8 + k) w) OR ucast (ucast (drop_bit k w) :: u8) = drop_bit k w"
  for w :: "'a::len word"
proof (rule bit_word_eqI)
  fix n
  assume "n < LENGTH('a)"
  then show "bit (push_bit 8 (drop_bit (8 + k) w) OR ucast (ucast (drop_bit k w) :: u8)) n
      = bit (drop_bit k w) n"
    by (cases "n < 8") (auto simp: bit_simps ac_simps)
qed

lemma u8_high_bit [simp]: "8 \<le> n \<Longrightarrow> \<not> bit b n" for b :: u8
  using bit_imp_le_length [of b n] by auto

lemma drop_bit_all: "LENGTH('a) \<le> k \<Longrightarrow> drop_bit k w = 0" for w :: "'a::len word"
  by (rule bit_word_eqI) (auto simp: bit_simps dest: bit_imp_le_length)

lemma from_be_u16_be [simp]: "from_be (u16_be w) = w"
  using be_step [of 8 w] be_step [of 0 w] by (simp add: from_be_def u16_be_def drop_bit_all)

lemma from_be_u32_be [simp]: "from_be (u32_be w) = w"
  using be_step [of 24 w] be_step [of 16 w] be_step [of 8 w] be_step [of 0 w]
  by (simp add: from_be_def u32_be_def drop_bit_all)

lemma from_le_u16_le [simp]: "from_le (u16_le w) = w"
  using from_be_u16_be [of w] by (simp add: from_le_def u16_le_def u16_be_def)

lemma from_le_u64_le [simp]: "from_le (u64_le w) = w"
  using be_step [of 56 w] be_step [of 48 w] be_step [of 40 w] be_step [of 32 w]
    be_step [of 24 w] be_step [of 16 w] be_step [of 8 w] be_step [of 0 w]
  by (simp add: from_le_def from_be_def u64_le_def drop_bit_all)

lemma u16_le_from_le: "u16_le (from_le [a, b]) = [a, b]"
  by (auto intro!: bit_word_eqI simp: from_le_def from_be_def u16_le_def bit_simps)

lemma u32_be_from_be: "u32_be (from_be [a, b, c, d]) = [a, b, c, d]"
  by (auto intro!: bit_word_eqI simp: from_be_def u32_be_def bit_simps)

lemma u16_le_inject [simp]: "u16_le a = u16_le b \<longleftrightarrow> a = b"
  by (metis from_le_u16_le)

text \<open>
  The cursor reads of the \<open>bytes\<close> crate on a slice: a big endian integer from the front, and the
  slice advanced. Every slice the source reads this way has a fixed size that covers the reads.
\<close>

definition get_u8 :: "bytes \<Rightarrow> u8 \<times> bytes" where
  "get_u8 b = (from_be (take 1 b), drop 1 b)"

definition get_u16 :: "bytes \<Rightarrow> u16 \<times> bytes" where
  "get_u16 b = (from_be (take 2 b), drop 2 b)"

definition get_u32 :: "bytes \<Rightarrow> u32 \<times> bytes" where
  "get_u32 b = (from_be (take 4 b), drop 4 b)"

lemma get_u8_Cons [wire_simps]: "get_u8 (x # r) = (x, r)"
  by (simp add: get_u8_def from_be_def)

lemma get_u16_be [wire_simps]: "get_u16 (u16_be w @ r) = (w, r)"
  by (simp add: get_u16_def)

lemma get_u32_be [wire_simps]: "get_u32 (u32_be w @ r) = (w, r)"
  by (simp add: get_u32_def)

lemma get_u32_end [wire_simps]: "get_u32 (u32_be w) = (w, [])"
  using get_u32_be [of w "[]"] by simp

section \<open>Fixed-width codecs\<close>

text \<open>
  The interface of a field encoder: a fixed number of bytes per value and a decoder that
  inverts it. The clients are the array fields of the protocol: a run of encoded elements is
  split by \<open>chunks\<close> (Rust's \<open>as_chunks\<close>) and decoded element by element.
\<close>

fun chunks :: "nat \<Rightarrow> nat \<Rightarrow> bytes \<Rightarrow> bytes list" where
  "chunks w 0 bs = []"
| "chunks w (Suc n) bs = take w bs # chunks w n (drop w bs)"

text \<open>\<open>as_chunks::<W>().0\<close>: the full chunks; a shorter tail is dropped.\<close>

definition as_chunks :: "nat \<Rightarrow> bytes \<Rightarrow> bytes list" where
  "as_chunks w bs = chunks w (length bs div w) bs"

lemma length_chunks [simp]: "length (chunks w n bs) = n"
  by (induction w n bs rule: chunks.induct) auto

lemma chunk_width: "\<lbrakk>w * n \<le> length bs; c \<in> set (chunks w n bs)\<rbrakk> \<Longrightarrow> length c = w"
  by (induction w n bs rule: chunks.induct) auto

locale fixed_codec =
  fixes enc :: "'a \<Rightarrow> bytes" and dec :: "bytes \<Rightarrow> 'a" and width :: nat
  assumes length_enc: "length (enc x) = width"
    and dec_enc: "dec (enc x) = x"
    and width_pos: "0 < width"
begin

lemma length_concat_enc: "length (concat (map enc xs)) = length xs * width"
  by (induction xs) (auto simp: length_enc)

lemma map_dec_chunks: "map dec (chunks width (length xs) (concat (map enc xs))) = xs"
  by (induction xs) (auto simp: length_enc dec_enc)

lemma as_chunks_dec: "map dec (as_chunks width (concat (map enc xs))) = xs"
  using width_pos by (simp add: as_chunks_def length_concat_enc map_dec_chunks)

lemma enc_inject: "enc x = enc y \<longleftrightarrow> x = y"
  by (metis dec_enc)

lemma concat_enc_inject:
  "concat (map enc xs) = concat (map enc ys) \<longleftrightarrow> xs = ys"
  by (metis as_chunks_dec)

end

interpretation be16: fixed_codec u16_be from_be 2
  by unfold_locales auto

interpretation be32: fixed_codec u32_be from_be 4
  by unfold_locales auto

interpretation le64: fixed_codec u64_le from_le 8
  by unfold_locales auto

section \<open>Results, streams and readers\<close>

text \<open>
  A byte stream is what the peer will still send and how the stream then ends: by closing
  (a read that needs more is \<open>UnexpectedEof\<close>) or by another i/o error.
\<close>

datatype io_error = UnexpectedEof | OtherIo string

record rstream =
  avail :: bytes
  ending :: io_error

definition read_exact :: "nat \<Rightarrow> rstream \<Rightarrow> io_error + (bytes \<times> rstream)" where
  "read_exact n r =
     (if n \<le> length (avail r)
      then Inr (take n (avail r), r\<lparr>avail := drop n (avail r)\<rparr>)
      else Inl (ending r))"

text \<open>Rust's \<open>?\<close>: stop at the first error, otherwise go on with the value.\<close>

definition and_then :: "'e + 'a \<Rightarrow> ('a \<Rightarrow> 'e + 'b) \<Rightarrow> 'e + 'b" where
  "and_then m f = (case m of Inl e \<Rightarrow> Inl e | Inr x \<Rightarrow> f x)"

definition map_err :: "('e \<Rightarrow> 'f) \<Rightarrow> 'e + 'a \<Rightarrow> 'f + 'a" where
  "map_err g m = (case m of Inl e \<Rightarrow> Inl (g e) | Inr x \<Rightarrow> Inr x)"

lemma and_then_simps [simp]:
  "and_then (Inl e) f = Inl e" "and_then (Inr x) f = f x"
  by (simp_all add: and_then_def)

lemma map_err_simps [simp]:
  "map_err g (Inl e) = Inl (g e)" "map_err g (Inr x) = Inr x"
  by (simp_all add: map_err_def)

lemma and_then_eq_Inr:
  "and_then m f = Inr y \<longleftrightarrow> (\<exists>x. m = Inr x \<and> f x = Inr y)"
  by (cases m) auto

lemma map_err_eq_Inr [simp]: "map_err g m = Inr y \<longleftrightarrow> m = Inr y"
  by (cases m) auto

lemma read_exact_append [read_simps]:
  "length bs = n \<Longrightarrow> read_exact n \<lparr>avail = bs @ rest, ending = e\<rparr> = Inr (bs, \<lparr>avail = rest, ending = e\<rparr>)"
  by (simp add: read_exact_def)

lemma read_exact_Inr:
  "read_exact n r = Inr (bs, r') \<longleftrightarrow>
     avail r = bs @ avail r' \<and> length bs = n \<and> ending r' = ending r"
  by (cases r; cases r') (auto simp: read_exact_def append_eq_conv_conj)

lemma read_exact_Inl:
  "read_exact n r = Inl e \<longleftrightarrow> length (avail r) < n \<and> e = ending r"
  by (auto simp: read_exact_def)

lemma read_exact_0 [read_simps]: "read_exact 0 r = Inr ([], r)"
  by (simp add: read_exact_def)

section \<open>Hash maps\<close>

type_synonym ('k, 'v) amap = "('k \<times> 'v) list"

abbreviation keys :: "('k, 'v) amap \<Rightarrow> 'k set" where
  "keys m \<equiv> fst ` set m"

abbreviation vals :: "('k, 'v) amap \<Rightarrow> 'v set" where
  "vals m \<equiv> snd ` set m"

abbreviation wf_amap :: "('k, 'v) amap \<Rightarrow> bool" where
  "wf_amap m \<equiv> distinct (map fst m)"

definition contains_key :: "('k, 'v) amap \<Rightarrow> 'k \<Rightarrow> bool" where
  "contains_key m k = (map_of m k \<noteq> None)"

definition retain :: "('k \<Rightarrow> 'v \<Rightarrow> bool) \<Rightarrow> ('k, 'v) amap \<Rightarrow> ('k, 'v) amap" where
  "retain P m = filter (\<lambda>(k, v). P k v) m"

lemma contains_key_iff [amap_simps]: "contains_key m k \<longleftrightarrow> k \<in> keys m"
  by (simp add: contains_key_def map_of_eq_None_iff)

lemma keys_update [amap_simps]: "keys (AList.update k v m) = insert k (keys m)"
  by (simp add: dom_update)

lemma keys_delete [amap_simps]: "keys (AList.delete k m) = keys m - {k}"
  using set_map [of fst "AList.delete k m"] by (simp add: delete_keys)

lemma set_delete_eq [amap_simps]: "set (AList.delete k m) = {p \<in> set m. fst p \<noteq> k}"
  by (induction m) auto

lemma set_retain [amap_simps]: "set (retain P m) = {p \<in> set m. P (fst p) (snd p)}"
  by (auto simp: retain_def)

lemma update_new [amap_simps]: "k \<notin> keys m \<Longrightarrow> AList.update k v m = m @ [(k, v)]"
  by (induction m) auto

lemma wf_retain [simp, intro]: "wf_amap m \<Longrightarrow> wf_amap (retain P m)"
  by (simp add: retain_def distinct_map_filter)

lemma wf_delete [simp, intro]: "wf_amap m \<Longrightarrow> wf_amap (AList.delete k m)"
  by (rule distinct_delete)

lemma wf_update [simp, intro]: "wf_amap m \<Longrightarrow> wf_amap (AList.update k v m)"
  by (rule distinct_update)

text \<open>Removing a present key takes exactly its value out of the multiset of values.\<close>

lemma mset_vals_delete:
  "\<lbrakk>wf_amap m; map_of m k = Some v\<rbrakk> \<Longrightarrow>
     image_mset f (mset m) = add_mset (f (k, v)) (image_mset f (mset (AList.delete k m)))"
proof (induction m)
  case Nil
  then show ?case by simp
next
  case (Cons p m)
  obtain k' v' where p: "p = (k', v')" by (cases p)
  show ?case
  proof (cases "k' = k")
    case True
    with Cons.prems p have "k \<notin> keys m" by auto
    with True p Cons.prems show ?thesis by simp
  next
    case False
    with Cons p show ?thesis by simp
  qed
qed

lemma delete_absent: "map_of m k = None \<Longrightarrow> AList.delete k m = m"
  by (simp add: map_of_eq_None_iff)

lemma in_keysI [intro]: "(k, v) \<in> set m \<Longrightarrow> k \<in> keys m"
  by force

lemma in_valsI [intro]: "(k, v) \<in> set m \<Longrightarrow> v \<in> vals m"
  by force

lemma find_append:
  "find P (xs @ ys) = (case find P xs of None \<Rightarrow> find P ys | Some x \<Rightarrow> Some x)"
  by (induction xs) auto

section \<open>Simulation\<close>

text \<open>
  The contract between a detailed and an abstract system: every detailed step is a few abstract
  steps, or none, as long as the abstract system keeps its invariant. The clients conclude about whole runs.
\<close>

locale simulation =
  fixes cstep :: "'c \<Rightarrow> 'c \<Rightarrow> bool" and astep :: "'a \<Rightarrow> 'a \<Rightarrow> bool"
    and refines :: "'c \<Rightarrow> 'a \<Rightarrow> bool" and ainv :: "'a \<Rightarrow> bool"
  assumes keeps: "\<lbrakk>astep a a'; ainv a\<rbrakk> \<Longrightarrow> ainv a'"
    and follows: "\<lbrakk>cstep c c'; refines c a; ainv a\<rbrakk> \<Longrightarrow> \<exists>a'. astep\<^sup>*\<^sup>* a a' \<and> refines c' a'"
begin

lemma keeps_all: "\<lbrakk>astep\<^sup>*\<^sup>* a a'; ainv a\<rbrakk> \<Longrightarrow> ainv a'"
  by (induction rule: rtranclp_induct) (auto intro: keeps)

lemma reaches:
  assumes "cstep\<^sup>*\<^sup>* c c'" "refines c a" "ainv a"
  shows "\<exists>a'. astep\<^sup>*\<^sup>* a a' \<and> refines c' a' \<and> ainv a'"
  using assms(1)
proof (induction rule: rtranclp_induct)
  case base
  then show ?case using assms(2,3) by blast
next
  case (step c1 c2)
  then obtain a1 where a1: "astep\<^sup>*\<^sup>* a a1" "refines c1 a1" "ainv a1" by blast
  obtain a2 where a2: "astep\<^sup>*\<^sup>* a1 a2" "refines c2 a2" using follows [OF step.hyps(2) a1(2,3)] by blast
  then show ?case using keeps_all [OF a2(1) a1(3)] rtranclp_trans [OF a1(1) a2(1)] by blast
qed

end

end
