(* ===== verification/Utf8.thy ===== *)
theory Utf8
  imports Prelude
begin

text \<open>
  The standard library's UTF-8 handling as far as \<open>protocol.rs\<close> uses it. A Rust string is the
  list of its UTF-8 bytes. \<open>utf8_next\<close> is one step of the library's scanner: whether a
  character starts at the front, and how many bytes the step consumes. \<open>from_utf8_lossy\<close>
  replaces each ill-formed sequence by U+FFFD, \<open>valid_utf8\<close> accepts what \<open>str::from_utf8\<close>
  accepts. The lemmas show that the lossy conversion is the identity on well-formed text and
  always gives well-formed text.
\<close>

type_synonym rstring = bytes

section \<open>The scanner\<close>

definition cont_byte :: "u8 \<Rightarrow> bool" where
  "cont_byte b \<longleftrightarrow> b AND 192 = 128"

definition utf8_char_width :: "u8 \<Rightarrow> nat" where
  "utf8_char_width b =
     (if b < 0x80 then 1 else if b < 0xC2 then 0 else if b < 0xE0 then 2
      else if b < 0xF0 then 3 else if b < 0xF5 then 4 else 0)"

text \<open>The second byte allowed after a three or four byte lead (no surrogates, no overlong forms).\<close>

definition second3 :: "u8 \<Rightarrow> u8 \<Rightarrow> bool" where
  "second3 b c \<longleftrightarrow>
     (b = 0xE0 \<and> 0xA0 \<le> c \<and> c \<le> 0xBF) \<or> (0xE1 \<le> b \<and> b \<le> 0xEC \<and> 0x80 \<le> c \<and> c \<le> 0xBF) \<or>
     (b = 0xED \<and> 0x80 \<le> c \<and> c \<le> 0x9F) \<or> (0xEE \<le> b \<and> b \<le> 0xEF \<and> 0x80 \<le> c \<and> c \<le> 0xBF)"

definition second4 :: "u8 \<Rightarrow> u8 \<Rightarrow> bool" where
  "second4 b c \<longleftrightarrow>
     (b = 0xF0 \<and> 0x90 \<le> c \<and> c \<le> 0xBF) \<or> (0xF1 \<le> b \<and> b \<le> 0xF3 \<and> 0x80 \<le> c \<and> c \<le> 0xBF) \<or>
     (b = 0xF4 \<and> 0x80 \<le> c \<and> c \<le> 0x8F)"

definition safe_get :: "bytes \<Rightarrow> nat \<Rightarrow> u8" where
  "safe_get bs i = (if i < length bs then bs ! i else 0)"

definition utf8_next :: "bytes \<Rightarrow> bool \<times> nat" where
  "utf8_next bs =
     (let b = safe_get bs 0; w = utf8_char_width b in
      if w = 1 then (True, 1)
      else if w = 2 then (if cont_byte (safe_get bs 1) then (True, 2) else (False, 1))
      else if w = 3 then
        (if \<not> second3 b (safe_get bs 1) then (False, 1)
         else if \<not> cont_byte (safe_get bs 2) then (False, 2) else (True, 3))
      else if w = 4 then
        (if \<not> second4 b (safe_get bs 1) then (False, 1)
         else if \<not> cont_byte (safe_get bs 2) then (False, 2)
         else if \<not> cont_byte (safe_get bs 3) then (False, 3) else (True, 4))
      else (False, 1))"

definition replacement :: bytes where
  "replacement = [0xEF, 0xBF, 0xBD]"

lemma utf8_next_pos: "0 < snd (utf8_next bs)"
  by (simp add: utf8_next_def Let_def)

function from_utf8_lossy :: "bytes \<Rightarrow> rstring" where
  "from_utf8_lossy bs =
     (if bs = [] then []
      else let (ok, n) = utf8_next bs
           in (if ok then take n bs else replacement) @ from_utf8_lossy (drop n bs))"
  by pat_completeness auto
termination
proof (relation "measure length", goal_cases)
  case (2 bs x y)
  then show ?case using utf8_next_pos [of bs] by (cases bs) (auto simp: prod_eq_iff)
qed simp

declare from_utf8_lossy.simps [simp del]

function valid_utf8 :: "bytes \<Rightarrow> bool" where
  "valid_utf8 bs =
     (if bs = [] then True else let (ok, n) = utf8_next bs in ok \<and> valid_utf8 (drop n bs))"
  by pat_completeness auto
termination
proof (relation "measure length", goal_cases)
  case (2 bs x y)
  then show ?case using utf8_next_pos [of bs] by (cases bs) (auto simp: prod_eq_iff)
qed simp

declare valid_utf8.simps [simp del]

lemma valid_utf8_Nil [simp]: "valid_utf8 []"
  by (simp add: valid_utf8.simps)

lemma from_utf8_lossy_Nil [simp]: "from_utf8_lossy [] = []"
  by (simp add: from_utf8_lossy.simps)

section \<open>Lossy conversion and validity\<close>

text \<open>A position past the end reads as 0, which is never a continuation byte.\<close>

lemma cont_zero [simp]: "\<not> cont_byte 0" "\<not> second3 b 0" "\<not> second4 b 0"
  by (simp_all add: cont_byte_def second3_def second4_def)

lemma safe_get_cont:
  "cont_byte (safe_get bs i) \<Longrightarrow> i < length bs"
  "second3 b (safe_get bs i) \<Longrightarrow> i < length bs"
  "second4 b (safe_get bs i) \<Longrightarrow> i < length bs"
  by (auto simp: safe_get_def split: if_splits)

lemma utf8_next_ok_length: "\<lbrakk>bs \<noteq> []; utf8_next bs = (True, n)\<rbrakk> \<Longrightarrow> n \<le> length bs"
  by (cases bs) (auto simp: utf8_next_def Let_def Suc_le_eq split: if_splits dest!: safe_get_cont)

lemma safe_get_take: "i < n \<Longrightarrow> n \<le> length bs \<Longrightarrow> safe_get (take n bs @ r) i = safe_get bs i"
  by (simp add: safe_get_def nth_append)

lemma utf8_next_take:
  assumes "bs \<noteq> []" "utf8_next bs = (True, n)"
  shows "utf8_next (take n bs @ r) = (True, n)"
proof -
  have n: "n \<le> length bs" by (rule utf8_next_ok_length [OF assms])
  have 0: "safe_get (take n bs @ r) 0 = safe_get bs 0"
    using utf8_next_pos [of bs] assms(2) n by (simp add: safe_get_take)
  have i: "i < n \<Longrightarrow> safe_get (take n bs @ r) i = safe_get bs i" for i
    using n by (rule safe_get_take [rotated])
  show ?thesis
    using assms(2) i [of 1] i [of 2] i [of 3] unfolding utf8_next_def Let_def 0
    by (auto split: if_splits)
qed

lemma valid_utf8_prefix:
  assumes "bs \<noteq> []" "utf8_next bs = (True, n)" "valid_utf8 r"
  shows "valid_utf8 (take n bs @ r)"
proof -
  have "n \<le> length bs" by (rule utf8_next_ok_length [OF assms(1,2)])
  with utf8_next_take [OF assms(1,2), of r] assms(3) show ?thesis
    by (subst valid_utf8.simps) simp
qed

lemma utf8_next_replacement: "utf8_next (replacement @ r) = (True, 3)"
  by (simp add: utf8_next_def replacement_def Let_def safe_get_def utf8_char_width_def
      second3_def cont_byte_def)

lemma valid_replacement: "valid_utf8 r \<Longrightarrow> valid_utf8 (replacement @ r)"
  by (subst valid_utf8.simps) (simp add: utf8_next_replacement, simp add: replacement_def)

lemma from_utf8_lossy_valid: "valid_utf8 (from_utf8_lossy bs)"
proof (induction bs rule: from_utf8_lossy.induct)
  case (1 bs)
  show ?case
  proof (cases "bs = []")
    case False
    obtain ok n where n: "utf8_next bs = (ok, n)" by (cases "utf8_next bs")
    from 1 [OF False n [symmetric]] have IH: "valid_utf8 (from_utf8_lossy (drop n bs))" by simp
    from False n have "from_utf8_lossy bs =
        (if ok then take n bs else replacement) @ from_utf8_lossy (drop n bs)"
      by (subst from_utf8_lossy.simps) simp
    then show ?thesis
      using IH False n by (auto intro: valid_utf8_prefix valid_replacement)
  qed simp
qed

lemma from_utf8_lossy_id: "valid_utf8 bs \<Longrightarrow> from_utf8_lossy bs = bs"
proof (induction bs rule: from_utf8_lossy.induct)
  case (1 bs)
  show ?case
  proof (cases "bs = []")
    case False
    obtain ok n where n: "utf8_next bs = (ok, n)" by (cases "utf8_next bs")
    from "1.prems" False n have ok: "ok" and v: "valid_utf8 (drop n bs)"
      by (subst (asm) valid_utf8.simps, simp)+
    from 1(1) [OF False n [symmetric] refl v] have "from_utf8_lossy (drop n bs) = drop n bs" .
    with False n ok show ?thesis by (subst from_utf8_lossy.simps) simp
  qed simp
qed

lemma ascii_valid: "list_all (\<lambda>b. b < 0x80) bs \<Longrightarrow> valid_utf8 bs"
proof (induction bs)
  case (Cons b bs)
  then show ?case
    by (subst valid_utf8.simps) (simp add: utf8_next_def safe_get_def utf8_char_width_def)
qed simp

end
