(* ===== verification/Protocol.thy ===== *)
theory Protocol
  imports Utf8
begin

text \<open>
  The wire protocol, \<open>src/src/protocol.rs\<close>: constants, data types, the encoders of the requests
  the client sends and the readers of the replies it receives. A reader takes the stream and
  returns the error or the value with the rest of the stream. The text of an error message is
  kept as its template with the arguments that the source formats into it.
\<close>

section \<open>Constants\<close>

definition USBIP_VERSION :: u16 where "USBIP_VERSION = 0x0111"
definition OP_REQ_DEVLIST :: u16 where "OP_REQ_DEVLIST = 0x8005"
definition OP_REP_DEVLIST :: u16 where "OP_REP_DEVLIST = 0x0005"
definition OP_REQ_IMPORT :: u16 where "OP_REQ_IMPORT = 0x8003"
definition OP_REP_IMPORT :: u16 where "OP_REP_IMPORT = 0x0003"
definition USBIP_CMD_SUBMIT :: u32 where "USBIP_CMD_SUBMIT = 1"
definition USBIP_CMD_UNLINK :: u32 where "USBIP_CMD_UNLINK = 2"
definition USBIP_RET_SUBMIT :: u32 where "USBIP_RET_SUBMIT = 3"
definition USBIP_RET_UNLINK :: u32 where "USBIP_RET_UNLINK = 4"
definition URB_SHORT_NOT_OK :: u32 where "URB_SHORT_NOT_OK = 0x0001"
definition URB_ISO_ASAP :: u32 where "URB_ISO_ASAP = 0x0002"
definition URB_ZERO_PACKET :: u32 where "URB_ZERO_PACKET = 0x0040"
definition PORT_RESET_SETUP :: bytes where
  "PORT_RESET_SETUP = [0x23, 0x03, 0x04, 0x00, 0x01, 0x00, 0x00, 0x00]"
definition OP_HEADER_SIZE :: nat where "OP_HEADER_SIZE = 8"
definition BUSID_SIZE :: nat where "BUSID_SIZE = 32"
definition PATH_SIZE :: nat where "PATH_SIZE = 256"
definition DEVICE_SIZE :: nat where "DEVICE_SIZE = 312"
definition INTERFACE_SIZE :: nat where "INTERFACE_SIZE = 4"
definition URB_HEADER_SIZE :: nat where "URB_HEADER_SIZE = 48"
definition ISO_DESCRIPTOR_SIZE :: nat where "ISO_DESCRIPTOR_SIZE = 16"
definition MAX_ISO_PACKETS :: u32 where "MAX_ISO_PACKETS = 1024"
definition MAX_TRANSFER_LENGTH :: u32 where "MAX_TRANSFER_LENGTH = 16 * 1024 * 1024"
definition MAX_EXPORTED_DEVICES :: u32 where "MAX_EXPORTED_DEVICES = 4096"
definition ECONNRESET :: i32 where "ECONNRESET = 104"

lemmas op_codes = USBIP_VERSION_def OP_REQ_DEVLIST_def OP_REP_DEVLIST_def OP_REQ_IMPORT_def
  OP_REP_IMPORT_def USBIP_CMD_SUBMIT_def USBIP_CMD_UNLINK_def USBIP_RET_SUBMIT_def
  USBIP_RET_UNLINK_def
lemmas wire_sizes = OP_HEADER_SIZE_def BUSID_SIZE_def PATH_SIZE_def DEVICE_SIZE_def
  INTERFACE_SIZE_def URB_HEADER_SIZE_def ISO_DESCRIPTOR_SIZE_def

section \<open>Errors and data types\<close>

datatype invalid =
    InvalidBusid rstring
  | DeviceCount u32
  | NumberOfPackets u32
  | NotARetSubmit
  | ActualLengthExceeds u32 u32 u32
  | ImportedBusid rstring rstring
  | RetSubmitUnknownSeqnum u32

datatype ProtocolError =
    Io io_error
  | UnexpectedReply u16 u16
  | StatusError u32
  | UnexpectedCommand u32
  | Invalid invalid

type_synonym 'a reader = "rstream \<Rightarrow> ProtocolError + ('a \<times> rstream)"

datatype Direction = Out | In

definition Direction_as_u32 :: "Direction \<Rightarrow> u32" where
  "Direction_as_u32 d = (case d of Out \<Rightarrow> 0 | In \<Rightarrow> 1)"

definition Direction_of_endpoint :: "u8 \<Rightarrow> Direction" where
  "Direction_of_endpoint address = (if address AND 0x80 \<noteq> 0 then In else Out)"

datatype Speed = SpUnknown | SpLow | SpFull | SpHigh | SpWireless | SpSuper | SpSuperPlus

definition Speed_from_u32 :: "u32 \<Rightarrow> Speed" where
  "Speed_from_u32 value =
     (if value = 1 then SpLow else if value = 2 then SpFull else if value = 3 then SpHigh
      else if value = 4 then SpWireless else if value = 5 then SpSuper
      else if value = 6 then SpSuperPlus else SpUnknown)"

record Interface =
  if_class :: u8
  if_subclass :: u8
  if_protocol :: u8

record ExportedDevice =
  path :: rstring
  busid :: rstring
  busnum :: u32
  devnum :: u32
  speed :: Speed
  id_vendor :: u16
  id_product :: u16
  bcd_device :: u16
  device_class :: u8
  device_subclass :: u8
  device_protocol :: u8
  configuration_value :: u8
  num_configurations :: u8
  num_interfaces :: u8
  interfaces :: "Interface list"

definition devid :: "ExportedDevice \<Rightarrow> u32" where
  "devid d = (push_bit 16 (busnum d)) OR (devnum d AND 0xffff)"

definition c_string :: "bytes \<Rightarrow> rstring" where
  "c_string bs = from_utf8_lossy (takeWhile (\<lambda>b. b \<noteq> 0) bs)"

definition ExportedDevice_decode :: "bytes \<Rightarrow> ExportedDevice" where
  "ExportedDevice_decode buf =
     (let b = drop (PATH_SIZE + BUSID_SIZE) buf;
          (f_busnum, b) = get_u32 b;
          (f_devnum, b) = get_u32 b;
          (f_speed, b) = get_u32 b;
          (f_id_vendor, b) = get_u16 b;
          (f_id_product, b) = get_u16 b;
          (f_bcd_device, b) = get_u16 b;
          (f_class, b) = get_u8 b;
          (f_subclass, b) = get_u8 b;
          (f_protocol, b) = get_u8 b;
          (f_configuration, b) = get_u8 b;
          (f_num_configurations, b) = get_u8 b;
          (f_num_interfaces, b) = get_u8 b
      in \<lparr>path = c_string (take PATH_SIZE buf),
          busid = c_string (take BUSID_SIZE (drop PATH_SIZE buf)),
          busnum = f_busnum, devnum = f_devnum, speed = Speed_from_u32 f_speed,
          id_vendor = f_id_vendor, id_product = f_id_product, bcd_device = f_bcd_device,
          device_class = f_class, device_subclass = f_subclass, device_protocol = f_protocol,
          configuration_value = f_configuration, num_configurations = f_num_configurations,
          num_interfaces = f_num_interfaces, interfaces = []\<rparr>)"

section \<open>Device list and import\<close>

definition encode_busid :: "rstring \<Rightarrow> ProtocolError + bytes" where
  "encode_busid b_id =
     (if BUSID_SIZE \<le> length b_id \<or> 0 \<in> set b_id then Inl (Invalid (InvalidBusid b_id))
      else Inr (b_id @ replicate (BUSID_SIZE - length b_id) 0))"

definition encode_devlist_request :: bytes where
  "encode_devlist_request = u16_be USBIP_VERSION @ u16_be OP_REQ_DEVLIST @ u32_be 0"

definition encode_import_request :: "rstring \<Rightarrow> ProtocolError + bytes" where
  "encode_import_request b_id =
     and_then (encode_busid b_id)
       (\<lambda>b. Inr (u16_be USBIP_VERSION @ u16_be OP_REQ_IMPORT @ u32_be 0 @ b))"

definition read_op_header :: "u16 \<Rightarrow> unit reader" where
  "read_op_header expected r =
     and_then (map_err Io (read_exact OP_HEADER_SIZE r))
       (\<lambda>(buf, r).
          let (version, b) = get_u16 buf; (code, b) = get_u16 b; (status, b) = get_u32 b
          in if code \<noteq> expected then Inl (UnexpectedReply expected code)
             else if status \<noteq> 0 then Inl (StatusError status)
             else Inr ((), r))"

definition read_device :: "ExportedDevice reader" where
  "read_device r =
     and_then (map_err Io (read_exact DEVICE_SIZE r))
       (\<lambda>(buf, r). Inr (ExportedDevice_decode buf, r))"

definition read_u32 :: "u32 reader" where
  "read_u32 r = and_then (map_err Io (read_exact 4 r)) (\<lambda>(b, r). Inr (from_be b, r))"

definition decode_interface :: "bytes \<Rightarrow> Interface" where
  "decode_interface c = \<lparr>if_class = c ! 0, if_subclass = c ! 1, if_protocol = c ! 2\<rparr>"

fun read_devices :: "nat \<Rightarrow> ExportedDevice list reader" where
  "read_devices 0 r = Inr ([], r)"
| "read_devices (Suc n) r =
     and_then (read_device r) (\<lambda>(device, r).
     and_then (map_err Io (read_exact (unat (num_interfaces device) * INTERFACE_SIZE) r))
       (\<lambda>(raw, r).
     and_then (read_devices n r) (\<lambda>(devices, r).
       Inr (device\<lparr>interfaces := map decode_interface (as_chunks INTERFACE_SIZE raw)\<rparr> # devices,
            r))))"

definition read_devlist_reply :: "ExportedDevice list reader" where
  "read_devlist_reply r =
     and_then (read_op_header OP_REP_DEVLIST r) (\<lambda>(u, r).
     and_then (read_u32 r) (\<lambda>(count, r).
       if count > MAX_EXPORTED_DEVICES then Inl (Invalid (DeviceCount count))
       else read_devices (unat count) r))"

definition read_import_reply :: "ExportedDevice reader" where
  "read_import_reply r = and_then (read_op_header OP_REP_IMPORT r) (\<lambda>(u, r). read_device r)"

section \<open>URBs\<close>

record IsoPacketDescriptor =
  iso_offset :: u32
  iso_length :: u32
  iso_actual_length :: u32
  iso_status :: i32

definition IsoPacketDescriptor_encode :: "IsoPacketDescriptor \<Rightarrow> bytes" where
  "IsoPacketDescriptor_encode p =
     u32_be (iso_offset p) @ u32_be (iso_length p) @ u32_be (iso_actual_length p)
       @ u32_be (iso_status p)"

definition IsoPacketDescriptor_decode :: "bytes \<Rightarrow> IsoPacketDescriptor" where
  "IsoPacketDescriptor_decode b =
     (let (f_offset, b) = get_u32 b; (f_length, b) = get_u32 b;
          (f_actual, b) = get_u32 b; (f_status, b) = get_u32 b
      in \<lparr>iso_offset = f_offset, iso_length = f_length, iso_actual_length = f_actual,
          iso_status = f_status\<rparr>)"

record CmdSubmit =
  cs_seqnum :: u32
  cs_devid :: u32
  cs_direction :: u32
  cs_ep :: u32
  cs_transfer_flags :: u32
  cs_transfer_buffer_length :: u32
  cs_start_frame :: u32
  cs_interval :: u32
  cs_setup :: bytes
  cs_data :: bytes
  cs_iso_packets :: "IsoPacketDescriptor list"

definition CmdSubmit_encode :: "CmdSubmit \<Rightarrow> bytes \<Rightarrow> bytes" where
  "CmdSubmit_encode c buf =
     buf @ u32_be USBIP_CMD_SUBMIT @ u32_be (cs_seqnum c) @ u32_be (cs_devid c)
       @ u32_be (cs_direction c) @ u32_be (cs_ep c) @ u32_be (cs_transfer_flags c)
       @ u32_be (cs_transfer_buffer_length c) @ u32_be (cs_start_frame c)
       @ u32_be (if cs_iso_packets c = [] then 0 else of_nat (length (cs_iso_packets c)))
       @ u32_be (cs_interval c) @ cs_setup c @ cs_data c
       @ concat (map IsoPacketDescriptor_encode (cs_iso_packets c))"

record CmdUnlink =
  cu_seqnum :: u32
  cu_devid :: u32
  cu_unlink_seqnum :: u32

definition CmdUnlink_encode :: "CmdUnlink \<Rightarrow> bytes \<Rightarrow> bytes" where
  "CmdUnlink_encode c buf =
     buf @ u32_be USBIP_CMD_UNLINK @ u32_be (cu_seqnum c) @ u32_be (cu_devid c)
       @ u32_be 0 @ u32_be 0 @ u32_be (cu_unlink_seqnum c) @ replicate 24 0"

record RetSubmit =
  rs_seqnum :: u32
  rs_status :: i32
  rs_actual_length :: u32
  rs_start_frame :: u32
  rs_error_count :: u32
  rs_data :: bytes
  rs_iso_packets :: "IsoPacketDescriptor list"

record RetUnlink =
  ru_seqnum :: u32
  ru_status :: i32

datatype Reply =
    ReplySubmit (reply_seqnum: u32) (reply_status: i32) (reply_actual_length: u32)
      (reply_start_frame: u32) (reply_number_of_packets: u32) (reply_error_count: u32)
  | ReplyUnlink RetUnlink

definition read_reply_header :: "Reply reader" where
  "read_reply_header r =
     and_then (map_err Io (read_exact URB_HEADER_SIZE r)) (\<lambda>(buf, r).
       let (command, b) = get_u32 buf; (seqnum, b) = get_u32 b; b = drop 12 b
       in if command = USBIP_RET_SUBMIT then
            let (status, b) = get_u32 b; (actual_length, b) = get_u32 b;
                (start_frame, b) = get_u32 b; (n, b) = get_u32 b;
                number_of_packets = (if n = 0xffffffff then 0 else n);
                (error_count, b) = get_u32 b
            in if number_of_packets > MAX_ISO_PACKETS
               then Inl (Invalid (NumberOfPackets number_of_packets))
               else Inr (ReplySubmit seqnum status actual_length start_frame number_of_packets
                           error_count, r)
          else if command = USBIP_RET_UNLINK then
            Inr (ReplyUnlink \<lparr>ru_seqnum = seqnum, ru_status = fst (get_u32 b)\<rparr>, r)
          else Inl (UnexpectedCommand command))"

definition read_submit_payload :: "Reply \<Rightarrow> bool \<Rightarrow> u32 \<Rightarrow> RetSubmit reader" where
  "read_submit_payload header data_expected max_length r =
     (case header of
        ReplyUnlink u \<Rightarrow> Inl (Invalid NotARetSubmit)
      | ReplySubmit seqnum status actual_length start_frame number_of_packets error_count \<Rightarrow>
          if actual_length > max_length
          then Inl (Invalid (ActualLengthExceeds seqnum actual_length max_length))
          else
            and_then
              (if data_expected \<and> actual_length > 0
               then map_err Io (read_exact (unat actual_length) r) else Inr ([], r))
              (\<lambda>(data, r).
            and_then
              (if number_of_packets > 0
               then and_then (map_err Io
                      (read_exact (unat number_of_packets * ISO_DESCRIPTOR_SIZE) r))
                      (\<lambda>(raw, r). Inr (map IsoPacketDescriptor_decode
                         (as_chunks ISO_DESCRIPTOR_SIZE raw), r))
               else Inr ([], r))
              (\<lambda>(iso_packets, r).
            Inr (\<lparr>rs_seqnum = seqnum, rs_status = status, rs_actual_length = actual_length,
                  rs_start_frame = start_frame, rs_error_count = error_count, rs_data = data,
                  rs_iso_packets = iso_packets\<rparr>, r))))"

section \<open>Unpacking isochronous data\<close>

fun unpack_iso_loop ::
  "bytes \<Rightarrow> IsoPacketDescriptor list \<Rightarrow> bytes \<Rightarrow> nat \<Rightarrow> bytes option" where
  "unpack_iso_loop packed [] out cursor = Some out"
| "unpack_iso_loop packed (p # ps) out cursor =
     (let len = unat (iso_actual_length p); start = unat (iso_offset p)
      in if cursor + len \<le> length packed \<and> start + len \<le> length out
         then unpack_iso_loop packed ps
                (take start out @ take len (drop cursor packed) @ drop (start + len) out)
                (cursor + len)
         else None)"

definition unpack_iso_in :: "bytes \<Rightarrow> IsoPacketDescriptor list \<Rightarrow> nat \<Rightarrow> bytes option" where
  "unpack_iso_in packed packets buffer_length =
     unpack_iso_loop packed packets (replicate buffer_length 0) 0"


section \<open>Descriptors as a fixed-width codec\<close>

lemma length_iso_encode: "length (IsoPacketDescriptor_encode p) = 16"
  by (simp add: IsoPacketDescriptor_encode_def)

lemma iso_decode_encode: "IsoPacketDescriptor_decode (IsoPacketDescriptor_encode p) = p"
  by (simp add: IsoPacketDescriptor_encode_def IsoPacketDescriptor_decode_def wire_simps)

interpretation iso_wire: fixed_codec IsoPacketDescriptor_encode IsoPacketDescriptor_decode 16
  by unfold_locales (simp_all add: length_iso_encode iso_decode_encode)

lemma small_count:
  assumes "n \<le> 1024"
  shows "unat (of_nat n :: u32) = n" "(of_nat n :: u32) \<noteq> 0xffffffff" "\<not> (of_nat n :: u32) > 1024"
proof -
  show 1: "unat (of_nat n :: u32) = n" using assms by (simp add: unat_of_nat)
  show "(of_nat n :: u32) \<noteq> 0xffffffff"
  proof
    assume "(of_nat n :: u32) = 0xffffffff"
    then have "unat (of_nat n :: u32) = unat (0xffffffff :: u32)" by simp
    with 1 assms show False by simp
  qed
  show "\<not> (of_nat n :: u32) > 1024"
    using 1 assms by (simp add: word_less_nat_alt)
qed

lemma unat_of_nat_le: "n \<le> unat (m :: u32) \<Longrightarrow> unat (of_nat n :: u32) = n"
  by (metis le_unat_uoi)

section \<open>Reading a reply\<close>

lemma read_submit_payload_encode:
  assumes "length isos \<le> 1024" "actual \<le> max_length"
    and "data_expected \<Longrightarrow> length data = unat actual" "\<not> data_expected \<Longrightarrow> data = []"
  shows "read_submit_payload (ReplySubmit seqnum status actual frame (of_nat (length isos)) errs)
      data_expected max_length
      \<lparr>avail = data @ concat (map IsoPacketDescriptor_encode isos) @ rest, ending = e\<rparr> =
    Inr (\<lparr>rs_seqnum = seqnum, rs_status = status, rs_actual_length = actual,
          rs_start_frame = frame, rs_error_count = errs, rs_data = data,
          rs_iso_packets = isos\<rparr>, \<lparr>avail = rest, ending = e\<rparr>)"
proof -
  let ?iso = "concat (map IsoPacketDescriptor_encode isos)"
  have cnt: "unat (of_nat (length isos) :: u32) = length isos" using assms(1) by (rule small_count)
  have data: "(if data_expected \<and> actual > 0
      then map_err Io (read_exact (unat actual) \<lparr>avail = data @ ?iso @ rest, ending = e\<rparr>)
      else Inr ([], \<lparr>avail = data @ ?iso @ rest, ending = e\<rparr>))
    = Inr (data, \<lparr>avail = ?iso @ rest, ending = e\<rparr>)"
    using assms(3,4) by (cases data_expected) (auto simp: read_exact_append word_gt_0)
  have iso: "(if (of_nat (length isos) :: u32) > 0
      then and_then (map_err Io (read_exact (length isos * ISO_DESCRIPTOR_SIZE)
             \<lparr>avail = ?iso @ rest, ending = e\<rparr>))
           (\<lambda>(raw, r). Inr (map IsoPacketDescriptor_decode (as_chunks ISO_DESCRIPTOR_SIZE raw), r))
      else Inr ([], \<lparr>avail = ?iso @ rest, ending = e\<rparr>))
    = Inr (isos, \<lparr>avail = rest, ending = e\<rparr>)"
    using cnt by (cases isos)
      (auto simp: wire_sizes word_gt_0 iso_wire.length_concat_enc iso_wire.as_chunks_dec
        read_exact_append length_iso_encode simp del: concat.simps list.map)
  show ?thesis
    unfolding read_submit_payload_def Reply.case cnt data iso
    using assms(2) by (simp add: not_less data iso)
qed


lemma read_submit_payload_bounds:
  assumes "read_submit_payload h data_expected max_length r = Inr (ret, r')"
  shows "rs_actual_length ret \<le> max_length \<and>
    length (rs_data ret) = (if data_expected then unat (rs_actual_length ret) else 0) \<and>
    length (rs_iso_packets ret) = unat (reply_number_of_packets h) \<and>
    (\<exists>payload. avail r = payload @ avail r' \<and> length payload = length (rs_data ret)
       + 16 * length (rs_iso_packets ret))"
proof (cases h)
  case (ReplySubmit s st al sf n ec)
  with assms show ?thesis
    by (auto simp: read_submit_payload_def and_then_eq_Inr read_exact_Inr as_chunks_def wire_sizes
      word_gt_0 not_less split: if_splits)
next
  case (ReplyUnlink u)
  with assms show ?thesis by (simp add: read_submit_payload_def)
qed

lemma read_reply_header_packets:
  "read_reply_header r = Inr (h, r') \<Longrightarrow> (\<exists>u. h = ReplyUnlink u) \<or>
     unat (reply_number_of_packets h) \<le> 1024"
  by (auto simp: read_reply_header_def and_then_eq_Inr Let_def MAX_ISO_PACKETS_def word_less_nat_alt
      get_u32_def split: if_splits)

section \<open>Padded strings and device ids\<close>

lemma takeWhile_nul: "0 \<notin> set s \<Longrightarrow> takeWhile (\<lambda>b. b \<noteq> 0) (s @ replicate k 0) = s" for s :: bytes
  by (induction s) (auto simp: takeWhile_eq_Nil_iff)

lemma c_string_padded:
  "\<lbrakk>0 \<notin> set s; valid_utf8 s\<rbrakk> \<Longrightarrow> c_string (s @ replicate k 0) = s"
  by (simp add: c_string_def takeWhile_nul from_utf8_lossy_id)

lemma small_word_bit:
  fixes w :: u32
  assumes "w < 0x10000" "bit w n"
  shows "n < 16"
proof -
  have "uint w < 2 ^ 16" using assms(1) by (simp add: word_less_alt)
  then have "take_bit 16 (uint w) = uint w" by (simp add: take_bit_int_eq_self)
  moreover have "bit (uint w) n" using assms(2) bit_imp_le_length [OF assms(2)] by (simp add: bit_uint_iff)
  ultimately show ?thesis by (metis bit_take_bit_iff)
qed

lemma devid_inject:
  assumes "busnum a < 0x10000" "busnum b < 0x10000" "devnum a < 0x10000" "devnum b < 0x10000"
    and "devid a = devid b"
  shows "busnum a = busnum b \<and> devnum a = devnum b"
proof -
  have mask: "(0xffff :: u32) = mask 16" by (simp add: mask_eq_exp_minus_1)
  have hi: "drop_bit 16 (devid d) = busnum d" if "busnum d < 0x10000" for d :: ExportedDevice
    using small_word_bit [OF that] unfolding devid_def mask
    by (intro bit_word_eqI) (auto simp: bit_simps)
  have lo: "devid d AND mask 16 = devnum d" if "devnum d < 0x10000" for d :: ExportedDevice
    using small_word_bit [OF that] unfolding devid_def mask
    by (intro bit_word_eqI) (auto simp: bit_simps)
  show ?thesis using hi [of a] hi [of b] lo [of a] lo [of b] assms by metis
qed

section \<open>Correctness of unpacking\<close>

definition pkt_range :: "IsoPacketDescriptor \<Rightarrow> nat set" where
  "pkt_range p = {unat (iso_offset p) ..< unat (iso_offset p) + unat (iso_actual_length p)}"

definition pkt_slice :: "bytes \<Rightarrow> IsoPacketDescriptor \<Rightarrow> bytes" where
  "pkt_slice out p = take (unat (iso_actual_length p)) (drop (unat (iso_offset p)) out)"

fun disjoint_packets :: "IsoPacketDescriptor list \<Rightarrow> bool" where
  "disjoint_packets [] = True"
| "disjoint_packets (p # ps) =
     ((\<forall>q\<in>set ps. pkt_range p \<inter> pkt_range q = {}) \<and> disjoint_packets ps)"

abbreviation packed_length :: "IsoPacketDescriptor list \<Rightarrow> nat" where
  "packed_length ps \<equiv> \<Sum>p\<leftarrow>ps. unat (iso_actual_length p)"

lemma unpack_iso_loop_Some_iff:
  "unpack_iso_loop packed ps out c \<noteq> None \<longleftrightarrow>
     (ps = [] \<or> c + packed_length ps \<le> length packed) \<and>
     (\<forall>p\<in>set ps. unat (iso_offset p) + unat (iso_actual_length p) \<le> length out)"
  by (induction packed ps out c rule: unpack_iso_loop.induct) (auto simp: Let_def)

lemma unpack_iso_loop_length:
  "unpack_iso_loop packed ps out c = Some out' \<Longrightarrow> length out' = length out"
  by (induction packed ps out c rule: unpack_iso_loop.induct) (auto simp: Let_def split: if_splits)

lemma unpack_iso_loop_outside:
  "\<lbrakk>unpack_iso_loop packed ps out c = Some out'; i < length out;
    \<forall>p\<in>set ps. i \<notin> pkt_range p\<rbrakk> \<Longrightarrow> out' ! i = out ! i"
proof (induction packed ps out c rule: unpack_iso_loop.induct)
  case (2 packed p ps out c)
  let ?s = "unat (iso_offset p)" and ?l = "unat (iso_actual_length p)"
  let ?out = "take ?s out @ take ?l (drop c packed) @ drop (?s + ?l) out"
  from "2.prems" have fits: "c + ?l \<le> length packed" "?s + ?l \<le> length out"
    and rec: "unpack_iso_loop packed ps ?out (c + ?l) = Some out'"
    by (auto simp: Let_def split: if_splits)
  have len: "length ?out = length out" using fits by simp
  have "out' ! i = ?out ! i"
    using "2.IH" [OF refl refl _ rec] fits "2.prems" len by simp
  also have "\<dots> = out ! i"
    using "2.prems"(2,3) fits by (auto simp: pkt_range_def nth_append min_absorb2 not_less)
  finally show ?case .
qed simp

lemma unpack_iso_loop_repack:
  "\<lbrakk>unpack_iso_loop packed ps out c = Some out'; disjoint_packets ps\<rbrakk> \<Longrightarrow>
     concat (map (pkt_slice out') ps) = take (packed_length ps) (drop c packed)"
proof (induction packed ps out c rule: unpack_iso_loop.induct)
  case (2 packed p ps out c)
  let ?s = "unat (iso_offset p)" and ?l = "unat (iso_actual_length p)"
  let ?src = "take ?l (drop c packed)"
  let ?out = "take ?s out @ ?src @ drop (?s + ?l) out"
  from "2.prems" have fits: "c + ?l \<le> length packed" "?s + ?l \<le> length out"
    and rec: "unpack_iso_loop packed ps ?out (c + ?l) = Some out'"
    by (auto simp: Let_def split: if_splits)
  have len: "length ?out = length out" "length out' = length out"
    using fits unpack_iso_loop_length [OF rec] by simp_all
  have "pkt_slice out' p = ?src"
  proof (rule nth_equalityI)
    show "length (pkt_slice out' p) = length ?src" using fits len by (simp add: pkt_slice_def)
  next
    fix j
    assume "j < length (pkt_slice out' p)"
    then have j: "j < ?l" by (simp add: pkt_slice_def)
    then have "out' ! (?s + j) = ?out ! (?s + j)"
      using fits len "2.prems"(2) by (intro unpack_iso_loop_outside [OF rec])
        (auto simp: pkt_range_def disjoint_iff)
    with j fits len show "pkt_slice out' p ! j = ?src ! j"
      by (simp add: pkt_slice_def nth_append)
  qed
  moreover have "concat (map (pkt_slice out') ps) = take (packed_length ps) (drop (c + ?l) packed)"
    using "2.IH" [OF refl refl _ rec] fits "2.prems" by simp
  ultimately show ?case by (simp add: take_add add.commute)
qed simp

section \<open>Properties\<close>

text \<open>C39. Isochronous data that the server packs back to back is spread out to the packets' offsets: this
  succeeds exactly when the packed bytes are there and every packet fits the buffer; then the
  buffer keeps its length, is zero outside the packets, and, for packets that do not overlap,
  reading them back in order gives the packed bytes.\<close>

theorem unpack_iso_spreads:
  "case unpack_iso_in packed ps n of
     None \<Rightarrow> \<not> ((ps = [] \<or> packed_length ps \<le> length packed) \<and>
       (\<forall>p\<in>set ps. unat (iso_offset p) + unat (iso_actual_length p) \<le> n))
   | Some out \<Rightarrow> length out = n \<and>
       (\<forall>i<n. (\<forall>p\<in>set ps. i \<notin> pkt_range p) \<longrightarrow> out ! i = 0) \<and>
       (disjoint_packets ps \<longrightarrow> concat (map (pkt_slice out) ps) = take (packed_length ps) packed)"
proof (cases "unpack_iso_in packed ps n")
  case None
  then show ?thesis
    using unpack_iso_loop_Some_iff [of packed ps "replicate n 0" 0] by (simp add: unpack_iso_in_def)
next
  case (Some out)
  then have u: "unpack_iso_loop packed ps (replicate n 0) 0 = Some out" by (simp add: unpack_iso_in_def)
  then show ?thesis
    using Some unpack_iso_loop_length [OF u] unpack_iso_loop_outside [OF u] unpack_iso_loop_repack [OF u] by simp
qed

theorem unpack_iso_spreads_witness:
  "\<exists>out. unpack_iso_in [1, 2] [\<lparr>iso_offset = 0, iso_length = 4, iso_actual_length = 1, iso_status = 0\<rparr>,
      \<lparr>iso_offset = 4, iso_length = 4, iso_actual_length = 1, iso_status = 0\<rparr>] 8 = Some out \<and>
    length out = 8 \<and> out ! 5 = 0 \<and> take 1 out @ take 1 (drop 4 out) = [1, 2]"
proof -
  let ?ps = "[\<lparr>iso_offset = 0, iso_length = 4, iso_actual_length = 1, iso_status = 0\<rparr>,
      \<lparr>iso_offset = 4, iso_length = 4, iso_actual_length = 1, iso_status = 0\<rparr>]"
  obtain out where out: "unpack_iso_in [1, 2] ?ps 8 = Some out"
    by (simp add: unpack_iso_in_def)
  with unpack_iso_spreads [where packed = "[1, 2]" and ps = ?ps and n = 8] show ?thesis
    by (simp add: pkt_range_def pkt_slice_def)
qed

end
