(* ===== verification/Server.thy ===== *)
theory Server
  imports Protocol
begin

text \<open>
  The peer: the wire side of the reference server \<open>src/tests/support/server.rs\<close>, which parses the
  protocol independently of the client's codec. Modelled are how it parses an operation request
  and a URB command, the violations it reports, and how it encodes its replies. It is the
  specification the client's encoders and readers are checked against.
\<close>

record Urb =
  u_seqnum :: u32
  u_devid :: u32
  u_direction :: u32
  u_ep :: u32
  u_transfer_flags :: u32
  u_length :: u32
  u_start_frame :: u32
  u_number_of_packets :: u32
  u_interval :: u32
  u_setup :: bytes
  u_data :: bytes
  u_iso :: "IsoPacketDescriptor list"

definition is_in :: "Urb \<Rightarrow> bool" where
  "is_in u \<longleftrightarrow> u_direction u = 1"

record Completion =
  c_status :: i32
  c_data :: bytes
  c_actual_length :: "u32 option"
  c_iso :: "IsoPacketDescriptor list"
  c_start_frame :: u32

record Export =
  ex_path :: rstring
  ex_busid :: rstring
  ex_busnum :: u32
  ex_devnum :: u32
  ex_speed :: u32
  ex_id_vendor :: u16
  ex_id_product :: u16
  ex_bcd_device :: u16
  ex_class :: bytes
  ex_configuration_value :: u8
  ex_num_configurations :: u8
  ex_interfaces :: "bytes list"

text \<open>The encoder of the tests' server copies the two strings into arrays and panics if they do not fit; exports
  here have a path of at most 256 and a bus id of fewer than 32 bytes (\<open>wf_export\<close>).\<close>

definition Export_encode :: "Export \<Rightarrow> bool \<Rightarrow> bytes" where
  "Export_encode e with_interfaces =
     (ex_path e @ replicate (256 - length (ex_path e)) 0)
     @ (ex_busid e @ replicate (32 - length (ex_busid e)) 0)
     @ u32_be (ex_busnum e) @ u32_be (ex_devnum e) @ u32_be (ex_speed e)
     @ u16_be (ex_id_vendor e) @ u16_be (ex_id_product e) @ u16_be (ex_bcd_device e)
     @ ex_class e
     @ [ex_configuration_value e, ex_num_configurations e, of_nat (length (ex_interfaces e))]
     @ (if with_interfaces then concat (map (\<lambda>i. i @ [0]) (ex_interfaces e)) else [])"

datatype violation =
    VOpVersion u16
  | VOpStatus u32
  | VOpCode u16
  | VDevid u32 u32
  | VReused u32
  | VDirectionEp u32 u32 u32
  | VSetupBytes u32 u32
  | VLength u32 u32
  | VPackets u32 u32
  | VPadding u32
  | VCommand u32
  | VIntervalZero u32 u8
  | VNoPackets u32

section \<open>Operation requests\<close>

datatype op_request = OpDevList | OpImport rstring

definition serve_op :: "rstream \<Rightarrow> (op_request \<times> rstream) option \<times> violation list" where
  "serve_op r =
     (case read_exact 8 r of
        Inl e \<Rightarrow> (None, [])
      | Inr (header, r) \<Rightarrow>
          let version = from_be (take 2 header); code = from_be (take 2 (drop 2 header));
              status = from_be (take 4 (drop 4 header));
              vs = (if version \<noteq> 0x0111 then [VOpVersion version] else [])
                 @ (if status \<noteq> 0 then [VOpStatus status] else [])
          in if code = (0x8005 :: u16) then (Some (OpDevList, r), vs)
             else if code = 0x8003 then
               (case read_exact 32 r of
                  Inl e \<Rightarrow> (None, vs)
                | Inr (id32, r) \<Rightarrow>
                    (Some (OpImport (from_utf8_lossy (takeWhile (\<lambda>b. b \<noteq> 0) id32)), r), vs))
             else (None, vs @ [VOpCode code]))"

definition serve_devlist :: "Export list \<Rightarrow> bytes" where
  "serve_devlist exports =
     [0x01, 0x11, 0x00, 0x05, 0, 0, 0, 0] @ u32_be (of_nat (length exports))
       @ concat (map (\<lambda>e. Export_encode e True) exports)"

definition serve_import ::
  "Export list \<Rightarrow> rstring list \<Rightarrow> rstring \<Rightarrow> bytes \<times> rstring list" where
  "serve_import exports imported b_id =
     (case find (\<lambda>e. ex_busid e = b_id) exports of
        Some e \<Rightarrow>
          if b_id \<in> set imported then ([0x01, 0x11, 0x00, 0x03] @ u32_be 1, imported)
          else ([0x01, 0x11, 0x00, 0x03] @ u32_be 0 @ Export_encode e False, imported @ [b_id])
      | None \<Rightarrow> ([0x01, 0x11, 0x00, 0x03] @ u32_be 1, imported))"

section \<open>URB commands\<close>

datatype server_cmd = SubmitCmd Urb | UnlinkCmd u32 u32

definition be32_at :: "bytes \<Rightarrow> nat \<Rightarrow> u32" where
  "be32_at b i = from_be (take 4 (drop (i * 4) b))"

definition decode_iso_desc :: "bytes \<Rightarrow> IsoPacketDescriptor" where
  "decode_iso_desc c =
     \<lparr>iso_offset = be32_at c 0, iso_length = be32_at c 1, iso_actual_length = be32_at c 2,
      iso_status = be32_at c 3\<rparr>"

text \<open>
  One command of the URB loop: the command and the rest of the stream, or nothing when the
  server drops the connection, and the violations it reports.
\<close>

definition urb_address :: "Urb \<Rightarrow> u8" where
  "urb_address u = ucast (u_ep u) OR (if is_in u then 0x80 else 0)"

text \<open>
  What Linux rejects by dropping the connection: a periodic URB with interval 0 and an
  isochronous one without packets. \<open>eps\<close> are the addresses and attributes of the endpoints of
  the emulated device.
\<close>

definition endpoint_violation :: "(u8 \<times> u8) list \<Rightarrow> Urb \<Rightarrow> violation option" where
  "endpoint_violation eps u =
     (case map_of eps (urb_address u) of
        None \<Rightarrow> None
      | Some attributes \<Rightarrow>
          if (attributes AND 3 = 1 \<or> attributes AND 3 = 3) \<and> u_interval u = 0
          then Some (VIntervalZero (u_seqnum u) (urb_address u))
          else if attributes AND 3 = 1 \<and> u_iso u = [] then Some (VNoPackets (u_seqnum u))
          else None)"

definition serve_submit ::
  "(u8 \<times> u8) list \<Rightarrow> bytes \<Rightarrow> violation list \<Rightarrow> rstream \<Rightarrow> (server_cmd \<times> rstream) option \<times> violation list" where
  "serve_submit eps h vs r =
     (let seqnum = be32_at h 1;
          urb = \<lparr>u_seqnum = seqnum, u_devid = be32_at h 2, u_direction = be32_at h 3,
                 u_ep = be32_at h 4, u_transfer_flags = be32_at h 5, u_length = be32_at h 6,
                 u_start_frame = be32_at h 7, u_number_of_packets = be32_at h 8,
                 u_interval = be32_at h 9, u_setup = take 8 (drop 40 h), u_data = [],
                 u_iso = []\<rparr>;
          vs = vs @ (if u_direction urb > 1 \<or> u_ep urb > 15
                     then [VDirectionEp seqnum (u_direction urb) (u_ep urb)] else [])
             @ (if u_ep urb \<noteq> 0 \<and> u_setup urb \<noteq> replicate 8 0
                then [VSetupBytes seqnum (u_ep urb)] else [])
      in if u_length urb > push_bit 20 16 then (None, vs @ [VLength seqnum (u_length urb)])
         else
           case (if is_in urb then Inr ([], r) else read_exact (unat (u_length urb)) r) of
             Inl e \<Rightarrow> (None, vs)
           | Inr (data, r) \<Rightarrow>
               let packets = (if u_number_of_packets urb = 0xffffffff then 0
                              else u_number_of_packets urb)
               in if packets > 1024 then (None, vs @ [VPackets seqnum packets])
                  else (case read_exact (unat packets * 16) r of
                          Inl e \<Rightarrow> (None, vs)
                        | Inr (raw, r) \<Rightarrow>
                            let urb = urb\<lparr>u_data := data,
                                          u_iso := map decode_iso_desc (as_chunks 16 raw)\<rparr>
                            in case endpoint_violation eps urb of
                                 Some v \<Rightarrow> (None, vs @ [v])
                               | None \<Rightarrow> (Some (SubmitCmd urb, r), vs)))"

definition serve_command ::
  "(u8 \<times> u8) list \<Rightarrow> u32 \<Rightarrow> u32 set \<Rightarrow> rstream \<Rightarrow> (server_cmd \<times> rstream) option \<times> violation list" where
  "serve_command eps export_devid pending r =
     (case read_exact 48 r of
        Inl e \<Rightarrow> (None, [])
      | Inr (h, r) \<Rightarrow>
          let command = be32_at h 0; seqnum = be32_at h 1; dev = be32_at h 2;
              vs = (if dev \<noteq> export_devid then [VDevid seqnum dev] else [])
                 @ (if seqnum \<in> pending then [VReused seqnum] else [])
          in if command = 1 then serve_submit eps h vs r
             else if command = 2 then
               (Some (UnlinkCmd seqnum (be32_at h 5), r),
                vs @ (if \<exists>b\<in>set (drop 24 h). b \<noteq> 0 then [VPadding seqnum] else []))
             else (None, vs @ [VCommand command]))"

definition ret_unlink :: "u32 \<Rightarrow> i32 \<Rightarrow> bytes" where
  "ret_unlink seqnum status =
     concat (map u32_be [4, seqnum, 0, 0, 0, status]) @ replicate 24 0"

definition ret_submit :: "Urb \<Rightarrow> Completion \<Rightarrow> bytes" where
  "ret_submit u c =
     (let actual = (if is_in u then of_nat (length (c_data c))
                    else case c_actual_length c of Some l \<Rightarrow> l | None \<Rightarrow> u_length u);
          packets = (if c_iso c = [] \<and> u_iso u \<noteq> [] then length (u_iso u)
                     else length (c_iso c))
      in concat (map u32_be [3, u_seqnum u, 0, 0, 0, c_status c, actual, c_start_frame c,
                             of_nat packets, 0])
         @ replicate 8 0
         @ (if is_in u then c_data c else [])
         @ concat (map (\<lambda>d. u32_be (iso_offset d) @ u32_be (iso_length d)
                        @ u32_be (iso_actual_length d) @ u32_be (iso_status d))
             (if c_iso c = [] then u_iso u else c_iso c)))"

end
