(* ===== verification/Wire.thy ===== *)
theory Wire
  imports Server
begin

text \<open>
  Client against server: what the client encodes, the reference server parses as the same
  command without a violation, and what the server encodes, the client reads as the same reply,
  in each case leaving exactly the rest of the stream. So frames can be written back to back.
\<close>

section \<open>Commands\<close>

lemma be32_at_0 [wire_simps]: "be32_at (u32_be w @ r) 0 = w"
  by (simp add: be32_at_def)

lemma be32_at_Suc [wire_simps]: "be32_at (u32_be w @ r) (Suc i) = be32_at r i"
  by (simp add: be32_at_def)

lemma be32_at_numeral [wire_simps]:
  "be32_at (u32_be w @ r) (numeral k) = be32_at r (pred_numeral k)"
  by (simp add: numeral_eq_Suc be32_at_Suc)

lemma be32_at_last [wire_simps]: "be32_at (u32_be w) 0 = w"
  by (simp add: be32_at_def)

lemma decode_iso_desc_encode: "decode_iso_desc (IsoPacketDescriptor_encode p) = p"
  by (simp add: IsoPacketDescriptor_encode_def decode_iso_desc_def wire_simps)

interpretation iso_server: fixed_codec IsoPacketDescriptor_encode decode_iso_desc 16
  by unfold_locales (simp_all add: length_iso_encode decode_iso_desc_encode)

definition wf_cmd :: "CmdSubmit \<Rightarrow> bool" where
  "wf_cmd c \<longleftrightarrow> length (cs_setup c) = 8 \<and> cs_direction c \<le> 1 \<and>
     length (cs_data c) = (if cs_direction c = 1 then 0 else unat (cs_transfer_buffer_length c)) \<and>
     length (cs_iso_packets c) \<le> 1024 \<and> cs_transfer_buffer_length c \<le> MAX_TRANSFER_LENGTH"

definition urb_of :: "CmdSubmit \<Rightarrow> Urb" where
  "urb_of c = \<lparr>u_seqnum = cs_seqnum c, u_devid = cs_devid c, u_direction = cs_direction c,
     u_ep = cs_ep c, u_transfer_flags = cs_transfer_flags c,
     u_length = cs_transfer_buffer_length c, u_start_frame = cs_start_frame c,
     u_number_of_packets = of_nat (length (cs_iso_packets c)), u_interval = cs_interval c,
     u_setup = cs_setup c, u_data = cs_data c, u_iso = cs_iso_packets c\<rparr>"

definition submit_violations :: "CmdSubmit \<Rightarrow> violation list" where
  "submit_violations c =
    (if cs_ep c > 15 then [VDirectionEp (cs_seqnum c) (cs_direction c) (cs_ep c)] else [])
    @ (if cs_ep c \<noteq> 0 \<and> cs_setup c \<noteq> replicate 8 0 then [VSetupBytes (cs_seqnum c) (cs_ep c)] else [])"

lemma serve_submit_encode:
  assumes "wf_cmd c" "endpoint_violation eps (urb_of c) = None"
  shows "serve_command eps dev pend \<lparr>avail = CmdSubmit_encode c [] @ rest, ending = e\<rparr> =
    (Some (SubmitCmd (urb_of c), \<lparr>avail = rest, ending = e\<rparr>),
     (if cs_devid c \<noteq> dev then [VDevid (cs_seqnum c) (cs_devid c)] else [])
      @ (if cs_seqnum c \<in> pend then [VReused (cs_seqnum c)] else []) @ submit_violations c)"
proof -
  let ?n = "of_nat (length (cs_iso_packets c)) :: u32"
  let ?h = "u32_be USBIP_CMD_SUBMIT @ u32_be (cs_seqnum c) @ u32_be (cs_devid c)
       @ u32_be (cs_direction c) @ u32_be (cs_ep c) @ u32_be (cs_transfer_flags c)
       @ u32_be (cs_transfer_buffer_length c) @ u32_be (cs_start_frame c)
       @ u32_be ?n @ u32_be (cs_interval c) @ cs_setup c"
  let ?iso = "concat (map IsoPacketDescriptor_encode (cs_iso_packets c))"
  have enc: "CmdSubmit_encode c [] @ rest = ?h @ (cs_data c @ (?iso @ rest))"
    by (simp add: CmdSubmit_encode_def)
  have len: "length ?h = 48" using assms by (simp add: wf_cmd_def)
  have dir: "\<not> cs_direction c > 1" using assms by (simp add: wf_cmd_def not_less)
  have big: "\<not> push_bit 20 16 < cs_transfer_buffer_length c"
    using assms by (simp add: wf_cmd_def MAX_TRANSFER_LENGTH_def not_less)
  have cnt: "unat ?n = length (cs_iso_packets c)" "?n \<noteq> 0xffffffff" "\<not> ?n > 1024"
    using assms small_count by (simp_all add: wf_cmd_def)
  have data_in: "cs_data c = []" if "cs_direction c = 1"
    using assms that by (simp add: wf_cmd_def)
  have data_out: "read_exact (unat (cs_transfer_buffer_length c))
      \<lparr>avail = cs_data c @ ?iso @ rest, ending = e\<rparr> = Inr (cs_data c, \<lparr>avail = ?iso @ rest, ending = e\<rparr>)"
    if "cs_direction c \<noteq> 1"
    using assms that by (simp add: wf_cmd_def read_exact_append)
  have iso: "read_exact (unat ?n * 16) \<lparr>avail = ?iso @ rest, ending = e\<rparr>
      = Inr (?iso, \<lparr>avail = rest, ending = e\<rparr>)"
    by (rule read_exact_append) (simp add: cnt(1) iso_wire.length_concat_enc)
  have stp: "take 8 (drop 40 ?h) = cs_setup c"
    using assms by (simp add: wf_cmd_def)
  show ?thesis
    unfolding enc serve_command_def read_exact_append [OF len]
    using dir big cnt(2,3) stp iso data_in data_out assms(2) [unfolded urb_of_def]
    by (cases "cs_direction c = 1")
      (simp_all add: wire_simps serve_submit_def Let_def op_codes is_in_def urb_of_def
        submit_violations_def iso_server.as_chunks_dec)
qed

text \<open>A frame determines its command: the fields have fixed widths, and the header gives the sizes of the rest.\<close>

lemma u32_be_inj [simp]: "u32_be a = u32_be b \<longleftrightarrow> a = b"
  using be32_at_last by metis

definition sized_cmd :: "CmdSubmit \<Rightarrow> bool" where
  "sized_cmd c \<longleftrightarrow> length (cs_data c) = (if cs_direction c = 1 then 0 else unat (cs_transfer_buffer_length c)) \<and>
     length (cs_iso_packets c) < 2 ^ 32"

lemma concat_iso_inj:
  "\<lbrakk>concat (map IsoPacketDescriptor_encode ps) = concat (map IsoPacketDescriptor_encode qs); length ps = length qs\<rbrakk> \<Longrightarrow> ps = qs"
proof (induction ps arbitrary: qs)
  case (Cons p ps)
  then obtain q qs' where qs: "qs = q # qs'" by (cases qs) auto
  have "IsoPacketDescriptor_encode p = IsoPacketDescriptor_encode q \<and>
      concat (map IsoPacketDescriptor_encode ps) = concat (map IsoPacketDescriptor_encode qs')"
    using Cons.prems(1) by (simp add: qs append_eq_append_conv length_iso_encode)
  then show ?case using Cons.IH [of qs'] Cons.prems(2) decode_iso_desc_encode by (metis qs length_Cons nat.inject)
qed simp

lemma CmdSubmit_encode_inj:
  assumes "CmdSubmit_encode c [] = CmdSubmit_encode c' []" "sized_cmd c" "sized_cmd c'"
  shows "c = c'"
proof -
  let ?iso = "\<lambda>c. concat (map IsoPacketDescriptor_encode (cs_iso_packets c))"
  have n: "(if ps = [] then 0 else of_nat (length ps)) = (of_nat (length ps) :: u32)" for ps :: "IsoPacketDescriptor list"
    by simp
  have h: "cs_seqnum c = cs_seqnum c'" "cs_devid c = cs_devid c'" "cs_direction c = cs_direction c'" "cs_ep c = cs_ep c'"
    "cs_transfer_flags c = cs_transfer_flags c'" "cs_transfer_buffer_length c = cs_transfer_buffer_length c'"
    "cs_start_frame c = cs_start_frame c'" "(of_nat (length (cs_iso_packets c)) :: u32) = of_nat (length (cs_iso_packets c'))"
    "cs_interval c = cs_interval c'" and rest: "cs_setup c @ cs_data c @ ?iso c = cs_setup c' @ cs_data c' @ ?iso c'"
    using assms(1) by (simp_all add: CmdSubmit_encode_def n)
  have iso: "length (cs_iso_packets c) = length (cs_iso_packets c')"
    using arg_cong [OF h(8), of unat] assms(2,3) by (simp add: sized_cmd_def unat_of_nat)
  have data: "length (cs_data c) = length (cs_data c')" using assms(2,3) h(3,6) by (simp add: sized_cmd_def)
  have "length (?iso c) = length (?iso c')" by (simp add: iso_wire.length_concat_enc iso)
  then have "cs_setup c = cs_setup c' \<and> cs_data c = cs_data c' \<and> ?iso c = ?iso c'"
    using rest data arg_cong [OF rest, of length] by (simp add: append_eq_append_conv)
  then show ?thesis using h concat_iso_inj [OF _ iso] by simp
qed

lemma serve_unlink_encode:
  "serve_command eps dev pend \<lparr>avail = CmdUnlink_encode c [] @ rest, ending = e\<rparr> =
    (Some (UnlinkCmd (cu_seqnum c) (cu_unlink_seqnum c), \<lparr>avail = rest, ending = e\<rparr>),
     (if cu_devid c \<noteq> dev then [VDevid (cu_seqnum c) (cu_devid c)] else [])
      @ (if cu_seqnum c \<in> pend then [VReused (cu_seqnum c)] else []))"
proof -
  have len: "length (CmdUnlink_encode c []) = 48" by (simp add: CmdUnlink_encode_def)
  show ?thesis
    unfolding serve_command_def read_exact_append [OF len]
    by (simp add: CmdUnlink_encode_def wire_simps Let_def op_codes)
qed

section \<open>Replies\<close>

definition wf_completion :: "Urb \<Rightarrow> Completion \<Rightarrow> bool" where
  "wf_completion u c \<longleftrightarrow>
     (if is_in u then length (c_data c) \<le> unat (u_length u)
      else (\<forall>l. c_actual_length c = Some l \<longrightarrow> l \<le> u_length u)) \<and>
     length (u_iso u) \<le> 1024 \<and> length (c_iso c) \<le> 1024"

definition ret_of :: "Urb \<Rightarrow> Completion \<Rightarrow> RetSubmit" where
  "ret_of u c =
     \<lparr>rs_seqnum = u_seqnum u, rs_status = c_status c,
      rs_actual_length = (if is_in u then of_nat (length (c_data c))
        else case c_actual_length c of Some l \<Rightarrow> l | None \<Rightarrow> u_length u),
      rs_start_frame = c_start_frame c, rs_error_count = 0,
      rs_data = (if is_in u then c_data c else []),
      rs_iso_packets = (if c_iso c = [] then u_iso u else c_iso c)\<rparr>"

lemma read_reply_header_ret_submit:
  assumes "n \<le> 1024" "length pad = 8"
  shows "read_reply_header \<lparr>avail = concat (map u32_be [3, seqnum, x, y, z, status, actual, frame,
      of_nat n, errs]) @ pad @ rest, ending = e\<rparr> =
    Inr (ReplySubmit seqnum status actual frame (of_nat n) errs, \<lparr>avail = rest, ending = e\<rparr>)"
proof -
  let ?h = "concat (map u32_be [3, seqnum, x, y, z, status, actual, frame, of_nat n, errs]) @ pad"
  have len: "length ?h = URB_HEADER_SIZE" using assms by (simp add: wire_sizes)
  show ?thesis
    using read_exact_append [OF len, of rest e] small_count [OF assms(1)]
    by (simp add: read_reply_header_def wire_simps op_codes MAX_ISO_PACKETS_def Let_def)
qed

lemma read_reply_header_ret_unlink:
  "read_reply_header \<lparr>avail = ret_unlink seqnum status @ rest, ending = e\<rparr> =
    Inr (ReplyUnlink \<lparr>ru_seqnum = seqnum, ru_status = status\<rparr>, \<lparr>avail = rest, ending = e\<rparr>)"
proof -
  have len: "length (ret_unlink seqnum status) = URB_HEADER_SIZE"
    by (simp add: wire_sizes ret_unlink_def)
  show ?thesis
    using read_exact_append [OF len, of rest e]
    by (simp add: read_reply_header_def wire_simps op_codes Let_def ret_unlink_def)
qed

lemma read_ret_submit:
  assumes "wf_completion u c"
  shows "and_then (read_reply_header \<lparr>avail = ret_submit u c @ rest, ending = e\<rparr>)
      (\<lambda>(h, r). read_submit_payload h (is_in u) (u_length u) r)
    = Inr (ret_of u c, \<lparr>avail = rest, ending = e\<rparr>)"
proof -
  let ?isos = "if c_iso c = [] then u_iso u else c_iso c"
  let ?actual = "if is_in u then of_nat (length (c_data c))
     else case c_actual_length c of Some l \<Rightarrow> l | None \<Rightarrow> u_length u"
  let ?data = "if is_in u then c_data c else []"
  have n: "length ?isos \<le> 1024" using assms by (simp add: wf_completion_def)
  have packets: "(if c_iso c = [] \<and> u_iso u \<noteq> [] then length (u_iso u) else length (c_iso c))
      = length ?isos"
    by simp
  have enc: "ret_submit u c @ rest = concat (map u32_be [3, u_seqnum u, 0, 0, 0, c_status c,
       ?actual, c_start_frame c, of_nat (length ?isos), 0]) @ replicate 8 0
       @ (?data @ concat (map IsoPacketDescriptor_encode ?isos) @ rest)"
    unfolding ret_submit_def Let_def packets IsoPacketDescriptor_encode_def by simp
  have len: "is_in u \<Longrightarrow> length ?data = unat ?actual"
    using assms by (auto simp: wf_completion_def unat_of_nat_le)
  have le: "?actual \<le> u_length u"
    using assms by (auto simp: wf_completion_def word_le_nat_alt unat_of_nat_le split: option.splits)
  show ?thesis
    unfolding enc read_reply_header_ret_submit [OF n length_replicate] ret_of_def
    using read_submit_payload_encode [OF n le, of "is_in u" ?data "u_seqnum u" "c_status c"
        "c_start_frame c" 0 rest e] len
    by simp
qed

section \<open>Device list and import\<close>

definition wf_export :: "Export \<Rightarrow> bool" where
  "wf_export e \<longleftrightarrow> length (ex_path e) \<le> 256 \<and> 0 \<notin> set (ex_path e) \<and> valid_utf8 (ex_path e) \<and>
     length (ex_busid e) < 32 \<and> 0 \<notin> set (ex_busid e) \<and> valid_utf8 (ex_busid e) \<and>
     length (ex_class e) = 3 \<and> length (ex_interfaces e) < 256 \<and>
     (\<forall>i\<in>set (ex_interfaces e). length i = 3)"

definition device_of :: "Export \<Rightarrow> ExportedDevice" where
  "device_of e =
     \<lparr>path = ex_path e, busid = ex_busid e, busnum = ex_busnum e, devnum = ex_devnum e,
      speed = Speed_from_u32 (ex_speed e), id_vendor = ex_id_vendor e,
      id_product = ex_id_product e, bcd_device = ex_bcd_device e,
      device_class = ex_class e ! 0, device_subclass = ex_class e ! 1,
      device_protocol = ex_class e ! 2, configuration_value = ex_configuration_value e,
      num_configurations = ex_num_configurations e,
      num_interfaces = of_nat (length (ex_interfaces e)), interfaces = []\<rparr>"

lemma length3: "length xs = 3 \<Longrightarrow> xs = [xs ! 0, xs ! 1, xs ! 2]"
  by (auto simp: numeral_3_eq_3 length_Suc_conv)

lemma Export_encode_interfaces:
  "Export_encode e True = Export_encode e False @ concat (map (\<lambda>i. i @ [0]) (ex_interfaces e))"
  by (simp add: Export_encode_def)

lemma length_Export_encode: "wf_export e \<Longrightarrow> length (Export_encode e False) = DEVICE_SIZE"
  by (simp add: Export_encode_def wf_export_def wire_sizes)

lemma decode_Export_encode:
  assumes "wf_export e"
  shows "ExportedDevice_decode (Export_encode e False) = device_of e"
proof -
  let ?p = "ex_path e @ replicate (256 - length (ex_path e)) 0"
  let ?b = "ex_busid e @ replicate (32 - length (ex_busid e)) 0"
  obtain c0 c1 c2 where cls: "ex_class e = [c0, c1, c2]"
    using assms length3 [of "ex_class e"] by (auto simp: wf_export_def)
  let ?t = "u32_be (ex_busnum e) @ u32_be (ex_devnum e) @ u32_be (ex_speed e)
     @ u16_be (ex_id_vendor e) @ u16_be (ex_id_product e) @ u16_be (ex_bcd_device e)
     @ [c0, c1, c2, ex_configuration_value e, ex_num_configurations e,
        of_nat (length (ex_interfaces e))]"
  have enc: "Export_encode e False = ?p @ ?b @ ?t"
    by (simp add: Export_encode_def cls)
  have p: "length ?p = 256" and b: "length ?b = 32" using assms by (auto simp: wf_export_def)
  have cp: "c_string ?p = ex_path e" and cb: "c_string ?b = ex_busid e"
    using assms by (auto simp: wf_export_def intro!: c_string_padded)
  have d: "drop (256 + 32) (?p @ ?b @ ?t) = ?t" "take 256 (?p @ ?b @ ?t) = ?p"
    "take 32 (drop 256 (?p @ ?b @ ?t)) = ?b"
    using p b by (simp_all del: append_assoc add: append_assoc [symmetric])
  show ?thesis
    unfolding ExportedDevice_decode_def enc PATH_SIZE_def BUSID_SIZE_def d cp cb
    by (simp add: wire_simps device_of_def cls)
qed


lemma read_device_Export:
  "wf_export e \<Longrightarrow> read_device \<lparr>avail = Export_encode e False @ rest, ending = x\<rparr> =
    Inr (device_of e, \<lparr>avail = rest, ending = x\<rparr>)"
  by (simp add: read_device_def read_exact_append length_Export_encode decode_Export_encode)

lemma read_op_header_encode:
  "read_op_header expected
     \<lparr>avail = u16_be v @ u16_be code @ u32_be status @ rest, ending = e\<rparr> =
   (if code \<noteq> expected then Inl (UnexpectedReply expected code)
    else if status \<noteq> 0 then Inl (StatusError status)
    else Inr ((), \<lparr>avail = rest, ending = e\<rparr>))"
proof -
  have len: "length (u16_be v @ u16_be code @ u32_be status) = OP_HEADER_SIZE"
    by (simp add: wire_sizes)
  show ?thesis
    using read_exact_append [OF len, of rest e] by (simp add: read_op_header_def wire_simps)
qed

lemma reply_prefix:
  "[0x01, 0x11, 0x00, 0x03] = u16_be 0x0111 @ u16_be OP_REP_IMPORT"
  "[0x01, 0x11, 0x00, 0x05, 0, 0, 0, 0] = u16_be 0x0111 @ u16_be OP_REP_DEVLIST @ u32_be 0"
  by (simp_all add: u16_be_def u32_be_def op_codes)

lemma import_reply_ok:
  assumes "find (\<lambda>e. ex_busid e = b) exports = Some ex" "b \<notin> set imported" "wf_export ex"
  shows "read_import_reply \<lparr>avail = fst (serve_import exports imported b) @ rest, ending = e\<rparr> =
     Inr (device_of ex, \<lparr>avail = rest, ending = e\<rparr>)"
  using assms
  by (simp add: read_import_reply_def serve_import_def reply_prefix(1) read_op_header_encode
      read_device_Export)

lemma serve_import_request:
  assumes "encode_import_request b = Inr req" "valid_utf8 b"
  shows "serve_op \<lparr>avail = req @ rest, ending = e\<rparr> = (Some (OpImport b, \<lparr>avail = rest, ending = e\<rparr>), [])"
proof -
  let ?h = "u16_be USBIP_VERSION @ u16_be OP_REQ_IMPORT @ u32_be 0"
  let ?b = "b @ replicate (32 - length b) 0"
  have b: "length b < 32" "0 \<notin> set b" and req: "req @ rest = ?h @ (?b @ rest)"
    using assms(1)
    by (auto simp: encode_import_request_def encode_busid_def wire_sizes and_then_eq_Inr
        split: if_splits)
  have h: "read_exact 8 \<lparr>avail = ?h @ (?b @ rest), ending = e\<rparr>
      = Inr (?h, \<lparr>avail = ?b @ rest, ending = e\<rparr>)"
    by (rule read_exact_append) simp
  have i: "read_exact 32 \<lparr>avail = ?b @ rest, ending = e\<rparr> = Inr (?b, \<lparr>avail = rest, ending = e\<rparr>)"
    by (rule read_exact_append) (use b in simp)
  show ?thesis
    unfolding req serve_op_def h
    using i b assms(2) by (simp add: Let_def op_codes takeWhile_nul from_utf8_lossy_id)
qed

definition encode_interface :: "Interface \<Rightarrow> bytes" where
  "encode_interface i = [if_class i, if_subclass i, if_protocol i, 0]"

interpretation iface: fixed_codec encode_interface decode_interface 4
  by unfold_locales (simp_all add: encode_interface_def decode_interface_def)

definition listed_device :: "Export \<Rightarrow> ExportedDevice" where
  "listed_device e = (device_of e)\<lparr>interfaces := map decode_interface (ex_interfaces e)\<rparr>"

lemma interface_bytes:
  "\<forall>i\<in>set is. length i = 3 \<Longrightarrow>
     concat (map (\<lambda>i. i @ [0]) is) = concat (map encode_interface (map decode_interface is))"
proof (induction "is")
  case (Cons i "is")
  then have "i = [i ! 0, i ! 1, i ! 2]" by (intro length3) simp
  then have "i @ [0] = [i ! 0, i ! 1, i ! 2, 0]" by (metis append.simps)
  with Cons show ?case by (simp add: encode_interface_def decode_interface_def)
qed simp

lemma read_devices_encode:
  "\<forall>e\<in>set exports. wf_export e \<Longrightarrow>
   read_devices (length exports)
     \<lparr>avail = concat (map (\<lambda>e. Export_encode e True) exports) @ rest, ending = x\<rparr> =
   Inr (map listed_device exports, \<lparr>avail = rest, ending = x\<rparr>)"
proof (induction exports)
  case (Cons e exports)
  let ?tail = "concat (map (\<lambda>e. Export_encode e True) exports) @ rest"
  let ?is = "map decode_interface (ex_interfaces e)"
  let ?raw = "concat (map encode_interface ?is)"
  have wf: "wf_export e" using Cons.prems by simp
  have raw: "concat (map (\<lambda>i. i @ [0]) (ex_interfaces e)) = ?raw"
    using wf by (intro interface_bytes) (simp add: wf_export_def)
  have n: "unat (of_nat (length (ex_interfaces e)) :: u8) = length (ex_interfaces e)"
    using wf by (simp add: wf_export_def unat_of_nat)
  have rd: "read_exact (unat (num_interfaces (device_of e)) * INTERFACE_SIZE)
      \<lparr>avail = ?raw @ ?tail, ending = x\<rparr> = Inr (?raw, \<lparr>avail = ?tail, ending = x\<rparr>)"
    by (rule read_exact_append) (simp add: device_of_def n wire_sizes iface.length_concat_enc del: map_map)
  have dev: "read_device \<lparr>avail = Export_encode e True @ ?tail, ending = x\<rparr> = Inr (device_of e, \<lparr>avail = ?raw @ ?tail, ending = x\<rparr>)"
    by (simp add: Export_encode_interfaces raw read_device_Export [OF wf] del: map_map)
  show ?case
    using Cons rd by (simp add: dev listed_device_def iface.as_chunks_dec INTERFACE_SIZE_def del: map_map)
qed simp

lemma devlist_reply_ok:
  assumes "\<forall>e\<in>set exports. wf_export e" "length exports \<le> 4096"
  shows "read_devlist_reply \<lparr>avail = serve_devlist exports @ rest, ending = x\<rparr> =
     Inr (map listed_device exports, \<lparr>avail = rest, ending = x\<rparr>)"
proof -
  let ?n = "of_nat (length exports) :: u32"
  let ?devs = "concat (map (\<lambda>e. Export_encode e True) exports) @ rest"
  have n: "unat ?n = length exports" using assms(2) by (simp add: unat_of_nat)
  have le: "\<not> ?n > MAX_EXPORTED_DEVICES"
    using n assms(2) by (simp add: word_less_nat_alt MAX_EXPORTED_DEVICES_def)
  have cnt: "read_u32 \<lparr>avail = u32_be ?n @ ?devs, ending = x\<rparr> = Inr (?n, \<lparr>avail = ?devs, ending = x\<rparr>)"
    by (simp add: read_u32_def read_exact_append)
  have hd: "read_op_header OP_REP_DEVLIST \<lparr>avail = serve_devlist exports @ rest, ending = x\<rparr> =
      Inr ((), \<lparr>avail = u32_be ?n @ ?devs, ending = x\<rparr>)"
    unfolding serve_devlist_def reply_prefix(2)
    using read_op_header_encode [of OP_REP_DEVLIST "0x0111" OP_REP_DEVLIST 0 "u32_be ?n @ ?devs" x]
    by simp
  show ?thesis
    using read_devices_encode [OF assms(1)] le by (simp add: read_devlist_reply_def hd cnt n)
qed

end
