(* ===== verification/Client.thy ===== *)
theory Client
  imports Wire
begin

text \<open>
  The session of one imported device, \<open>src/src/client.rs\<close>. The state behind the mutex, the frame
  channel to the writer task and the watch channel are one record; each critical section is one
  function on it. A oneshot channel is a number: \<open>next_chan\<close> names the next one, a pending
  submit holds the sending end, and \<open>replies\<close> is what has been sent so far. The reader task's
  two critical sections (looking a request up, and resolving it after its payload has been read)
  are separate functions, so that the step relation can interleave other threads between them.

  Operations that call \<open>next_seqnum\<close> return an option: \<open>None\<close> is a loop that never ends, which
  the code reaches only when every sequence number is taken.
\<close>

section \<open>Data\<close>

datatype close_reason =
    ClosedByClient
  | WriteFailed io_error
  | ServerClosed
  | ReadFailed ProtocolError
  | SessionDropped
  | ResetTimedOut

datatype invalid_request =
    OutDataLength nat u32
  | InCarriesData
  | ResetFailed i32

datatype TransferError =
    Unlinked i32
  | Disconnected close_reason
  | InvalidRequest invalid_request

type_synonym TransferResult = "TransferError + RetSubmit"

record SubmitRequest =
  sr_ep :: u8
  sr_direction :: Direction
  sr_transfer_flags :: u32
  sr_length :: u32
  sr_setup :: bytes
  sr_data :: bytes
  sr_start_frame :: u32
  sr_interval :: u32
  sr_iso_packets :: "IsoPacketDescriptor list"

definition SubmitRequest_new :: "u8 \<Rightarrow> Direction \<Rightarrow> u32 \<Rightarrow> SubmitRequest" where
  "SubmitRequest_new ep direction len =
     \<lparr>sr_ep = ep, sr_direction = direction, sr_transfer_flags = 0, sr_length = len,
      sr_setup = replicate 8 0, sr_data = [], sr_start_frame = 0, sr_interval = 0,
      sr_iso_packets = []\<rparr>"

type_synonym chan = nat

record PendingSubmit =
  ps_direction :: Direction
  ps_length :: u32
  ps_reply :: chan

record Shared =
  s_devid :: u32
  next_seq :: u32
  submits :: "(u32, PendingSubmit) amap"
  unlinks :: "(u32, u32) amap"
  unlinked :: "(u32 \<times> Direction \<times> u32) list"
  closed :: "close_reason option"
  frames :: "bytes list"
  writer_open :: bool
  written :: bytes
  closed_tx :: "close_reason option"
  next_chan :: chan
  replies :: "(chan \<times> TransferResult) list"

definition Session_start :: "ExportedDevice \<Rightarrow> Shared" where
  "Session_start device =
     \<lparr>s_devid = devid device, next_seq = 0, submits = [], unlinks = [], unlinked = [],
      closed = None, frames = [], writer_open = True, written = [], closed_tx = None,
      next_chan = 0, replies = []\<rparr>"

section \<open>Listing and importing\<close>

text \<open>The bytes written to the stream and the result of reading the answer.\<close>

definition list_devices :: "rstream \<Rightarrow> bytes \<times> (ProtocolError + ExportedDevice list \<times> rstream)" where
  "list_devices r = (encode_devlist_request, read_devlist_reply r)"

definition import_device :: "rstream \<Rightarrow> rstring \<Rightarrow> bytes \<times> (ProtocolError + (Shared \<times> ExportedDevice) \<times> rstream)" where
  "import_device r b_id =
     (case encode_import_request b_id of
        Inl e \<Rightarrow> ([], Inl e)
      | Inr req \<Rightarrow>
          (req,
           and_then (read_import_reply r) (\<lambda>(device, r).
             if busid device \<noteq> b_id then Inl (Invalid (ImportedBusid (busid device) b_id))
             else Inr ((Session_start device, device), r))))"

section \<open>Operations\<close>

definition send_frame :: "bytes \<Rightarrow> Shared \<Rightarrow> Shared" where
  "send_frame f st = (if writer_open st then st\<lparr>frames := frames st @ [f]\<rparr> else st)"

definition send_reply :: "chan \<Rightarrow> TransferResult \<Rightarrow> Shared \<Rightarrow> Shared" where
  "send_reply c r st = st\<lparr>replies := replies st @ [(c, r)]\<rparr>"

partial_function (option) next_seqnum :: "Shared \<Rightarrow> (u32 \<times> Shared) option" where
  "next_seqnum st =
     (let s = next_seq st + 1; st = st\<lparr>next_seq := s\<rparr>
      in if s \<noteq> 0 \<and> \<not> contains_key (submits st) s \<and> \<not> contains_key (unlinks st) s
         then Some (s, st) else next_seqnum st)"

definition Shared_close :: "close_reason \<Rightarrow> Shared \<Rightarrow> Shared" where
  "Shared_close reason st =
     (if closed st \<noteq> None then st
      else let pending = submits st;
               st = st\<lparr>closed := Some reason, unlinks := [], submits := []\<rparr>;
               st = foldl (\<lambda>st (_, p). send_reply (ps_reply p) (Inl (Disconnected reason)) st)
                      st pending
           in st\<lparr>closed_tx := Some reason\<rparr>)"

definition cmd_of :: "u32 \<Rightarrow> u32 \<Rightarrow> SubmitRequest \<Rightarrow> CmdSubmit" where
  "cmd_of seqnum dev req =
     \<lparr>cs_seqnum = seqnum, cs_devid = dev, cs_direction = Direction_as_u32 (sr_direction req),
      cs_ep = ucast (sr_ep req AND 0x0f), cs_transfer_flags = sr_transfer_flags req,
      cs_transfer_buffer_length = sr_length req, cs_start_frame = sr_start_frame req,
      cs_interval = sr_interval req, cs_setup = sr_setup req, cs_data = sr_data req,
      cs_iso_packets = sr_iso_packets req\<rparr>"

definition submit :: "SubmitRequest \<Rightarrow> Shared \<Rightarrow> ((TransferError + u32 \<times> chan) \<times> Shared) option" where
  "submit req st =
     (if sr_direction req = Out \<and> length (sr_data req) \<noteq> unat (sr_length req)
      then Some (Inl (InvalidRequest (OutDataLength (length (sr_data req)) (sr_length req))), st)
      else if sr_direction req = In \<and> sr_data req \<noteq> []
      then Some (Inl (InvalidRequest InCarriesData), st)
      else case closed st of
        Some reason \<Rightarrow> Some (Inl (Disconnected reason), st)
      | None \<Rightarrow> do {
          (seqnum, st) \<leftarrow> next_seqnum st;
          let tx = next_chan st;
          let frame = CmdSubmit_encode (cmd_of seqnum (s_devid st) req) [];
          let st = st\<lparr>next_chan := Suc tx,
                      submits := AList.update seqnum
                        \<lparr>ps_direction = sr_direction req, ps_length = sr_length req,
                         ps_reply = tx\<rparr> (submits st)\<rparr>;
          Some (Inr (seqnum, tx), send_frame frame st)
        })"

definition unlink :: "u32 \<Rightarrow> Shared \<Rightarrow> Shared option" where
  "unlink target st =
     (if closed st \<noteq> None \<or> \<not> contains_key (submits st) target \<or> target \<in> vals (unlinks st)
      then Some st
      else do {
        (seqnum, st) \<leftarrow> next_seqnum st;
        let st = st\<lparr>unlinks := AList.update seqnum target (unlinks st)\<rparr>;
        let frame = CmdUnlink_encode
          \<lparr>cu_seqnum = seqnum, cu_devid = s_devid st, cu_unlink_seqnum = target\<rparr> [];
        Some (send_frame frame st)
      })"

fun unlink_seqs :: "u32 list \<Rightarrow> Shared \<Rightarrow> Shared option" where
  "unlink_seqs [] st = Some st"
| "unlink_seqs (t # ts) st = do { st \<leftarrow> unlink t st; unlink_seqs ts st }"

definition Session_unlink_all :: "Shared \<Rightarrow> Shared option" where
  "Session_unlink_all st = unlink_seqs (map fst (submits st)) st"

definition pending :: "Shared \<Rightarrow> nat" where
  "pending st = length (submits st)"

definition is_closed :: "Shared \<Rightarrow> bool" where
  "is_closed st \<longleftrightarrow> closed st \<noteq> None"

definition Session_close :: "Shared \<Rightarrow> Shared" where
  "Session_close st = Shared_close ClosedByClient st"

text \<open>
  \<open>closed\<close>: the reason once there is one; until then the caller waits. The sender lives as long as the
  session, so the wait does not end without a reason.
\<close>

definition Session_closed :: "Shared \<Rightarrow> close_reason option" where
  "Session_closed st = closed_tx st"

section \<open>The writer task\<close>

definition BATCH_LIMIT :: nat where "BATCH_LIMIT = 256 * 1024"

fun fill_batch :: "bytes \<Rightarrow> bytes list \<Rightarrow> bytes \<times> bytes list" where
  "fill_batch batch [] = (batch, [])"
| "fill_batch batch (f # fs) =
     (if length batch < BATCH_LIMIT then fill_batch (batch @ f) fs else (batch, f # fs))"

text \<open>
  One round of \<open>write_loop\<close>: \<open>Inr ()\<close> is a successful \<open>write_all\<close>, \<open>Inl (e, k)\<close> one that failed
  with \<open>e\<close> after \<open>k\<close> bytes. Without a frame the round is the one that sees the session closed.
\<close>

definition write_round :: "(io_error \<times> nat) + unit \<Rightarrow> Shared \<Rightarrow> Shared" where
  "write_round outcome st =
     (case frames st of
        [] \<Rightarrow> st
      | f # fs \<Rightarrow>
          let (batch, rest) = fill_batch f fs; st = st\<lparr>frames := rest\<rparr>
          in case outcome of
               Inr u \<Rightarrow> st\<lparr>written := written st @ batch\<rparr>
             | Inl (e, k) \<Rightarrow>
                 (Shared_close (WriteFailed e) (st\<lparr>written := written st @ take k batch\<rparr>))
                   \<lparr>writer_open := False\<rparr>)"

definition write_stop :: "Shared \<Rightarrow> Shared" where
  "write_stop st = st\<lparr>writer_open := False\<rparr>"

section \<open>The reader task\<close>

text \<open>First critical section of \<open>read_one\<close>: the request a RET_SUBMIT answers.\<close>

definition lookup_request :: "u32 \<Rightarrow> Shared \<Rightarrow> (Direction \<times> u32) option" where
  "lookup_request seqnum st =
     (case map_of (submits st) seqnum of
        Some p \<Rightarrow> Some (ps_direction p, ps_length p)
      | None \<Rightarrow>
          (case find (\<lambda>u. fst u = seqnum) (unlinked st) of
             Some (_, direction, len) \<Rightarrow> Some (direction, len)
           | None \<Rightarrow> None))"

text \<open>Second critical section: the reply is taken off the tables and sent on its channel.\<close>

definition resolve_submit :: "u32 \<Rightarrow> RetSubmit \<Rightarrow> Shared \<Rightarrow> Shared" where
  "resolve_submit seqnum ret st =
     (let p = map_of (submits st) seqnum;
          st = st\<lparr>unlinks := retain (\<lambda>_ t. t \<noteq> seqnum) (unlinks st),
                  unlinked := filter (\<lambda>u. fst u \<noteq> seqnum) (unlinked st),
                  submits := AList.delete seqnum (submits st)\<rparr>
      in case p of None \<Rightarrow> st | Some p \<Rightarrow> send_reply (ps_reply p) (Inr ret) st)"

definition resolve_unlink :: "RetUnlink \<Rightarrow> Shared \<Rightarrow> Shared" where
  "resolve_unlink ret st =
     (let target = map_of (unlinks st) (ru_seqnum ret);
          st = st\<lparr>unlinks := AList.delete (ru_seqnum ret) (unlinks st)\<rparr>
      in case target of
           None \<Rightarrow> st
         | Some t \<Rightarrow>
             (case map_of (submits st) t of
                None \<Rightarrow> st
              | Some p \<Rightarrow>
                  let old = (if length (unlinked st) = 256 then tl (unlinked st) else unlinked st)
                  in send_reply (ps_reply p) (Inl (Unlinked (ru_status ret)))
                       (st\<lparr>submits := AList.delete t (submits st),
                           unlinked := old @ [(t, ps_direction p, ps_length p)]\<rparr>)))"

definition read_one :: "Shared \<Rightarrow> rstream \<Rightarrow> ProtocolError + Shared \<times> rstream" where
  "read_one st r =
     and_then (read_reply_header r) (\<lambda>(header, r).
       case header of
         ReplySubmit seqnum _ _ _ _ _ \<Rightarrow>
           (case lookup_request seqnum st of
              None \<Rightarrow> Inl (Invalid (RetSubmitUnknownSeqnum seqnum))
            | Some (direction, len) \<Rightarrow>
                and_then (read_submit_payload header (direction = In) len r)
                  (\<lambda>(ret, r). Inr (resolve_submit seqnum ret st, r)))
       | ReplyUnlink ret \<Rightarrow> Inr (resolve_unlink ret st, r))"

definition close_reason_of :: "ProtocolError \<Rightarrow> close_reason" where
  "close_reason_of e = (case e of Io UnexpectedEof \<Rightarrow> ServerClosed | _ \<Rightarrow> ReadFailed e)"

text \<open>\<open>n\<close> rounds of \<open>read_loop\<close>; an error closes the session and ends it.\<close>

fun read_rounds :: "nat \<Rightarrow> Shared \<Rightarrow> rstream \<Rightarrow> Shared \<times> rstream option" where
  "read_rounds 0 st r = (st, Some r)"
| "read_rounds (Suc n) st r =
     (case read_one st r of
        Inl e \<Rightarrow> (Shared_close (close_reason_of e) st, None)
      | Inr (st, r) \<Rightarrow> read_rounds n st r)"

section \<open>Sequence numbers\<close>

abbreviation seqs_used :: "Shared \<Rightarrow> u32 set" where
  "seqs_used st \<equiv> keys (submits st) \<union> keys (unlinks st)"

lemma next_seqnum_Some:
  assumes "next_seqnum st = Some r"
  shows "fst r \<noteq> 0 \<and> fst r \<notin> seqs_used st \<and> snd r = st\<lparr>next_seq := fst r\<rparr>"
proof (rule next_seqnum.raw_induct [where P = "\<lambda>st r. fst r \<noteq> 0 \<and> fst r \<notin> seqs_used st \<and>
    snd r = st\<lparr>next_seq := fst r\<rparr>", OF _ assms])
  fix f st r
  assume IH: "\<And>st r. f st = Some r \<Longrightarrow> fst r \<noteq> 0 \<and> fst r \<notin> seqs_used st \<and>
      snd r = st\<lparr>next_seq := fst r\<rparr>"
    and eq: "(let s = next_seq st + 1; st = st\<lparr>next_seq := s\<rparr>
      in if s \<noteq> 0 \<and> \<not> contains_key (submits st) s \<and> \<not> contains_key (unlinks st) s
         then Some (s, st) else f st) = Some r"
  show "fst r \<noteq> 0 \<and> fst r \<notin> seqs_used st \<and> snd r = st\<lparr>next_seq := fst r\<rparr>"
    using eq IH [of "st\<lparr>next_seq := next_seq st + 1\<rparr>" r]
    by (auto simp: Let_def amap_simps split: if_splits)
qed

lemma next_seqnum_reaches:
  assumes "w \<noteq> 0" "w \<notin> seqs_used st"
  shows "\<exists>r. next_seqnum st = Some r"
  using assms
proof (induction "unat (w - (next_seq st + 1))" arbitrary: st)
  case 0
  then have "next_seq st + 1 = w" by (metis eq_iff_diff_eq_0 unat_eq_0)
  with "0.prems" show ?case
    by (subst next_seqnum.simps) (simp add: Let_def amap_simps)
next
  case (Suc n)
  let ?st = "st\<lparr>next_seq := next_seq st + 1\<rparr>"
  have ne: "w - (next_seq st + 1) \<noteq> 0" using Suc.hyps(2) by auto
  have "unat (w - (next_seq st + 1) - 1) = unat (w - (next_seq st + 1)) - 1"
    by (rule unat_minus_one [OF ne])
  moreover have "w - (next_seq ?st + 1) = w - (next_seq st + 1) - 1" by simp
  ultimately have "n = unat (w - (next_seq ?st + 1))" using Suc.hyps(2) by presburger
  then have "\<exists>r. next_seqnum ?st = Some r" using Suc.prems by (intro Suc.hyps(1)) simp_all
  then show ?case by (subst next_seqnum.simps) (auto simp: Let_def)
qed

lemma seqnum_free:
  assumes "card (seqs_used st) < 2 ^ 32 - 1"
  shows "\<exists>w. w \<noteq> 0 \<and> w \<notin> seqs_used st"
proof (rule ccontr)
  assume "\<not> ?thesis"
  then have "UNIV - {0} \<subseteq> seqs_used st" by auto
  then have "card (UNIV - {0 :: u32}) \<le> card (seqs_used st)" by (intro card_mono) auto
  moreover have "card (UNIV - {0 :: u32}) = 2 ^ 32 - 1"
    by (simp add: card_Diff_singleton card_word)
  ultimately show False using assms by simp
qed

lemma next_seqnum_total:
  "card (seqs_used st) < 2 ^ 32 - 1 \<Longrightarrow> \<exists>r. next_seqnum st = Some r"
  using seqnum_free next_seqnum_reaches by blast

section \<open>The session invariant\<close>

abbreviation pending_chans :: "Shared \<Rightarrow> chan multiset" where
  "pending_chans st \<equiv> image_mset (ps_reply \<circ> snd) (mset (submits st))"

abbreviation replied_chans :: "Shared \<Rightarrow> chan multiset" where
  "replied_chans st \<equiv> image_mset fst (mset (replies st))"

definition session_inv :: "Shared \<Rightarrow> bool" where
  "session_inv st \<longleftrightarrow>
     wf_amap (submits st) \<and> wf_amap (unlinks st) \<and> 0 \<notin> seqs_used st \<and>
     keys (submits st) \<inter> keys (unlinks st) = {} \<and>
     vals (unlinks st) \<subseteq> keys (submits st) \<and> distinct (map snd (unlinks st)) \<and>
     (closed st \<noteq> None \<longrightarrow> submits st = [] \<and> unlinks st = []) \<and>
     length (unlinked st) \<le> 256 \<and>
     pending_chans st + replied_chans st = mset [0..<next_chan st]"

lemma session_inv_start: "session_inv (Session_start d)"
  by (simp add: session_inv_def Session_start_def)

lemma send_frame_simps [simp]:
  "s_devid (send_frame f st) = s_devid st" "next_seq (send_frame f st) = next_seq st"
  "submits (send_frame f st) = submits st" "unlinks (send_frame f st) = unlinks st"
  "unlinked (send_frame f st) = unlinked st" "closed (send_frame f st) = closed st"
  "next_chan (send_frame f st) = next_chan st" "replies (send_frame f st) = replies st"
  "closed_tx (send_frame f st) = closed_tx st" "written (send_frame f st) = written st"
  "writer_open (send_frame f st) = writer_open st"
  by (simp_all add: send_frame_def)

lemma submit_Inr:
  assumes "submit req st = Some (Inr (seqnum, c), st')"
  shows "closed st = None" "seqnum \<noteq> 0" "seqnum \<notin> seqs_used st" "c = next_chan st"
    "st' = send_frame (CmdSubmit_encode (cmd_of seqnum (s_devid st) req) [])
      (st\<lparr>next_seq := seqnum, next_chan := Suc c,
          submits := submits st @ [(seqnum, \<lparr>ps_direction = sr_direction req,
            ps_length = sr_length req, ps_reply = c\<rparr>)]\<rparr>)"
    "sr_direction req = Out \<Longrightarrow> length (sr_data req) = unat (sr_length req)"
    "sr_direction req = In \<Longrightarrow> sr_data req = []"
  using assms next_seqnum_Some [of st]
  by (auto simp: submit_def bind_eq_Some_conv Let_def amap_simps split: if_splits option.splits)

lemma submit_Inl: "submit req st = Some (Inl e, st') \<Longrightarrow> st' = st"
  by (auto simp: submit_def bind_eq_Some_conv Let_def split: if_splits option.splits)

lemma unlink_cases:
  assumes "unlink t st = Some st'"
  obtains (ignored) "st' = st" "closed st \<noteq> None \<or> t \<notin> keys (submits st) \<or> t \<in> vals (unlinks st)"
  | (sent) s where "closed st = None" "t \<in> keys (submits st)" "t \<notin> vals (unlinks st)"
      "s \<noteq> 0" "s \<notin> seqs_used st"
      "st' = send_frame (CmdUnlink_encode
         \<lparr>cu_seqnum = s, cu_devid = s_devid st, cu_unlink_seqnum = t\<rparr> [])
         (st\<lparr>next_seq := s, unlinks := unlinks st @ [(s, t)]\<rparr>)"
proof (cases "closed st \<noteq> None \<or> t \<notin> keys (submits st) \<or> t \<in> vals (unlinks st)")
  case True
  then have "st' = st" using assms by (simp add: unlink_def amap_simps)
  with True that(1) show ?thesis by blast
next
  case False
  then obtain r where r: "next_seqnum st = Some r"
    and st': "st' = send_frame (CmdUnlink_encode
         \<lparr>cu_seqnum = fst r, cu_devid = s_devid (snd r), cu_unlink_seqnum = t\<rparr> [])
         ((snd r)\<lparr>unlinks := AList.update (fst r) t (unlinks (snd r))\<rparr>)"
    using assms by (auto simp: unlink_def amap_simps bind_eq_Some_conv Let_def)
  with next_seqnum_Some [OF r] False that(2) [of "fst r"] show ?thesis
    by (simp add: update_new)
qed

lemma session_inv_submit:
  assumes "session_inv st" "submit req st = Some (Inr (q, c), st')"
  shows "session_inv st'"
  using assms(1) submit_Inr [OF assms(2)]
  by (auto simp: session_inv_def)

lemma session_inv_unlink:
  assumes "session_inv st" "unlink t st = Some st'"
  shows "session_inv st'"
  using assms(2)
proof (cases rule: unlink_cases)
  case ignored
  with assms(1) show ?thesis by simp
next
  case (sent s)
  with assms(1) show ?thesis by (auto simp: session_inv_def)
qed

lemma foldl_send_reply:
  "foldl (\<lambda>st (_, p). send_reply (ps_reply p) r st) st m =
     st\<lparr>replies := replies st @ map (\<lambda>p. (ps_reply (snd p), r)) m\<rparr>"
  by (induction m arbitrary: st) (auto simp: send_reply_def split: prod.splits)

lemma Shared_close_again [simp]: "closed st \<noteq> None \<Longrightarrow> Shared_close reason st = st"
  by (simp add: Shared_close_def)

lemma Shared_close_open:
  "closed st = None \<Longrightarrow> Shared_close reason st =
     st\<lparr>closed := Some reason, unlinks := [], submits := [],
        replies := replies st @ map (\<lambda>p. (ps_reply (snd p), Inl (Disconnected reason))) (submits st),
        closed_tx := Some reason\<rparr>"
  by (simp add: Shared_close_def foldl_send_reply Let_def)

lemma closed_Shared_close [simp]:
  "closed (Shared_close reason st) = Some (case closed st of None \<Rightarrow> reason | Some r \<Rightarrow> r)"
  by (cases "closed st") (auto simp: Shared_close_open)

lemma session_inv_frames [simp]:
  "session_inv (st\<lparr>frames := a\<rparr>) = session_inv st"
  "session_inv (st\<lparr>written := b\<rparr>) = session_inv st"
  "session_inv (st\<lparr>writer_open := c\<rparr>) = session_inv st"
  "session_inv (st\<lparr>closed_tx := d\<rparr>) = session_inv st"
  by (simp_all add: session_inv_def)

lemma session_inv_close:
  assumes "session_inv st"
  shows "session_inv (Shared_close reason st)"
proof (cases "closed st = None")
  case True
  have "image_mset fst (mset (map (\<lambda>p. (ps_reply (snd p), Inl (Disconnected reason) :: TransferResult))
      (submits st))) = pending_chans st"
    by (simp add: multiset.map_comp comp_def)
  with True assms show ?thesis
    by (simp add: session_inv_def Shared_close_open union_commute)
qed (use assms in auto)

lemma session_inv_write_round: "session_inv st \<Longrightarrow> session_inv (write_round outcome st)"
  by (auto simp: write_round_def Let_def session_inv_close split: list.split prod.split sum.split)

lemma session_inv_resolve_submit:
  assumes "session_inv st"
  shows "session_inv (resolve_submit q ret st)"
proof (cases "map_of (submits st) q")
  case None
  then have "q \<notin> keys (submits st)" by (simp add: map_of_eq_None_iff)
  with assms None show ?thesis
    by (auto simp: session_inv_def resolve_submit_def Let_def delete_absent amap_simps retain_def
        distinct_map_filter le_trans [OF length_filter_le])
next
  case (Some p)
  from assms have "pending_chans st = add_mset (ps_reply p)
      (image_mset (ps_reply \<circ> snd) (mset (AList.delete q (submits st))))"
    using mset_vals_delete [of "submits st" q p "ps_reply \<circ> snd"] Some
    by (simp add: session_inv_def)
  moreover have "vals (retain (\<lambda>_ t. t \<noteq> q) (unlinks st)) \<subseteq> keys (AList.delete q (submits st))"
    using assms by (auto simp: session_inv_def keys_delete set_retain)
  ultimately show ?thesis using assms Some
    by (auto simp: session_inv_def resolve_submit_def Let_def send_reply_def keys_delete
        distinct_map_filter retain_def le_trans [OF length_filter_le])
qed

lemma session_inv_resolve_unlink:
  assumes "session_inv st"
  shows "session_inv (resolve_unlink ret st)"
proof (cases "map_of (unlinks st) (ru_seqnum ret)")
  case None
  with assms show ?thesis by (simp add: resolve_unlink_def delete_absent)
next
  case (Some t)
  let ?u = "AList.delete (ru_seqnum ret) (unlinks st)"
  from assms Some have t: "t \<in> keys (submits st)"
    by (auto simp: session_inv_def dest!: map_of_SomeD)
  then obtain p where p: "map_of (submits st) t = Some p"
    by (metis map_of_eq_None_iff not_Some_eq)
  from assms have *: "pending_chans st = add_mset (ps_reply p)
      (image_mset (ps_reply \<circ> snd) (mset (AList.delete t (submits st))))"
    using mset_vals_delete [of "submits st" t p "ps_reply \<circ> snd"] p
    by (simp add: session_inv_def)
  have "mset (map snd (unlinks st)) = add_mset t (mset (map snd ?u))"
    using mset_vals_delete [of "unlinks st" "ru_seqnum ret" t snd] Some assms
    by (simp add: session_inv_def)
  then have "distinct (t # map snd ?u)" using assms
    unfolding session_inv_def by (metis mset.simps(2) mset_eq_imp_distinct_iff)
  then have u: "t \<notin> vals ?u" "distinct (map snd ?u)" by auto
  have "vals ?u \<subseteq> keys (submits st)"
    using assms by (auto simp: session_inv_def set_delete_eq)
  then show ?thesis
    using assms Some p * u
    by (auto simp: session_inv_def resolve_unlink_def Let_def send_reply_def keys_delete)
qed

section \<open>All threads together\<close>

datatype reader =
    RHeader
  | RPayload Reply u32 Direction u32
  | RDone

record client =
  cl_sess :: Shared
  cl_reader :: reader
  cl_in :: bytes
  cl_eof :: "io_error option"

definition client_init :: "ExportedDevice \<Rightarrow> client" where
  "client_init d = \<lparr>cl_sess = Session_start d, cl_reader = RHeader, cl_in = [], cl_eof = None\<rparr>"

text \<open>
  What the reader can see: the bytes that have arrived. While the connection is up it waits for
  more instead of failing, so an i/o error is a result only once the stream has ended.
\<close>

definition cl_stream :: "client \<Rightarrow> rstream" where
  "cl_stream c = \<lparr>avail = cl_in c, ending = (case cl_eof c of None \<Rightarrow> UnexpectedEof | Some e \<Rightarrow> e)\<rparr>"

definition blocked :: "client \<Rightarrow> ProtocolError \<Rightarrow> bool" where
  "blocked c e \<longleftrightarrow> cl_eof c = None \<and> (\<exists>i. e = Io i)"

definition reader_fails :: "client \<Rightarrow> ProtocolError \<Rightarrow> client" where
  "reader_fails c e =
     c\<lparr>cl_sess := Shared_close (close_reason_of e) (cl_sess c), cl_reader := RDone\<rparr>"

text \<open>The reader up to its next await: a header, or the payload of the reply it is reading.\<close>

definition reader_step :: "client \<Rightarrow> client option" where
  "reader_step c =
     (case cl_reader c of
        RHeader \<Rightarrow>
          (case read_reply_header (cl_stream c) of
             Inl e \<Rightarrow> if blocked c e then None else Some (reader_fails c e)
           | Inr (header, r) \<Rightarrow>
               let c = c\<lparr>cl_in := avail r\<rparr>
               in case header of
                    ReplySubmit seqnum _ _ _ _ _ \<Rightarrow>
                      (case lookup_request seqnum (cl_sess c) of
                         None \<Rightarrow> Some (reader_fails c (Invalid (RetSubmitUnknownSeqnum seqnum)))
                       | Some (direction, len) \<Rightarrow>
                           Some (c\<lparr>cl_reader := RPayload header seqnum direction len\<rparr>))
                  | ReplyUnlink ret \<Rightarrow>
                      Some (c\<lparr>cl_sess := resolve_unlink ret (cl_sess c)\<rparr>))
      | RPayload header seqnum direction len \<Rightarrow>
          (case read_submit_payload header (direction = In) len (cl_stream c) of
             Inl e \<Rightarrow> if blocked c e then None else Some (reader_fails c e)
           | Inr (ret, r) \<Rightarrow>
               Some (c\<lparr>cl_in := avail r, cl_reader := RHeader,
                       cl_sess := resolve_submit seqnum ret (cl_sess c)\<rparr>))
      | RDone \<Rightarrow> None)"

inductive client_step :: "client \<Rightarrow> client \<Rightarrow> bool" where
  step_submit: "submit req (cl_sess c) = Some (res, s) \<Longrightarrow> client_step c (c\<lparr>cl_sess := s\<rparr>)"
| step_unlink: "unlink t (cl_sess c) = Some s \<Longrightarrow> client_step c (c\<lparr>cl_sess := s\<rparr>)"
| step_close: "client_step c (c\<lparr>cl_sess := Session_close (cl_sess c)\<rparr>)"
| step_write: "writer_open (cl_sess c) \<Longrightarrow>
    client_step c (c\<lparr>cl_sess := write_round outcome (cl_sess c)\<rparr>)"
| step_write_stop: "closed_tx (cl_sess c) \<noteq> None \<Longrightarrow>
    client_step c (c\<lparr>cl_sess := write_stop (cl_sess c)\<rparr>)"
| step_arrive: "cl_eof c = None \<Longrightarrow> client_step c (c\<lparr>cl_in := cl_in c @ bs\<rparr>)"
| step_hangup: "cl_eof c = None \<Longrightarrow> client_step c (c\<lparr>cl_eof := Some e\<rparr>)"
| step_read: "reader_step c = Some c' \<Longrightarrow> client_step c c'"
| step_read_stop: "closed_tx (cl_sess c) \<noteq> None \<Longrightarrow> client_step c (c\<lparr>cl_reader := RDone\<rparr>)"

definition client_inv :: "client \<Rightarrow> bool" where
  "client_inv c \<longleftrightarrow>
     session_inv (cl_sess c) \<and> closed_tx (cl_sess c) = closed (cl_sess c) \<and>
     (cl_reader c = RDone \<longrightarrow> closed (cl_sess c) \<noteq> None) \<and>
     (\<not> writer_open (cl_sess c) \<longrightarrow> closed (cl_sess c) \<noteq> None)"

lemma session_inv_submit_any:
  "\<lbrakk>session_inv st; submit req st = Some (res, st')\<rbrakk> \<Longrightarrow> session_inv st'"
  by (cases res) (auto dest: submit_Inl session_inv_submit)

lemma closing_fields:
  "submit req st = Some (res, st') \<Longrightarrow>
     closed st' = closed st \<and> closed_tx st' = closed_tx st \<and> writer_open st' = writer_open st"
  by (cases res) (auto dest!: submit_Inl submit_Inr(5))

lemma unlink_closing_fields:
  "unlink t st = Some st' \<Longrightarrow>
     closed st' = closed st \<and> closed_tx st' = closed_tx st \<and> writer_open st' = writer_open st"
  by (elim unlink_cases) auto

lemma resolve_closing_fields [simp]:
  "closed (resolve_submit q ret st) = closed st" "closed_tx (resolve_submit q ret st) = closed_tx st"
  "writer_open (resolve_submit q ret st) = writer_open st"
  "closed (resolve_unlink ru st) = closed st" "closed_tx (resolve_unlink ru st) = closed_tx st"
  "writer_open (resolve_unlink ru st) = writer_open st"
  by (simp_all add: resolve_submit_def resolve_unlink_def Let_def send_reply_def split: option.split)

lemma Shared_close_fields:
  "closed_tx st = closed st \<Longrightarrow> closed_tx (Shared_close r st) = closed (Shared_close r st)"
  "writer_open (Shared_close r st) = writer_open st"
  by (cases "closed st"; simp add: Shared_close_open)+

lemma write_round_fields:
  assumes "closed_tx st = closed st" "writer_open st"
  shows "closed_tx (write_round out st) = closed (write_round out st)"
    and "\<not> writer_open (write_round out st) \<Longrightarrow> closed (write_round out st) \<noteq> None"
    and "closed st \<noteq> None \<Longrightarrow> closed (write_round out st) \<noteq> None"
  using assms
  by (auto simp: write_round_def Let_def Shared_close_fields
      split: list.splits prod.splits sum.splits)

lemma client_inv_init: "client_inv (client_init d)"
  by (simp add: client_inv_def client_init_def session_inv_start) (simp add: Session_start_def)

lemma client_inv_reader:
  assumes "client_inv c" "reader_step c = Some c'"
  shows "client_inv c'"
  using assms
  by (auto simp: client_inv_def reader_step_def reader_fails_def Let_def Shared_close_fields
      session_inv_close session_inv_resolve_submit session_inv_resolve_unlink
      split: reader.splits sum.splits prod.splits Reply.splits option.splits if_splits)

lemma client_inv_step: "\<lbrakk>client_step c c'; client_inv c\<rbrakk> \<Longrightarrow> client_inv c'"
proof (induction rule: client_step.induct)
  case (step_submit req c res s)
  then show ?case using session_inv_submit_any closing_fields by (fastforce simp: client_inv_def)
next
  case (step_unlink t c s)
  then show ?case using session_inv_unlink unlink_closing_fields by (fastforce simp: client_inv_def)
next
  case (step_write c outcome)
  then show ?case using write_round_fields by (auto simp: client_inv_def session_inv_write_round)
next
  case (step_read c c')
  then show ?case by (rule client_inv_reader [rotated])
qed (auto simp: client_inv_def Session_close_def session_inv_close Shared_close_fields write_stop_def)

section \<open>What the callers see\<close>

text \<open>
  The contract of a session, without sequence numbers, frames and threads: one slot per accepted
  submit, empty until it is answered, and the reason of the close.
\<close>

type_synonym contract = "TransferResult option list \<times> close_reason option"

inductive contract_step :: "contract \<Rightarrow> contract \<Rightarrow> bool" where
  accept: "contract_step (xs, None) (xs @ [None], None)"
| answer: "\<lbrakk>i < length xs; xs ! i = None; \<And>why. r \<noteq> Inl (Disconnected why)\<rbrakk> \<Longrightarrow>
    contract_step (xs, None) (xs[i := Some r], None)"
| shut: "contract_step (xs, None)
    (map (\<lambda>x. case x of None \<Rightarrow> Some (Inl (Disconnected why)) | Some r \<Rightarrow> Some r) xs, Some why)"

definition contract_of :: "Shared \<Rightarrow> contract" where
  "contract_of st = (map (map_of (replies st)) [0..<next_chan st], closed st)"

lemma session_inv_chans:
  assumes "session_inv st"
  shows "distinct (map fst (replies st))"
    and "keys (replies st) \<union> ps_reply ` vals (submits st) = {..<next_chan st}"
    and "keys (replies st) \<inter> ps_reply ` vals (submits st) = {}"
proof -
  have eq: "mset (map (ps_reply \<circ> snd) (submits st) @ map fst (replies st)) = mset [0..<next_chan st]"
    using assms by (simp add: session_inv_def)
  then have dist: "distinct (map (ps_reply \<circ> snd) (submits st) @ map fst (replies st))"
    by (metis distinct_upt mset_eq_imp_distinct_iff)
  show "distinct (map fst (replies st))" using dist by simp
  show "keys (replies st) \<inter> ps_reply ` vals (submits st) = {}"
    using dist by (auto simp: image_iff disjoint_iff)
  show "keys (replies st) \<union> ps_reply ` vals (submits st) = {..<next_chan st}"
    using mset_eq_setD [OF eq] by (simp add: image_comp atLeast0LessThan Un_commute)
qed

lemma contract_answer:
  assumes "session_inv st" "closed st = None" "map_of (submits st) q = Some p"
    and "replies st' = replies st @ [(ps_reply p, r)]" "next_chan st' = next_chan st"
    and "closed st' = None" "\<And>why. r \<noteq> Inl (Disconnected why)"
  shows "contract_step (contract_of st) (contract_of st')"
proof -
  have p: "ps_reply p \<in> ps_reply ` vals (submits st)"
    using assms(3) by (auto dest: map_of_SomeD)
  then have lt: "ps_reply p < next_chan st" and new: "ps_reply p \<notin> keys (replies st)"
    using session_inv_chans [OF assms(1)] by auto
  then have none: "map_of (replies st) (ps_reply p) = None" by (simp add: map_of_eq_None_iff)
  have "map (map_of (replies st')) [0..<next_chan st'] =
      (map (map_of (replies st)) [0..<next_chan st])[ps_reply p := Some r]"
    using lt none assms(4,5)
    by (intro nth_equalityI) (auto simp: nth_list_update map_add_def split: option.split)
  with none show ?thesis
    using contract_step.answer [of "ps_reply p" "map (map_of (replies st)) [0..<next_chan st]" r]
      assms(2,6,7) lt by (simp add: contract_of_def)
qed

lemma contract_close:
  assumes "session_inv st" "closed st = None"
  shows "contract_step (contract_of st) (contract_of (Shared_close why st))"
proof -
  let ?new = "map (\<lambda>p. (ps_reply (snd p), Inl (Disconnected why) :: TransferResult)) (submits st)"
  have *: "map_of (replies st @ ?new) i =
      (case map_of (replies st) i of None \<Rightarrow> Some (Inl (Disconnected why)) | Some r \<Rightarrow> Some r)"
    if "i < next_chan st" for i
  proof (cases "map_of (replies st) i")
    case None
    then have "i \<in> ps_reply ` vals (submits st)"
      using that session_inv_chans(2) [OF assms(1)] by (auto simp: map_of_eq_None_iff)
    then have "i \<in> keys ?new" by (force simp: image_iff)
    then obtain r where r: "map_of ?new i = Some r" by (metis map_of_eq_None_iff not_Some_eq)
    then have "r = Inl (Disconnected why)" by (auto dest!: map_of_SomeD)
    with None r show ?thesis by (simp add: map_add_def)
  qed (simp add: map_add_def)
  then have "map (map_of (replies st @ ?new)) [0..<next_chan st] =
      map (\<lambda>x. case x of None \<Rightarrow> Some (Inl (Disconnected why)) | Some r \<Rightarrow> Some r)
        (map (map_of (replies st)) [0..<next_chan st])"
    by (simp del: map_of_append)
  then have "contract_of (Shared_close why st) =
      (map (\<lambda>x. case x of None \<Rightarrow> Some (Inl (Disconnected why)) | Some r \<Rightarrow> Some r)
        (map (map_of (replies st)) [0..<next_chan st]), Some why)"
    using assms(2) by (simp only: contract_of_def) (simp add: Shared_close_open)
  then show ?thesis
    using contract_step.shut assms(2) by (simp only: contract_of_def)
qed

text \<open>A step of a session is a step of the contract or invisible in it.\<close>

definition refines_contract :: "Shared \<Rightarrow> Shared \<Rightarrow> bool" where
  "refines_contract st st' \<longleftrightarrow> contract_step\<^sup>=\<^sup>= (contract_of st) (contract_of st')"

lemma contract_same:
  "\<lbrakk>replies st' = replies st; next_chan st' = next_chan st; closed st' = closed st\<rbrakk> \<Longrightarrow>
     refines_contract st st'"
  by (simp add: contract_of_def refines_contract_def)

lemma refines_refl [simp]: "refines_contract st st"
  by (simp add: refines_contract_def)

lemma refines_submit:
  assumes "session_inv st" "submit req st = Some (res, st')"
  shows "refines_contract st st'"
proof (cases res)
  case (Inl e)
  with assms(2) show ?thesis by (auto dest: submit_Inl)
next
  case (Inr qc)
  then obtain q c where "submit req st = Some (Inr (q, c), st')" using assms(2) by (cases qc) auto
  note s = submit_Inr [OF this]
  have "map_of (replies st) (next_chan st) = None"
    using session_inv_chans(2) [OF assms(1)] by (auto simp: map_of_eq_None_iff)
  then have "contract_of st' = (fst (contract_of st) @ [None], None)"
    using s by (simp add: contract_of_def)
  moreover have "contract_of st = (fst (contract_of st), None)" using s(1) by (simp add: contract_of_def)
  ultimately show ?thesis using contract_step.accept by (metis sup2I1 refines_contract_def)
qed

lemma refines_unlink: "unlink t st = Some st' \<Longrightarrow> refines_contract st st'"
  by (elim unlink_cases) (auto intro: contract_same)

lemma refines_close:
  assumes "session_inv st"
  shows "refines_contract st (Shared_close why st)"
  using assms contract_close by (cases "closed st") (auto simp: refines_contract_def)

lemma refines_write_round:
  assumes "session_inv st"
  shows "refines_contract st (write_round out st)"
proof -
  have frames: "contract_of (st\<lparr>frames := a, written := b\<rparr>) = contract_of st"
    "contract_of (st\<lparr>writer_open := c\<rparr>) = contract_of st" for a b c st
    by (simp_all add: contract_of_def)
  show ?thesis
    using assms refines_close [of "st\<lparr>frames := fs, written := w\<rparr>" for fs w]
    by (auto simp: write_round_def Let_def frames refines_contract_def split: list.split prod.split sum.split)
qed

lemma refines_resolve_submit:
  assumes "session_inv st"
  shows "refines_contract st (resolve_submit q ret st)"
proof (cases "map_of (submits st) q")
  case None
  then show ?thesis by (intro contract_same) (simp_all add: resolve_submit_def Let_def)
next
  case (Some p)
  then have op: "closed st = None" using assms by (auto simp: session_inv_def)
  have "contract_step (contract_of st) (contract_of (resolve_submit q ret st))"
    by (rule contract_answer [OF assms op Some, where r = "Inr ret"])
      (simp_all add: resolve_submit_def Let_def send_reply_def Some op)
  then show ?thesis by (simp add: refines_contract_def)
qed

lemma refines_resolve_unlink:
  assumes "session_inv st"
  shows "refines_contract st (resolve_unlink ret st)"
proof (cases "map_of (unlinks st) (ru_seqnum ret)")
  case None
  then show ?thesis by (simp add: resolve_unlink_def delete_absent)
next
  case (Some t)
  show ?thesis
  proof (cases "map_of (submits st) t")
    case None
    with Some show ?thesis by (intro contract_same) (simp_all add: resolve_unlink_def Let_def)
  next
    case (Some p)
    then have op: "closed st = None" using assms by (auto simp: session_inv_def)
    have "contract_step (contract_of st) (contract_of (resolve_unlink ret st))"
      by (rule contract_answer [OF assms op Some, where r = "Inl (Unlinked (ru_status ret))"])
        (simp_all add: resolve_unlink_def Let_def send_reply_def Some \<open>map_of (unlinks st) _ = _\<close> op)
    then show ?thesis by (simp add: refines_contract_def)
  qed
qed

lemma refines_reader:
  assumes "client_inv c" "reader_step c = Some c'"
  shows "refines_contract (cl_sess c) (cl_sess c')"
  using assms
  by (auto simp: refines_close refines_resolve_submit
      refines_resolve_unlink client_inv_def reader_step_def reader_fails_def Let_def
      split: reader.splits sum.splits prod.splits Reply.splits option.splits if_splits)

lemma client_step_refines:
  "\<lbrakk>client_step c c'; client_inv c\<rbrakk> \<Longrightarrow> refines_contract (cl_sess c) (cl_sess c')"
proof (induction rule: client_step.induct)
  case (step_submit req c res s)
  then show ?case using refines_submit by (simp add: client_inv_def)
next
  case (step_unlink t c s)
  then show ?case using refines_unlink by simp
next
  case (step_close c)
  then show ?case using refines_close by (simp add: client_inv_def Session_close_def)
next
  case (step_write c outcome)
  then show ?case using refines_write_round by (simp add: client_inv_def)
next
  case (step_write_stop c)
  then show ?case by (intro contract_same) (simp_all add: write_stop_def)
next
  case (step_read c c')
  then show ?case by (rule refines_reader [rotated])
qed simp_all

lemma reachable_client_inv: "client_step\<^sup>*\<^sup>* (client_init d) c \<Longrightarrow> client_inv c"
  by (induction rule: rtranclp_induct) (auto intro: client_inv_init client_inv_step)

section \<open>The interface of a session\<close>

text \<open>
  What the transfer engine relies on: a submit that is accepted adds a fresh request with a fresh
  reply channel to the waiting ones, a rejected one changes nothing, and cancelling marks a
  waiting request without removing it.
\<close>

locale urb_session =
  fixes inv :: "'s \<Rightarrow> bool" and live :: "'s \<Rightarrow> bool"
    and submit_op :: "'r \<Rightarrow> 's \<Rightarrow> (('e + 'q \<times> 'c) \<times> 's) option"
    and unlink_op :: "'q \<Rightarrow> 's \<Rightarrow> 's option"
    and waiting :: "'s \<Rightarrow> ('q \<times> 'c) set" and cancelling :: "'s \<Rightarrow> 'q set"
  assumes submit_inv: "\<lbrakk>inv s; submit_op r s = Some (x, s')\<rbrakk> \<Longrightarrow> inv s'"
    and submit_accepted: "\<lbrakk>inv s; submit_op r s = Some (Inr (q, c), s')\<rbrakk> \<Longrightarrow>
      waiting s' = insert (q, c) (waiting s) \<and> q \<notin> fst ` waiting s \<and> c \<notin> snd ` waiting s \<and>
      cancelling s' = cancelling s \<and> live s \<and> live s'"
    and submit_rejected: "submit_op r s = Some (Inl e, s') \<Longrightarrow> s' = s"
    and unlink_inv: "\<lbrakk>inv s; unlink_op q s = Some s'\<rbrakk> \<Longrightarrow> inv s'"
    and unlink_keeps: "unlink_op q s = Some s' \<Longrightarrow> waiting s' = waiting s \<and> live s' = live s"
    and unlink_marks: "\<lbrakk>live s; unlink_op q s = Some s'\<rbrakk> \<Longrightarrow>
      cancelling s' = cancelling s \<union> ({q} \<inter> fst ` waiting s)"
    and unlink_again: "q \<in> cancelling s \<Longrightarrow> unlink_op q s = Some s"
begin

fun cancel_list :: "'q list \<Rightarrow> 's \<Rightarrow> 's option" where
  "cancel_list [] s = Some s"
| "cancel_list (q # qs) s = do { s \<leftarrow> unlink_op q s; cancel_list qs s }"

lemma cancel_list_keeps:
  "\<lbrakk>inv s; cancel_list qs s = Some s'\<rbrakk> \<Longrightarrow> inv s' \<and> waiting s' = waiting s \<and> live s' = live s"
proof (induction qs arbitrary: s)
  case (Cons q qs)
  then obtain t where "unlink_op q s = Some t" "cancel_list qs t = Some s'"
    by (auto simp: bind_eq_Some_conv)
  with Cons unlink_inv unlink_keeps show ?case by metis
qed simp

lemma cancel_list_marks:
  "\<lbrakk>live s; cancel_list qs s = Some s'\<rbrakk> \<Longrightarrow>
     cancelling s' = cancelling s \<union> (set qs \<inter> fst ` waiting s)"
proof (induction qs arbitrary: s)
  case (Cons q qs)
  then obtain t where t: "unlink_op q s = Some t" "cancel_list qs t = Some s'"
    by (auto simp: bind_eq_Some_conv)
  with Cons unlink_keeps have "cancelling s' = cancelling t \<union> (set qs \<inter> fst ` waiting t)" by metis
  with t Cons.prems unlink_keeps unlink_marks show ?case by auto
qed simp

lemma cancel_list_again: "set qs \<subseteq> cancelling s \<Longrightarrow> cancel_list qs s = Some s"
  by (induction qs) (auto simp: unlink_again)

end

definition waiting_on :: "Shared \<Rightarrow> (u32 \<times> chan) set" where
  "waiting_on st = (\<lambda>p. (fst p, ps_reply (snd p))) ` set (submits st)"

lemma waiting_on_simps [simp]:
  "fst ` waiting_on st = keys (submits st)" "snd ` waiting_on st = ps_reply ` vals (submits st)"
  "waiting_on (send_frame f st) = waiting_on st"
  by (auto simp: waiting_on_def image_comp comp_def)

lemma waiting_on_snoc:
  "submits st' = submits st @ [(q, p)] \<Longrightarrow> waiting_on st' = insert (q, ps_reply p) (waiting_on st)"
  by (simp add: waiting_on_def)

lemma submit_chan_fresh: "session_inv st \<Longrightarrow> next_chan st \<notin> ps_reply ` vals (submits st)"
  using session_inv_chans(2) [of st] by auto

interpretation sess: urb_session session_inv "\<lambda>st. closed st = None" submit unlink waiting_on
  "\<lambda>st. vals (unlinks st)"
proof (unfold_locales, goal_cases)
  case (2 st req q c st')
  note s = submit_Inr [OF 2(2)]
  have "waiting_on st' = insert (q, c) (waiting_on st)"
    using waiting_on_snoc [of st' st q] s(5) by simp
  with s submit_chan_fresh [OF 2(1)] show ?case by simp
next
  case (5 t st st')
  then show ?case by (elim unlink_cases) (simp_all add: waiting_on_def)
next
  case (6 st t st')
  from 6(2) show ?case using 6(1) by (cases rule: unlink_cases) auto
qed (auto simp: unlink_def dest: session_inv_submit_any submit_Inl session_inv_unlink)

lemma unlink_seqs_cancel: "unlink_seqs ts st = sess.cancel_list ts st"
  by (induction ts arbitrary: st) (simp_all cong: Option.bind_cong)

lemma unlink_total:
  assumes "card (seqs_used st) < 2 ^ 32 - 1"
  shows "\<exists>st'. unlink t st = Some st'"
  using next_seqnum_total [OF assms] by (auto simp: unlink_def Let_def)

lemma unlink_card:
  "unlink t st = Some st' \<Longrightarrow> card (seqs_used st') \<le> Suc (card (seqs_used st)) \<and>
     keys (submits st') = keys (submits st)"
proof (elim unlink_cases)
  fix s
  assume st': "st' = send_frame (CmdUnlink_encode
      \<lparr>cu_seqnum = s, cu_devid = s_devid st, cu_unlink_seqnum = t\<rparr> [])
      (st\<lparr>next_seq := s, unlinks := unlinks st @ [(s, t)]\<rparr>)"
  then have "seqs_used st' = insert s (seqs_used st)" by auto
  then have "card (seqs_used st') \<le> Suc (card (seqs_used st))" 
    by (simp add: card_insert_if)
  with st' show ?thesis by simp
qed simp

lemma unlink_seqs_total:
  "card (seqs_used st) + length ts < 2 ^ 32 - 1 \<Longrightarrow> \<exists>st'. unlink_seqs ts st = Some st'"
proof (induction ts arbitrary: st)
  case (Cons t ts)
  then obtain st1 where st1: "unlink t st = Some st1" using unlink_total [of st t] by auto
  then have "card (seqs_used st1) + length ts < 2 ^ 32 - 1" using unlink_card [OF st1] Cons.prems by auto
  with st1 Cons.IH show ?case by simp
qed simp

section \<open>The writer\<close>

lemma fill_batch_concat: "fill_batch b fs = (b', fs') \<Longrightarrow> b' @ concat fs' = b @ concat fs"
  by (induction b fs rule: fill_batch.induct) (auto split: if_splits)

lemma fill_batch_length: "fill_batch b fs = (b', fs') \<Longrightarrow> length fs' \<le> length fs"
  by (induction b fs rule: fill_batch.induct) (auto split: if_splits dest: le_SucI)

lemma write_round_ok:
  assumes "frames st \<noteq> []"
  shows "\<exists>fs w. write_round (Inr ()) st = st\<lparr>frames := fs, written := written st @ w\<rparr> \<and>
    w @ concat fs = concat (frames st) \<and> length fs < length (frames st)"
proof -
  obtain f gs where fr: "frames st = f # gs" using assms by (cases "frames st") auto
  obtain b fs where fb: "fill_batch f gs = (b, fs)" by fastforce
  show ?thesis
    using fill_batch_concat [OF fb] fill_batch_length [OF fb]
    by (intro exI [of _ fs] exI [of _ b]) (simp add: write_round_def fr fb)
qed

lemma write_rounds_flush:
  "length (frames st) \<le> n \<Longrightarrow> (write_round (Inr ()) ^^ n) st =
     st\<lparr>frames := [], written := written st @ concat (frames st)\<rparr>"
proof (induction n arbitrary: st)
  case (Suc n)
  show ?case
  proof (cases "frames st = []")
    case True
    then have "write_round (Inr ()) st = st" by (simp add: write_round_def)
    then show ?thesis using Suc.IH [of st] True by (simp add: funpow_Suc_right del: funpow.simps(2))
  next
    case False
    then obtain fs w where w: "write_round (Inr ()) st = st\<lparr>frames := fs, written := written st @ w\<rparr>"
      "w @ concat fs = concat (frames st)" "length fs < length (frames st)"
      using write_round_ok by blast
    then show ?thesis
      using Suc.IH [of "write_round (Inr ()) st"] Suc.prems by (simp add: funpow_Suc_right del: funpow.simps(2))
  qed
qed simp

section \<open>From submit to the server\<close>

fun submit_all :: "SubmitRequest list \<Rightarrow> Shared \<Rightarrow> (u32 list \<times> Shared) option" where
  "submit_all [] st = Some ([], st)"
| "submit_all (req # reqs) st = do {
     (res, st) \<leftarrow> submit req st;
     (case res of
        Inl e \<Rightarrow> None
      | Inr (q, c) \<Rightarrow> do { (qs, st) \<leftarrow> submit_all reqs st; Some (q # qs, st) })
   }"

fun serve_all :: "(u8 \<times> u8) list \<Rightarrow> u32 \<Rightarrow> u32 set \<Rightarrow> nat \<Rightarrow> rstream \<Rightarrow> (server_cmd list \<times> rstream) option \<times> violation list" where
  "serve_all eps dev pend 0 r = (Some ([], r), [])"
| "serve_all eps dev pend (Suc n) r =
     (case serve_command eps dev pend r of
        (None, vs) \<Rightarrow> (None, vs)
      | (Some (cmd, r), vs) \<Rightarrow>
          let pend = (case cmd of SubmitCmd u \<Rightarrow> insert (u_seqnum u) pend | UnlinkCmd s t \<Rightarrow> pend)
          in case serve_all eps dev pend n r of
               (None, ws) \<Rightarrow> (None, vs @ ws)
             | (Some (cmds, r), ws) \<Rightarrow> (Some (cmd # cmds, r), vs @ ws))"

text \<open>
  The URB that a request asks for: the server must see every field as the caller filled it in, with the
  direction as 0 (out) or 1 (in) and the number of the endpoint without its direction bit.
\<close>

definition requested_urb :: "u32 \<Rightarrow> u32 \<Rightarrow> SubmitRequest \<Rightarrow> Urb" where
  "requested_urb q dev req =
     \<lparr>u_seqnum = q, u_devid = dev, u_direction = (case sr_direction req of In \<Rightarrow> 1 | Out \<Rightarrow> 0),
      u_ep = ucast (sr_ep req AND 0x0f), u_transfer_flags = sr_transfer_flags req, u_length = sr_length req,
      u_start_frame = sr_start_frame req, u_number_of_packets = of_nat (length (sr_iso_packets req)),
      u_interval = sr_interval req, u_setup = sr_setup req, u_data = sr_data req, u_iso = sr_iso_packets req\<rparr>"

definition wf_request :: "(u8 \<times> u8) list \<Rightarrow> SubmitRequest \<Rightarrow> bool" where
  "wf_request eps req \<longleftrightarrow> length (sr_setup req) = 8 \<and>
     length (sr_data req) = (if sr_direction req = In then 0 else unat (sr_length req)) \<and>
     length (sr_iso_packets req) \<le> 1024 \<and> sr_length req \<le> MAX_TRANSFER_LENGTH \<and>
     (sr_ep req AND 0x0f \<noteq> 0 \<longrightarrow> sr_setup req = replicate 8 0) \<and>
     endpoint_violation eps (requested_urb 0 0 req) = None"

lemma Direction_as_u32_simps [simp]:
  "Direction_as_u32 d \<le> 1" "Direction_as_u32 d = 1 \<longleftrightarrow> d = In"
  by (cases d; simp add: Direction_as_u32_def)+

lemma cmd_of_ids [simp]: "cs_devid (cmd_of q dev req) = dev" "cs_seqnum (cmd_of q dev req) = q"
  by (simp_all add: cmd_of_def)

lemma urb_of_cmd_of [simp]: "urb_of (cmd_of q dev req) = requested_urb q dev req"
  by (simp add: urb_of_def cmd_of_def requested_urb_def Direction_as_u32_def split: Direction.split)

lemma cmd_of_accepted:
  "wf_request eps req \<Longrightarrow> endpoint_violation eps (urb_of (cmd_of q dev req)) = None"
  by (auto simp: wf_request_def endpoint_violation_def urb_of_cmd_of requested_urb_def urb_address_def
      is_in_def split: option.splits if_splits)

lemma wf_cmd_of: "wf_request eps req \<Longrightarrow> wf_cmd (cmd_of q dev req)"
  by (simp add: wf_cmd_def cmd_of_def wf_request_def)

lemma ep_number: "(ucast (ep AND 0x0f) :: u32) \<le> 15" for ep :: u8
proof -
  have "ep AND 0x0f \<le> 0x0f" by (rule word_and_le1)
  then have "unat (ep AND 0x0f) \<le> 15" by (simp add: word_le_nat_alt)
  then show ?thesis by (simp add: word_le_nat_alt unsigned_ucast_eq take_bit_nat_eq_self)
qed

lemma ucast_zero_iff: "(ucast w :: u32) = 0 \<longleftrightarrow> w = 0" for w :: u8
  by (simp add: word_unat_eq_iff unsigned_ucast_eq take_bit_nat_eq_self
      less_le_trans [OF unsigned_less [where ?'a = nat]])

lemma cmd_of_violations: "wf_request eps req \<Longrightarrow> submit_violations (cmd_of q dev req) = []"
  using ep_number [of "sr_ep req"]
  by (auto simp: submit_violations_def cmd_of_def wf_request_def not_less ucast_zero_iff)

lemma submit_ok:
  assumes "wf_request eps req" "closed st = None" "card (seqs_used st) < 2 ^ 32 - 1"
  shows "\<exists>q st'. submit req st = Some (Inr (q, next_chan st), st')"
proof -
  obtain q st1 where n: "next_seqnum st = Some (q, st1)" using next_seqnum_total [OF assms(3)] by auto
  then have "next_chan st1 = next_chan st" using next_seqnum_Some [OF n] by simp
  with n assms(1,2) show ?thesis
    by (auto simp: submit_def wf_request_def Let_def split: Direction.splits)
qed

lemma submit_all_ok:
  "\<lbrakk>\<forall>r\<in>set reqs. wf_request eps r; closed st = None; writer_open st;
    card (seqs_used st) + length reqs < 2 ^ 32 - 1\<rbrakk> \<Longrightarrow>
   \<exists>qs st'. submit_all reqs st = Some (qs, st') \<and> length qs = length reqs \<and> distinct qs \<and>
     set qs \<inter> seqs_used st = {} \<and> keys (submits st') = keys (submits st) \<union> set qs \<and>
     frames st' = frames st @ map2 (\<lambda>q req. CmdSubmit_encode (cmd_of q (s_devid st) req) []) qs reqs \<and>
     written st' = written st"
proof (induction reqs arbitrary: st)
  case (Cons req reqs)
  then obtain q st1 where sub: "submit req st = Some (Inr (q, next_chan st), st1)"
    using submit_ok [of eps req st] by auto
  note s = submit_Inr [OF sub]
  have used: "seqs_used st1 = insert q (seqs_used st)"
    and un: "unlinks st1 = unlinks st" using s(5) by auto
  then have "card (seqs_used st1) = Suc (card (seqs_used st))" using s(3) by simp
  then obtain qs st' where ih: "submit_all reqs st1 = Some (qs, st')" "length qs = length reqs"
      "distinct qs" "set qs \<inter> seqs_used st1 = {}" "keys (submits st') = keys (submits st1) \<union> set qs"
      "frames st' = frames st1 @ map2 (\<lambda>q req. CmdSubmit_encode (cmd_of q (s_devid st1) req) []) qs reqs"
      "written st' = written st1"
    using Cons.IH [of st1] Cons.prems s(5) by auto
  have fr: "frames st1 = frames st @ [CmdSubmit_encode (cmd_of q (s_devid st) req) []]"
    and dev: "s_devid st1 = s_devid st" "written st1 = written st"
      "keys (submits st1) = insert q (keys (submits st))"
    using s(5) Cons.prems(3) by (simp_all add: send_frame_def)
  show ?case
    using ih s(3) used by (intro exI [of _ "q # qs"] exI [of _ st']) (auto simp: sub fr dev un)
qed simp

lemma serve_all_submits:
  "\<lbrakk>\<forall>r\<in>set reqs. wf_request eps r; length qs = length reqs; distinct qs; set qs \<inter> pend = {}\<rbrakk> \<Longrightarrow>
   serve_all eps dev pend (length reqs)
     \<lparr>avail = concat (map2 (\<lambda>q req. CmdSubmit_encode (cmd_of q dev req) []) qs reqs) @ rest, ending = e\<rparr> =
   (Some (map2 (\<lambda>q req. SubmitCmd (urb_of (cmd_of q dev req))) qs reqs, \<lparr>avail = rest, ending = e\<rparr>), [])"
proof (induction reqs arbitrary: qs pend)
  case (Cons req reqs)
  then obtain q qs' where qs: "qs = q # qs'" by (cases qs) auto
  let ?tail = "concat (map2 (\<lambda>q req. CmdSubmit_encode (cmd_of q dev req) []) qs' reqs) @ rest"
  have "serve_command eps dev pend \<lparr>avail = CmdSubmit_encode (cmd_of q dev req) [] @ ?tail, ending = e\<rparr> =
      (Some (SubmitCmd (urb_of (cmd_of q dev req)), \<lparr>avail = ?tail, ending = e\<rparr>), [])"
    using Cons.prems qs serve_submit_encode [OF wf_cmd_of [of eps req q dev] cmd_of_accepted [of eps], of dev pend ?tail e]
    by (simp add: cmd_of_violations [of eps])
  moreover have "u_seqnum (requested_urb q dev req) = q" by (simp add: requested_urb_def)
  ultimately show ?case using Cons.IH [of qs' "insert q pend"] Cons.prems by (simp add: qs)
qed simp

section \<open>The reader\<close>

lemma read_reply_header_consumes:
  "read_reply_header r = Inr (h, r') \<Longrightarrow> length (avail r) = 48 + length (avail r') \<and> ending r' = ending r"
  by (auto simp: read_reply_header_def and_then_eq_Inr Let_def get_u32_def wire_sizes read_exact_Inr
      split: if_splits)

lemma read_submit_payload_consumes:
  assumes "read_submit_payload h d m r = Inr (ret, r')"
  shows "length (avail r') \<le> length (avail r)"
proof -
  from read_submit_payload_bounds [OF assms] obtain p where "avail r = p @ avail r'" by blast
  then show ?thesis by simp
qed

lemma read_one_cases:
  assumes "read_one st r = Inr (st', r')"
  obtains (submit) h r1 q direction len ret where "read_reply_header r = Inr (h, r1)"
      "\<exists>a b c d f. h = ReplySubmit q a b c d f" "lookup_request q st = Some (direction, len)"
      "read_submit_payload h (direction = In) len r1 = Inr (ret, r')" "st' = resolve_submit q ret st"
  | (unlink) ret where "read_reply_header r = Inr (ReplyUnlink ret, r')" "st' = resolve_unlink ret st"
proof -
  obtain h r1 where h: "read_reply_header r = Inr (h, r1)"
    using assms by (auto simp: read_one_def and_then_eq_Inr)
  show thesis
  proof (cases h)
    case (ReplySubmit q a b c d f)
    with assms h that(1) show ?thesis
      by (fastforce simp: read_one_def and_then_eq_Inr split: option.splits)
  next
    case (ReplyUnlink ret)
    with assms h that(2) show ?thesis by (simp add: read_one_def)
  qed
qed

lemma read_one_consumes:
  "read_one st r = Inr (st', r') \<Longrightarrow> length (avail r') + 48 \<le> length (avail r)"
  by (elim read_one_cases) (auto dest!: read_reply_header_consumes read_submit_payload_consumes)

lemma session_inv_read_one:
  "\<lbrakk>session_inv st; read_one st r = Inr (st', r')\<rbrakk> \<Longrightarrow> session_inv st'"
  by (elim read_one_cases) (simp_all add: session_inv_resolve_submit session_inv_resolve_unlink)

lemma next_chan_read_one [simp]: "read_one st r = Inr (st', r') \<Longrightarrow> next_chan st' = next_chan st"
  by (elim read_one_cases)
    (simp_all add: resolve_submit_def resolve_unlink_def Let_def send_reply_def split: option.split)

lemma next_chan_close [simp]: "next_chan (Shared_close why st) = next_chan st"
  by (cases "closed st") (simp_all add: Shared_close_open)

lemma read_rounds_end:
  "\<lbrakk>session_inv st; length (avail r) < 48 * n\<rbrakk> \<Longrightarrow>
     \<exists>st'. read_rounds n st r = (st', None) \<and> session_inv st' \<and> closed st' \<noteq> None \<and>
       next_chan st' = next_chan st"
proof (induction n arbitrary: st r)
  case (Suc n)
  show ?case
  proof (cases "read_one st r")
    case (Inl e)
    with Suc.prems show ?thesis by (simp add: session_inv_close)
  next
    case (Inr x)
    then obtain st1 r1 where *: "read_one st r = Inr (st1, r1)" by (cases x) auto
    then have "session_inv st1" "length (avail r1) < 48 * n"
      using Suc.prems read_one_consumes [OF *] session_inv_read_one by auto
    with Suc.IH [of st1 r1] * show ?thesis by simp
  qed
qed simp

lemma read_one_ret_submit:
  assumes "lookup_request (u_seqnum u) st = Some (if is_in u then In else Out, u_length u)"
    and "wf_completion u c"
  shows "read_one st \<lparr>avail = ret_submit u c @ rest, ending = e\<rparr> =
     Inr (resolve_submit (u_seqnum u) (ret_of u c) st, \<lparr>avail = rest, ending = e\<rparr>)"
proof -
  obtain h r where h: "read_reply_header \<lparr>avail = ret_submit u c @ rest, ending = e\<rparr> = Inr (h, r)"
    and p: "read_submit_payload h (is_in u) (u_length u) r = Inr (ret_of u c, \<lparr>avail = rest, ending = e\<rparr>)"
    using read_ret_submit [OF assms(2), of rest e] by (auto simp: and_then_eq_Inr)
  obtain a b c' d f where "h = ReplySubmit (u_seqnum u) a b c' d f"
    using p by (cases h) (auto simp: read_submit_payload_def and_then_eq_Inr ret_of_def split: if_splits)
  with h p assms(1) show ?thesis by (cases "is_in u") (simp_all add: read_one_def)
qed

lemma Session_start_simps [simp]:
  "s_devid (Session_start d) = devid d" "next_seq (Session_start d) = 0"
  "submits (Session_start d) = []" "unlinks (Session_start d) = []"
  "unlinked (Session_start d) = []" "closed (Session_start d) = None"
  "frames (Session_start d) = []" "writer_open (Session_start d)" "written (Session_start d) = []"
  "next_chan (Session_start d) = 0" "replies (Session_start d) = []"
  by (simp_all add: Session_start_def)

text \<open>
  Cancelling a list of transfers adds one entry for each that is pending and not yet cancelled, in order,
  under fresh sequence numbers, and queues the CMD_UNLINK of each entry.
\<close>

definition unlink_frame :: "u32 \<Rightarrow> u32 \<times> u32 \<Rightarrow> bytes" where
  "unlink_frame dev u = CmdUnlink_encode \<lparr>cu_seqnum = fst u, cu_devid = dev, cu_unlink_seqnum = snd u\<rparr> []"

lemma unlink_seqs_sends:
  "\<lbrakk>unlink_seqs ts st = Some st'; distinct ts; closed st = None; writer_open st\<rbrakk> \<Longrightarrow>
   \<exists>us. unlinks st' = unlinks st @ us \<and> submits st' = submits st \<and>
     map snd us = filter (\<lambda>t. t \<in> keys (submits st) \<and> t \<notin> vals (unlinks st)) ts \<and>
     distinct (map fst us) \<and> set (map fst us) \<inter> insert 0 (seqs_used st) = {} \<and>
     frames st' = frames st @ map (unlink_frame (s_devid st)) us"
proof (induction ts arbitrary: st)
  case (Cons t ts)
  then obtain s where s: "unlink t st = Some s" and rest: "unlink_seqs ts s = Some st'" by (auto simp: bind_eq_Some_conv)
  from s show ?case
  proof (cases rule: unlink_cases)
    case ignored
    then show ?thesis using Cons.IH [OF rest] Cons.prems by auto
  next
    case (sent q)
    have f: "unlinks s = unlinks st @ [(q, t)]" "submits s = submits st" "closed s = None" "writer_open s"
      "s_devid s = s_devid st" "frames s = frames st @ [unlink_frame (s_devid st) (q, t)]"
      using sent(1,6) Cons.prems(4) by (simp_all add: send_frame_def unlink_frame_def)
    have "filter (\<lambda>x. x \<in> keys (submits st) \<and> x \<notin> insert t (vals (unlinks st))) ts =
        filter (\<lambda>x. x \<in> keys (submits st) \<and> x \<notin> vals (unlinks st)) ts"
      using Cons.prems(2) by (intro filter_cong) auto
    with Cons.IH [OF rest _ f(3,4)] Cons.prems(2) obtain us where us: "unlinks st' = unlinks st @ (q, t) # us"
      "submits st' = submits st" "map snd us = filter (\<lambda>x. x \<in> keys (submits st) \<and> x \<notin> vals (unlinks st)) ts"
      "distinct (map fst us)" "set (map fst us) \<inter> insert 0 (insert q (seqs_used st)) = {}"
      "frames st' = frames st @ unlink_frame (s_devid st) (q, t) # map (unlink_frame (s_devid st)) us"
      by (auto simp: f)
    then show ?thesis using sent(2-5) by (intro exI [of _ "(q, t) # us"]) auto
  qed
qed simp

lemma serve_all_unlinks:
  "set (map fst us) \<inter> pend = {} \<Longrightarrow>
   serve_all eps dev pend (length us) \<lparr>avail = concat (map (unlink_frame dev) us) @ rest, ending = e\<rparr> =
     (Some (map (\<lambda>(s, t). UnlinkCmd s t) us, \<lparr>avail = rest, ending = e\<rparr>), [])"
  by (induction us) (auto simp: unlink_frame_def serve_unlink_encode)

lemma length_unlinks:
  assumes "session_inv st"
  shows "length (unlinks st) = card (vals (unlinks st))"
  using assms distinct_card [of "map snd (unlinks st)"] by (simp add: session_inv_def)

lemma length_submits:
  assumes "session_inv st"
  shows "pending st = card (keys (submits st))"
  using assms distinct_card [of "map fst (submits st)"] by (simp add: session_inv_def pending_def)

section \<open>Properties\<close>

text \<open>C4. The session as its callers see it: every step of the system of threads (submit, unlink and
  close from any thread, a writer round that succeeds or fails, bytes arriving, the connection
  ending, the reader reading a header or a payload, either task noticing the close) is one step
  of the contract or invisible in it. So a submit opens one empty slot, a slot is answered at
  most once and never changes afterwards, a close answers all empty slots with its reason, and
  nothing changes after it.\<close>

theorem session_refines_contract:
  assumes "client_step\<^sup>*\<^sup>* (client_init d) c" "client_step c c'"
  shows "contract_step\<^sup>=\<^sup>= (contract_of (cl_sess c)) (contract_of (cl_sess c'))"
  using client_step_refines [OF assms(2) reachable_client_inv [OF assms(1)]]
  by (simp add: refines_contract_def)

definition sample_device :: ExportedDevice where
  "sample_device = ExportedDevice_decode (replicate 312 1)"

definition sample_request :: SubmitRequest where
  "sample_request = (SubmitRequest_new 0x81 In 64)"

definition sample_session :: Shared where
  "sample_session = snd (the (submit sample_request (Session_start sample_device)))"

lemma next_seqnum_sample:
  "next_seqnum (Session_start d) = Some (1, (Session_start d)\<lparr>next_seq := 1\<rparr>)"
  by (subst next_seqnum.simps) (simp add: contains_key_def)

lemma sample_session_eq:
  "submit sample_request (Session_start sample_device) = Some (Inr (1, 0), sample_session)"
  "closed sample_session = None" "next_chan sample_session = 1" "replies sample_session = []"
  "submits sample_session = [(1, \<lparr>ps_direction = In, ps_length = 64, ps_reply = 0\<rparr>)]"
  "unlinks sample_session = []" "unlinked sample_session = []" "next_seq sample_session = 1"
  by (simp_all add: sample_session_def submit_def sample_request_def SubmitRequest_new_def
      next_seqnum_sample)

theorem session_refines_contract_witness:
  "contract_step\<^sup>=\<^sup>= ([None], None) ([Some (Inl (Disconnected ClosedByClient))], Some ClosedByClient)"
proof -
  let ?c = "(client_init sample_device)\<lparr>cl_sess := sample_session\<rparr>"
  have 1: "client_step\<^sup>*\<^sup>* (client_init sample_device) ?c"
    using client_step.step_submit [of sample_request "client_init sample_device"] sample_session_eq(1)
    by (simp add: client_init_def r_into_rtranclp)
  show ?thesis
    using session_refines_contract [OF 1 client_step.step_close] sample_session_eq
    by (simp add: contract_of_def Session_close_def Shared_close_open)
qed

text \<open>C6. In every reachable state each accepted submit has either exactly one reply or is still
  pending, never both; and once the session is closed every one of them has its reply. A task
  that has ended means that the session is closed.\<close>

theorem replies_exactly_once:
  assumes "client_step\<^sup>*\<^sup>* (client_init d) c"
  shows "let st = cl_sess c in
    distinct (map fst (replies st)) \<and>
    keys (replies st) \<union> ps_reply ` vals (submits st) = {..<next_chan st} \<and>
    keys (replies st) \<inter> ps_reply ` vals (submits st) = {} \<and>
    (cl_reader c = RDone \<or> \<not> writer_open st \<longrightarrow> closed st \<noteq> None) \<and>
    (closed st \<noteq> None \<longrightarrow> keys (replies st) = {..<next_chan st})"
proof -
  have inv: "client_inv c" using assms by (rule reachable_client_inv)
  then have s: "session_inv (cl_sess c)" by (simp add: client_inv_def)
  have "submits (cl_sess c) = []" if "closed (cl_sess c) \<noteq> None"
    using s that by (simp add: session_inv_def)
  with session_inv_chans [OF s] inv show ?thesis
    by (simp add: client_inv_def Let_def) auto
qed

theorem replies_exactly_once_witness:
  "let st = Session_close sample_session in keys (replies st) = {..<1} \<and> distinct (map fst (replies st))"
proof -
  let ?c = "(client_init sample_device)\<lparr>cl_sess := sample_session\<rparr>"
  have "client_step (client_init sample_device) ?c"
    using client_step.step_submit [of sample_request "client_init sample_device"] sample_session_eq(1)
    by (simp add: client_init_def)
  then have "client_step\<^sup>*\<^sup>* (client_init sample_device) (?c\<lparr>cl_sess := Session_close (cl_sess ?c)\<rparr>)"
    using client_step.step_close [of ?c] by (meson converse_rtranclp_into_rtranclp r_into_rtranclp)
  from replies_exactly_once [OF this] show ?thesis
    by (simp add: Let_def Session_close_def Shared_close_open sample_session_eq)
qed

text \<open>C13. Requests reach the server in the order they were submitted and as they were submitted: on an
  open session with room for the sequence numbers, a run of valid submits is accepted, the
  writer flushes all queued frames in as many rounds as there are frames at most, and the
  reference server parses, one after the other, URBs that have every field as the requests have it:
  direction, endpoint, flags, length, start frame, packets, interval, setup and data, with distinct
  sequence numbers that are not in use; and it reports no violation.\<close>

theorem submits_served_in_order:
  assumes "\<forall>r\<in>set reqs. wf_request eps r" "closed st = None" "writer_open st" "frames st = []"
    and "card (seqs_used st) + length reqs < 2 ^ 32 - 1"
  shows "\<exists>qs st'. submit_all reqs st = Some (qs, st') \<and> distinct qs \<and>
    length qs = length reqs \<and>
    (let out = (write_round (Inr ()) ^^ length reqs) st' in
     frames out = [] \<and>
     serve_all eps (s_devid st) (keys (submits st)) (length reqs)
       \<lparr>avail = drop (length (written st)) (written out), ending = e\<rparr> =
       (Some (map2 (\<lambda>q req. SubmitCmd (requested_urb q (s_devid st) req)) qs reqs,
          \<lparr>avail = [], ending = e\<rparr>), []))"
proof -
  obtain qs st' where *: "submit_all reqs st = Some (qs, st')" "length qs = length reqs"
      "distinct qs" "set qs \<inter> seqs_used st = {}"
      "frames st' = map2 (\<lambda>q req. CmdSubmit_encode (cmd_of q (s_devid st) req) []) qs reqs"
      "written st' = written st"
    using submit_all_ok [OF assms(1,2,3,5)] assms(4) by auto
  then have out: "(write_round (Inr ()) ^^ length reqs) st' =
      st'\<lparr>frames := [], written := written st @ concat (frames st')\<rparr>"
    by (subst write_rounds_flush) simp_all
  have "set qs \<inter> keys (submits st) = {}" using *(4) by auto
  from serve_all_submits [OF assms(1) *(2,3) this, of "s_devid st" "[]" e] show ?thesis
    using * by (intro exI [of _ qs] exI [of _ st']) (simp add: out Let_def urb_of_cmd_of)
qed

theorem submits_served_in_order_witness:
  "\<exists>q st'. submit_all [sample_request] (Session_start sample_device) = Some ([q], st') \<and>
     fst (serve_all [(0x81, 2)] (devid sample_device) {} 1
       \<lparr>avail = written (write_round (Inr ()) st'), ending = UnexpectedEof\<rparr>) =
       Some ([SubmitCmd \<lparr>u_seqnum = q, u_devid = devid sample_device, u_direction = 1, u_ep = 1, u_transfer_flags = 0,
          u_length = 64, u_start_frame = 0, u_number_of_packets = 0, u_interval = 0, u_setup = replicate 8 0,
          u_data = [], u_iso = []\<rparr>], \<lparr>avail = [], ending = UnexpectedEof\<rparr>)"
proof -
  have "\<forall>r\<in>set [sample_request]. wf_request [(0x81, 2)] r"
    by (simp add: wf_request_def endpoint_violation_def urb_address_def requested_urb_def is_in_def sample_request_def SubmitRequest_new_def MAX_TRANSFER_LENGTH_def)
  then obtain qs st' where *: "submit_all [sample_request] (Session_start sample_device) = Some (qs, st')" "length qs = 1"
    "serve_all [(0x81, 2)] (devid sample_device) {} 1 \<lparr>avail = written (write_round (Inr ()) st'), ending = UnexpectedEof\<rparr> =
      (Some (map2 (\<lambda>q req. SubmitCmd (requested_urb q (devid sample_device) req)) qs [sample_request], \<lparr>avail = [], ending = UnexpectedEof\<rparr>), [])"
    using submits_served_in_order [of "[sample_request]" "[(0x81, 2)]" "Session_start sample_device" UnexpectedEof]
    by (auto simp: Let_def)
  then obtain q where "qs = [q]" by (auto simp: length_Suc_conv)
  with * show ?thesis
    by (intro exI [of _ q] exI [of _ st']) (simp add: requested_urb_def sample_request_def SubmitRequest_new_def)
qed

text \<open>C17. \<open>unlink_all\<close> on an open session cancels every pending transfer once: it queues one command for
  each pending transfer that has none yet, in the order of the table, and the server reads
  these as CMD_UNLINKs that name exactly these transfers, under new sequence numbers and with no
  violation; every transfer stays pending, and a second call changes nothing.\<close>

theorem unlink_all_once:
  assumes "session_inv st" "closed st = None" "writer_open st"
    and "card (seqs_used st) + pending st < 2 ^ 32 - 1"
  shows "\<exists>st' us fs. Session_unlink_all st = Some st' \<and> submits st' = submits st \<and>
    unlinks st' = unlinks st @ us \<and>
    map snd us = filter (\<lambda>t. t \<notin> vals (unlinks st)) (map fst (submits st)) \<and>
    distinct (map fst us) \<and> set (map fst us) \<inter> insert 0 (seqs_used st) = {} \<and>
    frames st' = frames st @ fs \<and> length fs = pending st - length (unlinks st) \<and>
    serve_all eps (s_devid st) (keys (submits st)) (length fs) \<lparr>avail = concat fs, ending = e\<rparr> =
      (Some (map (\<lambda>(s, t). UnlinkCmd s t) us, \<lparr>avail = [], ending = e\<rparr>), []) \<and>
    vals (unlinks st') = keys (submits st) \<and> Session_unlink_all st' = Some st'"
proof -
  let ?ts = "map fst (submits st)"
  obtain st' where st': "unlink_seqs ?ts st = Some st'"
    using unlink_seqs_total [of st ?ts] assms(4) by (auto simp: pending_def)
  then have c: "sess.cancel_list ?ts st = Some st'" by (simp add: unlink_seqs_cancel)
  have "distinct ?ts" using assms(1) by (simp add: session_inv_def)
  from unlink_seqs_sends [OF st' this assms(2,3)] obtain us where us: "unlinks st' = unlinks st @ us"
    "submits st' = submits st" "map snd us = filter (\<lambda>t. t \<in> keys (submits st) \<and> t \<notin> vals (unlinks st)) ?ts"
    "distinct (map fst us)" "set (map fst us) \<inter> insert 0 (seqs_used st) = {}"
    "frames st' = frames st @ map (unlink_frame (s_devid st)) us" by blast
  have ts: "filter (\<lambda>t. t \<in> keys (submits st) \<and> t \<notin> vals (unlinks st)) ?ts = filter (\<lambda>t. t \<notin> vals (unlinks st)) ?ts"
    by (intro filter_cong) auto
  have inv': "session_inv st'" using sess.cancel_list_keeps [OF assms(1) c] by simp
  have vals: "vals (unlinks st') = keys (submits st)"
    using sess.cancel_list_marks [OF assms(2) c] assms(1) by (auto simp: session_inv_def)
  have "length (unlinks st') = pending st"
    using length_unlinks [OF inv'] length_submits [OF assms(1)] vals by simp
  then have len: "length us = pending st - length (unlinks st)" using us(1) by simp
  have again: "Session_unlink_all st' = Some st'"
    using sess.cancel_list_again [of ?ts st'] vals us(2) by (simp add: Session_unlink_all_def unlink_seqs_cancel)
  have "set (map fst us) \<inter> keys (submits st) = {}" using us(5) by auto
  from serve_all_unlinks [OF this, of eps "s_devid st" "[]" e] show ?thesis using st' us vals len again
    by (intro exI [of _ st'] exI [of _ us] exI [of _ "map (unlink_frame (s_devid st)) us"]) (simp add: Session_unlink_all_def ts)
qed

theorem unlink_all_once_witness:
  "\<exists>st' q fs. Session_unlink_all sample_session = Some st' \<and> frames st' = frames sample_session @ fs \<and> length fs = 1 \<and>
     fst (serve_all [] (s_devid sample_session) {1} (length fs) \<lparr>avail = concat fs, ending = UnexpectedEof\<rparr>) =
       Some ([UnlinkCmd q 1], \<lparr>avail = [], ending = UnexpectedEof\<rparr>)"
proof -
  have inv: "session_inv sample_session" using session_inv_submit [OF session_inv_start] sample_session_eq(1) .
  have w: "writer_open sample_session" using closing_fields [OF sample_session_eq(1)] by (simp add: Session_start_def)
  have few: "card (seqs_used sample_session) + pending sample_session < 2 ^ 32 - 1"
    by (simp add: sample_session_eq pending_def)
  obtain st' us fs where *: "Session_unlink_all sample_session = Some st'"
    "map snd us = filter (\<lambda>t. t \<notin> vals (unlinks sample_session)) (map fst (submits sample_session))"
    "frames st' = frames sample_session @ fs" "length fs = pending sample_session - length (unlinks sample_session)"
    "serve_all [] (s_devid sample_session) (keys (submits sample_session)) (length fs) \<lparr>avail = concat fs, ending = UnexpectedEof\<rparr> =
      (Some (map (\<lambda>(s, t). UnlinkCmd s t) us, \<lparr>avail = [], ending = UnexpectedEof\<rparr>), [])"
    using unlink_all_once [OF inv sample_session_eq(2) w few, of "[]" UnexpectedEof]
    by (elim exE conjE) (rule that; assumption)
  have "map snd us = [1]" using *(2) by (simp add: sample_session_eq)
  then obtain q where us: "us = [(q, 1)]" by (auto simp: map_eq_Cons_conv)
  have l: "length fs = 1" using *(4) by (simp add: sample_session_eq pending_def)
  have k: "keys (submits sample_session) = {1}" by (simp add: sample_session_eq)
  show ?thesis
  proof (intro exI conjI)
    show "fst (serve_all [] (s_devid sample_session) {1} (length fs) \<lparr>avail = concat fs, ending = UnexpectedEof\<rparr>) =
        Some ([UnlinkCmd q 1], \<lparr>avail = [], ending = UnexpectedEof\<rparr>)"
      using arg_cong [OF *(5), of fst] unfolding us k by simp
  qed (use * l in simp_all)
qed

text \<open>The reply to a pending transfer: what the server sends for the URB resolves exactly that
  transfer, with the status, lengths, data and packets the server put in, leaves the stream at
  the next reply, and removes the transfer and its unlinks and nothing else.\<close>

theorem reply_resolves_transfer:
  assumes "session_inv st" "map_of (submits st) (u_seqnum u) = Some p"
    and "ps_direction p = (if is_in u then In else Out)" "ps_length p = u_length u"
    and "wf_completion u c"
  shows "\<exists>st'. read_one st \<lparr>avail = ret_submit u c @ rest, ending = e\<rparr> =
      Inr (st', \<lparr>avail = rest, ending = e\<rparr>) \<and>
    replies st' = replies st @ [(ps_reply p, Inr (ret_of u c))] \<and>
    keys (submits st') = keys (submits st) - {u_seqnum u} \<and>
    vals (unlinks st') = vals (unlinks st) - {u_seqnum u}"
proof -
  have "lookup_request (u_seqnum u) st = Some (if is_in u then In else Out, u_length u)"
    using assms(2-4) by (simp add: lookup_request_def)
  from read_one_ret_submit [OF this assms(5)] show ?thesis
    using assms(2) by (auto simp: resolve_submit_def Let_def send_reply_def keys_delete set_retain)
qed

definition sample_urb :: Urb where
  "sample_urb = requested_urb 1 0 sample_request"

definition sample_completion :: Completion where
  "sample_completion = \<lparr>c_status = 0, c_data = [1, 2, 3], c_actual_length = None, c_iso = [],
     c_start_frame = 0\<rparr>"

lemma sample_urb_simps:
  "u_seqnum sample_urb = 1" "u_length sample_urb = 64" "is_in sample_urb" "u_iso sample_urb = []"
  by (simp_all add: sample_urb_def requested_urb_def sample_request_def SubmitRequest_new_def is_in_def)

lemma sample_completion_wf: "wf_completion sample_urb sample_completion"
  by (simp add: wf_completion_def sample_urb_simps sample_completion_def)

lemma session_inv_sample: "session_inv sample_session"
  using session_inv_submit [OF session_inv_start] sample_session_eq(1) .

theorem reply_resolves_transfer_witness:
  "\<exists>st'. read_one sample_session \<lparr>avail = ret_submit sample_urb sample_completion @ [9], ending = UnexpectedEof\<rparr> =
      Inr (st', \<lparr>avail = [9], ending = UnexpectedEof\<rparr>) \<and>
    replies st' = [(0, Inr (ret_of sample_urb sample_completion))]"
  using reply_resolves_transfer [OF session_inv_sample _ _ _ sample_completion_wf, of _ "[9]" UnexpectedEof]
  by (auto simp: sample_session_eq sample_urb_simps)

text \<open>C14. A server that answers a cancelled transfer twice, with RET_UNLINK and then with a late
  RET_SUBMIT, does not bring the reader out of step: the transfer fails once as unlinked, the
  late reply is read with its payload and dropped, and reading goes on behind it.\<close>

theorem late_reply_dropped:
  assumes "session_inv st" "map_of (unlinks st) s = Some (u_seqnum u)"
    and "map_of (submits st) (u_seqnum u) = Some p"
    and "ps_direction p = (if is_in u then In else Out)" "ps_length p = u_length u"
    and "u_seqnum u \<notin> fst ` set (unlinked st)" "wf_completion u c"
  shows "\<exists>st'. read_rounds 2 st \<lparr>avail = ret_unlink s status @ ret_submit u c @ rest, ending = e\<rparr> =
      (st', Some \<lparr>avail = rest, ending = e\<rparr>) \<and>
    replies st' = replies st @ [(ps_reply p, Inl (Unlinked status))] \<and>
    submits st' = AList.delete (u_seqnum u) (submits st) \<and>
    set (unlinked st') \<subseteq> set (unlinked st) \<and> closed st' = closed st"
proof -
  let ?old = "if length (unlinked st) = 256 then tl (unlinked st) else unlinked st"
  let ?e = "(u_seqnum u, ps_direction p, ps_length p)"
  define st1 where "st1 = resolve_unlink \<lparr>ru_seqnum = s, ru_status = status\<rparr> st"
  have old: "set ?old \<subseteq> set (unlinked st)" by (auto dest: list.set_sel(2) [rotated])
  have 1: "read_one st \<lparr>avail = ret_unlink s status @ ret_submit u c @ rest, ending = e\<rparr> =
      Inr (st1, \<lparr>avail = ret_submit u c @ rest, ending = e\<rparr>)"
    by (simp add: read_one_def read_reply_header_ret_unlink st1_def)
  have st1: "replies st1 = replies st @ [(ps_reply p, Inl (Unlinked status))]"
    "submits st1 = AList.delete (u_seqnum u) (submits st)" "unlinked st1 = ?old @ [?e]"
    "closed st1 = closed st"
    using assms(2,3) by (simp_all add: st1_def resolve_unlink_def Let_def send_reply_def)
  have gone: "map_of (submits st1) (u_seqnum u) = None"
    by (simp add: st1(2) map_of_eq_None_iff keys_delete)
  have "find (\<lambda>x. fst x = u_seqnum u) ?old = None"
    using old assms(6) by (auto simp: find_None_iff)
  then have "find (\<lambda>x. fst x = u_seqnum u) (unlinked st1) = Some ?e"
    by (simp only: st1(3) find_append) simp
  then have "lookup_request (u_seqnum u) st1 = Some (if is_in u then In else Out, u_length u)"
    using gone assms(4,5) by (simp add: lookup_request_def)
  note 2 = read_one_ret_submit [OF this assms(7), of rest e]
  have "set (filter (\<lambda>x. fst x \<noteq> u_seqnum u) (unlinked st1)) \<subseteq> set (unlinked st)"
    using old by (auto simp: st1(3))
  then show ?thesis
    using 1 2 st1 gone delete_absent [OF gone]
    by (simp add: numeral_2_eq_2 resolve_submit_def Let_def)
qed

definition cancelled_session :: Shared where
  "cancelled_session = sample_session\<lparr>unlinks := [(2, 1)]\<rparr>"

theorem late_reply_dropped_witness:
  "\<exists>st'. read_rounds 2 cancelled_session \<lparr>avail = ret_unlink 2 (-104)
       @ ret_submit sample_urb sample_completion, ending = UnexpectedEof\<rparr> =
      (st', Some \<lparr>avail = [], ending = UnexpectedEof\<rparr>) \<and>
    replies st' = [(0, Inl (Unlinked (-104)))]"
proof -
  have "session_inv cancelled_session"
    using session_inv_sample by (simp add: cancelled_session_def session_inv_def sample_session_eq)
  from late_reply_dropped [OF this _ _ _ _ _ sample_completion_wf, of 2 _ "-104" "[]" UnexpectedEof]
  show ?thesis by (auto simp: cancelled_session_def sample_session_eq sample_urb_simps)
qed

text \<open>C15. What a transfer is answered with fits the request: the actual length is at most the requested
  one, the data is present exactly for an IN transfer and has that length, there are at most
  1024 packets, and it goes to the channel of the transfer with that sequence number.\<close>

theorem reply_within_request:
  assumes "read_one st r = Inr (st', r')" "replies st' = replies st @ [(ch, Inr ret)]"
  shows "\<exists>p. map_of (submits st) (rs_seqnum ret) = Some p \<and> ps_reply p = ch \<and>
    rs_actual_length ret \<le> ps_length p \<and>
    length (rs_data ret) = (if ps_direction p = In then unat (rs_actual_length ret) else 0) \<and>
    length (rs_iso_packets ret) \<le> 1024"
  using assms(1)
proof (cases rule: read_one_cases)
  case (submit h r1 q direction len ret')
  from submit(2,4) have q: "rs_seqnum ret' = q"
    by (auto simp: read_submit_payload_def and_then_eq_Inr split: if_splits)
  have "(\<exists>u. h = ReplyUnlink u) \<or> unat (reply_number_of_packets h) \<le> 1024"
    using read_reply_header_packets [OF submit(1)] .
  with submit(2) read_submit_payload_bounds [OF submit(4)] have
    b: "rs_actual_length ret' \<le> len" "length (rs_iso_packets ret') \<le> 1024"
      "length (rs_data ret') = (if direction = In then unat (rs_actual_length ret') else 0)"
    by auto
  obtain p where p: "map_of (submits st) q = Some p" "ps_reply p = ch" "ret' = ret"
    using submit(5) assms(2)
    by (cases "map_of (submits st) q") (auto simp: resolve_submit_def Let_def send_reply_def)
  then have "direction = ps_direction p" "len = ps_length p"
    using submit(3) by (auto simp: lookup_request_def)
  with p q b show ?thesis by auto
next
  case (unlink ru)
  with assms(2) show ?thesis
    by (auto simp: resolve_unlink_def Let_def send_reply_def split: option.splits)
qed

theorem reply_within_request_witness:
  "length (rs_data (ret_of sample_urb sample_completion)) = 3 \<and>
   rs_actual_length (ret_of sample_urb sample_completion) \<le> 64"
proof -
  have "lookup_request (u_seqnum sample_urb) sample_session =
      Some (if is_in sample_urb then In else Out, u_length sample_urb)"
    by (simp add: lookup_request_def sample_session_eq sample_urb_simps)
  note r = read_one_ret_submit [OF this sample_completion_wf, of "[]" UnexpectedEof]
  have "replies (resolve_submit (u_seqnum sample_urb) (ret_of sample_urb sample_completion) sample_session)
      = replies sample_session @ [(0, Inr (ret_of sample_urb sample_completion))]"
    by (simp add: resolve_submit_def sample_session_eq sample_urb_simps send_reply_def)
  from reply_within_request [OF r this] show ?thesis
    by (auto simp: sample_session_eq ret_of_def sample_urb_simps sample_completion_def)
qed

text \<open>C16. Whatever the server sends before the stream ends, the reader terminates: every round consumes
  at least a header, so after finitely many rounds it has closed the session, and then every
  transfer that was ever accepted has its reply.\<close>

theorem reader_terminates:
  assumes "session_inv st"
  shows "\<exists>st'. read_rounds (Suc (length (avail r) div 48)) st r = (st', None) \<and>
    closed st' \<noteq> None \<and> pending st' = 0 \<and> keys (replies st') = {..<next_chan st}"
proof -
  have "length (avail r) < 48 * Suc (length (avail r) div 48)" by simp
  then obtain st' where *: "read_rounds (Suc (length (avail r) div 48)) st r = (st', None)"
      "session_inv st'" "closed st' \<noteq> None" "next_chan st' = next_chan st"
    using read_rounds_end [OF assms] by blast
  then have "submits st' = []" by (simp add: session_inv_def)
  with * session_inv_chans(2) [of st'] show ?thesis by (auto simp: pending_def)
qed

theorem reader_terminates_witness:
  "\<exists>st'. read_rounds 1 sample_session \<lparr>avail = [0, 0, 0, 3], ending = UnexpectedEof\<rparr> = (st', None) \<and>
    keys (replies st') = {..<1}"
  using reader_terminates [OF session_inv_sample, of "\<lparr>avail = [0, 0, 0, 3], ending = UnexpectedEof\<rparr>"]
  by (auto simp: sample_session_eq)

text \<open>Importing an exported device that is not in use, against the reference server: the request is
  understood, and the session that starts carries the server's device record and its device id.\<close>

theorem import_starts_session:
  assumes "find (\<lambda>x. ex_busid x = b) exports = Some ex" "b \<notin> set imported" "wf_export ex"
  shows "\<exists>req. serve_op \<lparr>avail = req, ending = e\<rparr> = (Some (OpImport b, \<lparr>avail = [], ending = e\<rparr>), []) \<and>
    import_device \<lparr>avail = fst (serve_import exports imported b) @ rest, ending = e\<rparr> b =
      (req, Inr ((Session_start (device_of ex), device_of ex), \<lparr>avail = rest, ending = e\<rparr>))"
proof -
  have b: "ex_busid ex = b" using assms(1) by (auto simp: find_Some_iff)
  with assms(3) obtain req where req: "encode_import_request b = Inr req"
    by (auto simp: encode_import_request_def encode_busid_def wf_export_def wire_sizes)
  moreover have "valid_utf8 b" using assms(3) b by (simp add: wf_export_def)
  ultimately show ?thesis
    using serve_import_request [of b req "[]" e] import_reply_ok [OF assms, of rest e] b
    by (intro exI [of _ req]) (simp add: import_device_def device_of_def)
qed

definition sample_export :: Export where
  "sample_export = \<lparr>ex_path = [], ex_busid = [0x31, 0x2d, 0x31], ex_busnum = 1, ex_devnum = 2,
     ex_speed = 3, ex_id_vendor = 0x1d6b, ex_id_product = 2, ex_bcd_device = 0,
     ex_class = [9, 0, 0], ex_configuration_value = 1, ex_num_configurations = 1,
     ex_interfaces = [[8, 6, 80]]\<rparr>"

lemma sample_export_wf: "wf_export sample_export"
  by (simp add: wf_export_def sample_export_def ascii_valid)

theorem import_starts_session_witness:
  "\<exists>req. import_device \<lparr>avail = fst (serve_import [sample_export] [] [0x31, 0x2d, 0x31]), ending = UnexpectedEof\<rparr>
     [0x31, 0x2d, 0x31] = (req, Inr ((Session_start (device_of sample_export), device_of sample_export),
       \<lparr>avail = [], ending = UnexpectedEof\<rparr>))"
  using import_starts_session [OF _ _ sample_export_wf, of "[0x31, 0x2d, 0x31]" "[sample_export]" "[]"
      UnexpectedEof "[]"]
  by (auto simp: sample_export_def)

end
