(* ===== verification/Hci.thy ===== *)
theory Hci
  imports Protocol
begin

text \<open>
  The platform independent view of the host controller messages, \<open>src/src/hci.rs\<close>: message words
  and their fields, transfer ring entries, completion statuses, the pool of device addresses,
  endpoint descriptors, and the filter that hides UAS alternate settings from a configuration
  descriptor. Integers keep their width; where the source indexes a slice the model uses \<open>!\<close>
  behind the same guard.
\<close>

section \<open>Messages\<close>

definition CONTROL_TYPE_MASK :: u32 where "CONTROL_TYPE_MASK = 0x3f"
definition CONTROL_STATUS_SHIFT :: nat where "CONTROL_STATUS_SHIFT = 8"
definition CONTROL_STATUS_MASK :: u32 where "CONTROL_STATUS_MASK = push_bit CONTROL_STATUS_SHIFT 0xf"
definition CONTROL_NO_RESPONSE :: u32 where "CONTROL_NO_RESPONSE = push_bit 14 1"
definition CONTROL_VALID :: u32 where "CONTROL_VALID = push_bit 15 1"
definition ISO_CONTROL_FRAME_SHIFT :: nat where "ISO_CONTROL_FRAME_SHIFT = 16"
definition ISO_CONTROL_FRAME_MASK :: u32 where
  "ISO_CONTROL_FRAME_MASK = push_bit ISO_CONTROL_FRAME_SHIFT 0xff"
definition ISO_CONTROL_ASAP :: u32 where "ISO_CONTROL_ASAP = push_bit 24 1"
definition TRANSFER_LENGTH_MASK :: u32 where "TRANSFER_LENGTH_MASK = 0x0fffffff"

definition MT_CONTROLLER_CAPABILITIES :: u32 where "MT_CONTROLLER_CAPABILITIES = 0x00"
definition MT_PORT_CAPABILITIES :: u32 where "MT_PORT_CAPABILITIES = 0x01"
definition MT_CONTROLLER_POWER_ON :: u32 where "MT_CONTROLLER_POWER_ON = 0x10"
definition MT_CONTROLLER_POWER_OFF :: u32 where "MT_CONTROLLER_POWER_OFF = 0x11"
definition MT_CONTROLLER_START :: u32 where "MT_CONTROLLER_START = 0x12"
definition MT_CONTROLLER_PAUSE :: u32 where "MT_CONTROLLER_PAUSE = 0x13"
definition MT_CONTROLLER_FRAME_NUMBER :: u32 where "MT_CONTROLLER_FRAME_NUMBER = 0x14"
definition MT_PORT_POWER_ON :: u32 where "MT_PORT_POWER_ON = 0x18"
definition MT_PORT_POWER_OFF :: u32 where "MT_PORT_POWER_OFF = 0x19"
definition MT_PORT_RESUME :: u32 where "MT_PORT_RESUME = 0x1a"
definition MT_PORT_SUSPEND :: u32 where "MT_PORT_SUSPEND = 0x1b"
definition MT_PORT_RESET :: u32 where "MT_PORT_RESET = 0x1c"
definition MT_PORT_DISABLE :: u32 where "MT_PORT_DISABLE = 0x1d"
definition MT_PORT_STATUS :: u32 where "MT_PORT_STATUS = 0x1e"
definition MT_DEVICE_CREATE :: u32 where "MT_DEVICE_CREATE = 0x20"
definition MT_DEVICE_DESTROY :: u32 where "MT_DEVICE_DESTROY = 0x21"
definition MT_DEVICE_START :: u32 where "MT_DEVICE_START = 0x22"
definition MT_DEVICE_PAUSE :: u32 where "MT_DEVICE_PAUSE = 0x23"
definition MT_DEVICE_UPDATE :: u32 where "MT_DEVICE_UPDATE = 0x24"
definition MT_ENDPOINT_CREATE :: u32 where "MT_ENDPOINT_CREATE = 0x28"
definition MT_ENDPOINT_DESTROY :: u32 where "MT_ENDPOINT_DESTROY = 0x29"
definition MT_ENDPOINT_PAUSE :: u32 where "MT_ENDPOINT_PAUSE = 0x2b"
definition MT_ENDPOINT_UPDATE :: u32 where "MT_ENDPOINT_UPDATE = 0x2c"
definition MT_ENDPOINT_RESET :: u32 where "MT_ENDPOINT_RESET = 0x2d"
definition MT_ENDPOINT_SET_NEXT_TRANSFER :: u32 where "MT_ENDPOINT_SET_NEXT_TRANSFER = 0x2e"
definition MT_SETUP_TRANSFER :: u32 where "MT_SETUP_TRANSFER = 0x38"
definition MT_NORMAL_TRANSFER :: u32 where "MT_NORMAL_TRANSFER = 0x39"
definition MT_STATUS_TRANSFER :: u32 where "MT_STATUS_TRANSFER = 0x3a"
definition MT_ISOCHRONOUS_TRANSFER :: u32 where "MT_ISOCHRONOUS_TRANSFER = 0x3b"
definition MT_LINK :: u32 where "MT_LINK = 0x3c"

lemmas control_masks = CONTROL_TYPE_MASK_def CONTROL_STATUS_SHIFT_def CONTROL_STATUS_MASK_def CONTROL_NO_RESPONSE_def CONTROL_VALID_def
  ISO_CONTROL_FRAME_SHIFT_def ISO_CONTROL_FRAME_MASK_def ISO_CONTROL_ASAP_def
  TRANSFER_LENGTH_MASK_def
lemmas transfer_types = MT_SETUP_TRANSFER_def MT_NORMAL_TRANSFER_def MT_STATUS_TRANSFER_def
  MT_ISOCHRONOUS_TRANSFER_def MT_LINK_def
lemmas command_types = MT_CONTROLLER_POWER_ON_def MT_CONTROLLER_PAUSE_def
  MT_CONTROLLER_FRAME_NUMBER_def MT_PORT_POWER_ON_def MT_PORT_RESET_def MT_PORT_STATUS_def
  MT_DEVICE_CREATE_def MT_DEVICE_DESTROY_def MT_DEVICE_PAUSE_def MT_DEVICE_UPDATE_def
  MT_ENDPOINT_CREATE_def MT_ENDPOINT_DESTROY_def MT_ENDPOINT_PAUSE_def MT_ENDPOINT_UPDATE_def
  MT_ENDPOINT_RESET_def MT_ENDPOINT_SET_NEXT_TRANSFER_def
lemmas other_types = MT_CONTROLLER_CAPABILITIES_def MT_PORT_CAPABILITIES_def MT_CONTROLLER_POWER_OFF_def
  MT_CONTROLLER_START_def MT_PORT_POWER_OFF_def MT_PORT_RESUME_def MT_PORT_SUSPEND_def MT_PORT_DISABLE_def
  MT_DEVICE_START_def

text \<open>The fields of a control word do not overlap, and a range of types that a handler takes is what its names say.\<close>

lemma control_fields_disjoint:
  "CONTROL_TYPE_MASK AND CONTROL_STATUS_MASK = 0" "CONTROL_TYPE_MASK AND CONTROL_NO_RESPONSE = 0"
  "CONTROL_TYPE_MASK AND CONTROL_VALID = 0" "CONTROL_STATUS_MASK AND CONTROL_NO_RESPONSE = 0"
  "CONTROL_STATUS_MASK AND CONTROL_VALID = 0" "CONTROL_NO_RESPONSE AND CONTROL_VALID = 0"
  by (simp_all add: control_masks)

lemma message_type_ranges:
  "MT_CONTROLLER_POWER_ON \<le> t \<and> t \<le> MT_CONTROLLER_PAUSE \<longleftrightarrow>
     t \<in> {MT_CONTROLLER_POWER_ON, MT_CONTROLLER_POWER_OFF, MT_CONTROLLER_START, MT_CONTROLLER_PAUSE}"
  "MT_PORT_POWER_ON \<le> t \<and> t \<le> MT_PORT_STATUS \<longleftrightarrow>
     t \<in> {MT_PORT_POWER_ON, MT_PORT_POWER_OFF, MT_PORT_RESUME, MT_PORT_SUSPEND, MT_PORT_RESET, MT_PORT_DISABLE, MT_PORT_STATUS}"
  "MT_DEVICE_DESTROY \<le> t \<and> t \<le> MT_DEVICE_UPDATE \<longleftrightarrow>
     t \<in> {MT_DEVICE_DESTROY, MT_DEVICE_START, MT_DEVICE_PAUSE, MT_DEVICE_UPDATE}"
  by (simp_all add: command_types other_types word_le_nat_alt word_unat_eq_iff) presburger+

record RawMessage =
  control :: u32
  data0 :: u32
  data1 :: u64

definition message_type :: "RawMessage \<Rightarrow> u32" where
  "message_type m = control m AND CONTROL_TYPE_MASK"

definition is_valid :: "RawMessage \<Rightarrow> bool" where
  "is_valid m \<longleftrightarrow> control m AND CONTROL_VALID \<noteq> 0"

definition needs_response :: "RawMessage \<Rightarrow> bool" where
  "needs_response m \<longleftrightarrow> control m AND CONTROL_NO_RESPONSE = 0"

definition device_address :: "RawMessage \<Rightarrow> u8" where
  "device_address m = ucast (data0 m)"

definition endpoint_address :: "RawMessage \<Rightarrow> u8" where
  "endpoint_address m = ucast (drop_bit 8 (data0 m))"

definition transfer_length :: "RawMessage \<Rightarrow> u32" where
  "transfer_length m = data0 m AND TRANSFER_LENGTH_MASK"

definition buffer :: "RawMessage \<Rightarrow> u64" where
  "buffer m = data1 m"

datatype Transfer =
    TSetup bytes
  | TNormal u32
  | TStatus
  | TIsochronous u32 "u8 option"
  | TLink bool
  | TOther u32

definition Transfer_decode :: "RawMessage \<Rightarrow> Transfer option" where
  "Transfer_decode m =
     (if \<not> is_valid m then None
      else Some
       (if message_type m = MT_SETUP_TRANSFER then TSetup (u64_le (data1 m))
        else if message_type m = MT_NORMAL_TRANSFER then TNormal (transfer_length m)
        else if message_type m = MT_STATUS_TRANSFER then TStatus
        else if message_type m = MT_ISOCHRONOUS_TRANSFER then
          TIsochronous (transfer_length m)
            (if control m AND ISO_CONTROL_ASAP = 0
             then Some (ucast (drop_bit ISO_CONTROL_FRAME_SHIFT
                                 (control m AND ISO_CONTROL_FRAME_MASK)))
             else None)
        else if message_type m = MT_LINK then TLink (needs_response m)
        else TOther (message_type m)))"

definition decode_doorbell :: "u32 \<Rightarrow> u8 \<times> u8 \<times> u16" where
  "decode_doorbell d = (ucast d, ucast (drop_bit 8 d), ucast (drop_bit 16 d))"

datatype Status = StSuccess | StOffline | StTimeout | StEndpointStopped | StProtocolError
  | StTransactionError | StOverrunError | StStallError | StError

text \<open>The negation is the two's complement one; it overflows at \<open>i32::MIN\<close> only.\<close>

definition from_urb_status :: "i32 \<Rightarrow> Status" where
  "from_urb_status status =
     (let n = - status in
      if n = 0 then StSuccess
      else if n = 121 \<or> n = 18 then StSuccess
      else if n = 32 then StStallError
      else if n = 75 then StOverrunError
      else if n = 71 \<or> n = 84 then StProtocolError
      else if n = 62 \<or> n = 110 then StTimeout
      else if n = 19 \<or> n = 108 then StOffline
      else if n = 2 \<or> n = 104 then StEndpointStopped
      else if n = 70 \<or> n = 63 then StTransactionError
      else StError)"

section \<open>Device addresses\<close>

record AddressPool =
  used :: u128

definition AddressPool_default :: AddressPool where
  "AddressPool_default = \<lparr>used = 0\<rparr>"

definition allocate :: "AddressPool \<Rightarrow> (u8 \<times> AddressPool) option" where
  "allocate p =
     (case find (\<lambda>a. used p AND push_bit (unat a) 1 = 0) (map of_nat [1..<128]) of
        None \<Rightarrow> None
      | Some address \<Rightarrow> Some (address, p\<lparr>used := used p OR push_bit (unat address) 1\<rparr>))"

definition release :: "AddressPool \<Rightarrow> u8 \<Rightarrow> AddressPool" where
  "release p address =
     (if address < 128 then p\<lparr>used := used p AND NOT (push_bit (unat address) 1)\<rparr> else p)"

section \<open>Endpoint descriptors\<close>

datatype EndpointKind = Control | Isochronous | Bulk | Interrupt

record EndpointInfo =
  kind :: EndpointKind
  max_packet_size :: u16
  b_interval :: u8

definition EndpointInfo_CONTROL :: EndpointInfo where
  "EndpointInfo_CONTROL = \<lparr>kind = Control, max_packet_size = 64, b_interval = 0\<rparr>"

text \<open>The scan for the first endpoint descriptor inside a configuration descriptor.\<close>

function find_endpoint :: "bytes \<Rightarrow> nat \<Rightarrow> nat \<Rightarrow> nat option" where
  "find_endpoint desc tot i =
     (if i + 2 \<le> tot \<and> 2 \<le> desc ! i
      then if desc ! (i + 1) = 5 then Some i
           else find_endpoint desc tot (i + unat (desc ! i))
      else None)"
  by pat_completeness auto
termination
proof (relation "measure (\<lambda>(desc, tot, i). tot - i)", goal_cases)
  case (2 desc tot i)
  then have "2 \<le> unat (desc ! i)" by (simp add: word_le_nat_alt)
  with 2 show ?case by auto
qed simp

declare find_endpoint.simps [simp del]

lemma find_endpoint_ge: "find_endpoint desc tot i = Some j \<Longrightarrow> i \<le> j \<and> j + 2 \<le> tot"
proof (induction desc tot i rule: find_endpoint.induct)
  case (1 desc tot i)
  then show ?case
    by (subst (asm) find_endpoint.simps) (auto split: if_splits)
qed

function EndpointInfo_parse :: "bytes \<Rightarrow> EndpointInfo option" where
  "EndpointInfo_parse desc =
     (if 4 \<le> length desc \<and> 2 \<le> desc ! 0 \<and> desc ! 1 = 2 then
        let tot = min (unat (from_le [desc ! 2, desc ! 3] :: u16)) (length desc)
        in case find_endpoint desc tot (unat (desc ! 0)) of
             Some i \<Rightarrow> EndpointInfo_parse (drop i (take tot desc))
           | None \<Rightarrow> None
      else if length desc < 7 \<or> desc ! 1 \<noteq> 5 then None
      else Some \<lparr>kind = (let k = desc ! 3 AND 0x03 in
                         if k = 0 then Control else if k = 1 then Isochronous
                         else if k = 2 then Bulk else Interrupt),
                 max_packet_size = from_le [desc ! 4, desc ! 5],
                 b_interval = desc ! 6\<rparr>)"
  by pat_completeness auto
termination
proof (relation "measure length", goal_cases)
  case (2 desc tot i)
  then have "2 \<le> unat (desc ! 0)" by (simp add: word_le_nat_alt)
  with 2 find_endpoint_ge [of desc tot "unat (desc ! 0)" i] show ?case by auto
qed simp

declare EndpointInfo_parse.simps [simp del]

definition urb_interval :: "EndpointInfo \<Rightarrow> Speed \<Rightarrow> u32" where
  "urb_interval e sp =
     (let b = ucast (max (b_interval e) 1) :: u32;
          exponential = push_bit (unat (min b 16 - 1)) 1
      in case kind e of
           Bulk \<Rightarrow> 0
         | Control \<Rightarrow> 0
         | Isochronous \<Rightarrow> exponential
         | Interrupt \<Rightarrow>
             (if sp \<in> {SpHigh, SpWireless, SpSuper, SpSuperPlus} then exponential else b))"

section \<open>Hiding UAS alternate settings\<close>

text \<open>Byte ranges of each interface descriptor and the descriptors that belong to it.\<close>

definition add_descriptor ::
  "bytes \<Rightarrow> nat \<Rightarrow> nat \<Rightarrow> (nat \<times> nat) list \<Rightarrow> (nat \<times> nat) list" where
  "add_descriptor config i len groups =
     (if config ! (i + 1) = 4 then groups @ [(i, i + len)]
      else if config ! (i + 1) = 0x0b then groups @ [(i, i)]
      else if groups \<noteq> [] \<and> fst (last groups) \<noteq> snd (last groups)
           then butlast groups @ [(fst (last groups), i + len)]
           else groups)"

function scan_groups :: "bytes \<Rightarrow> nat \<Rightarrow> (nat \<times> nat) list \<Rightarrow> (nat \<times> nat) list option" where
  "scan_groups config i groups =
     (if i < length config then
        let len = unat (config ! i)
        in if len < 2 \<or> length config < i + len then None
           else scan_groups config (i + len) (add_descriptor config i len groups)
      else Some groups)"
  by pat_completeness auto
termination
  by (relation "measure (\<lambda>(config, i, groups). length config - i)") auto

declare scan_groups.simps [simp del]

definition is_uas :: "bytes \<Rightarrow> nat \<times> nat \<Rightarrow> bool" where
  "is_uas config g \<longleftrightarrow>
     9 \<le> snd g - fst g \<and> take 3 (drop (fst g + 5) config) = [0x08, 0x06, 0x62]"

definition fallback :: "bytes \<Rightarrow> (nat \<times> nat) list \<Rightarrow> u8 \<Rightarrow> bool" where
  "fallback config groups number \<longleftrightarrow>
     (\<exists>g\<in>set groups. 9 \<le> snd g - fst g \<and> config ! (fst g + 2) = number \<and> \<not> is_uas config g)"

fun cut_ranges :: "bytes \<Rightarrow> nat \<Rightarrow> (nat \<times> nat) list \<Rightarrow> bytes" where
  "cut_ranges config at [] = drop at config"
| "cut_ranges config at (g # gs) =
     take (fst g - at) (drop at config) @ cut_ranges config (snd g) gs"

definition hide_uas :: "bytes \<Rightarrow> bytes \<times> (u16 \<times> u16) option" where
  "hide_uas config =
     (if length config < 9 \<or> config ! 0 < 9 \<or> config ! 1 \<noteq> 2 then (config, None)
      else case scan_groups config (unat (config ! 0)) [] of
        None \<Rightarrow> (config, None)
      | Some groups \<Rightarrow>
          let hidden = filter (\<lambda>g. is_uas config g \<and> fallback config groups (config ! (fst g + 2)))
                         groups
          in if hidden = [] then (config, None)
             else let out = cut_ranges config 0 hidden;
                      tot = of_nat (length out) :: u16;
                      out = take 2 out @ u16_le tot @ drop 4 out;
                      original = from_le [config ! 2, config ! 3]
                  in (out, Some (original, tot)))"

section \<open>Address pool: a lowest-free allocator\<close>

definition in_use :: "AddressPool \<Rightarrow> u8 set" where
  "in_use p = {a. a < 128 \<and> bit (used p) (unat a)}"

definition usable :: "u8 set" where
  "usable = {1..<128}"

locale address_allocator =
  fixes empty :: 'p and alloc :: "'p \<Rightarrow> ('a::linorder \<times> 'p) option" and free :: "'p \<Rightarrow> 'a \<Rightarrow> 'p"
    and taken :: "'p \<Rightarrow> 'a set" and valid :: "'a set"
  assumes taken_empty: "taken empty = {}"
    and alloc_Some: "alloc p = Some (a, p') \<Longrightarrow>
      a \<in> valid \<and> a \<notin> taken p \<and> (\<forall>b\<in>valid. b < a \<longrightarrow> b \<in> taken p) \<and> taken p' = insert a (taken p)"
    and alloc_None: "alloc p = None \<longleftrightarrow> valid \<subseteq> taken p"
    and taken_free: "taken (free p a) = taken p - {a}"
begin

lemma alloc_fresh: "alloc p = Some (a, p') \<Longrightarrow> a \<notin> taken p"
  using alloc_Some by blast

lemma alloc_keeps: "\<lbrakk>alloc p = Some (a, p'); b \<in> taken p\<rbrakk> \<Longrightarrow> b \<in> taken p'"
  using alloc_Some by blast

lemma alloc_after_free:
  assumes "a \<in> valid" "a \<in> taken p"
  shows "\<exists>b p'. alloc (free p a) = Some (b, p') \<and> b \<le> a"
proof -
  have "alloc (free p a) \<noteq> None"
    using assms by (auto simp: alloc_None taken_free)
  then obtain b p' where b: "alloc (free p a) = Some (b, p')" by auto
  have "b \<le> a"
  proof (rule ccontr)
    assume "\<not> b \<le> a"
    with alloc_Some [OF b] assms(1) have "a \<in> taken (free p a)" by (auto simp: not_le)
    then show False by (simp add: taken_free)
  qed
  with b show ?thesis by blast
qed

end

lemma and_exp_eq_0: "x AND 2 ^ n = 0 \<longleftrightarrow> \<not> bit x n" if "n < LENGTH('a)" for x :: "'a::len word"
proof
  assume "x AND 2 ^ n = 0"
  then have "\<not> bit (x AND 2 ^ n) n" by simp
  with that show "\<not> bit x n" by (simp add: bit_simps)
next
  assume "\<not> bit x n"
  then show "x AND 2 ^ n = 0"
    by (intro bit_word_eqI) (auto simp: bit_simps)
qed

lemma unat_addr: "n < 128 \<Longrightarrow> unat (of_nat n :: u8) = n"
  by (simp add: unat_of_nat)

lemma allocate_Some:
  assumes "allocate p = Some (a, p')"
  shows "a \<in> usable \<and> a \<notin> in_use p \<and> (\<forall>b\<in>usable. b < a \<longrightarrow> b \<in> in_use p) \<and>
    in_use p' = insert a (in_use p)"
proof -
  obtain i where i: "i < length (map of_nat [1..<128] :: u8 list)"
    "used p AND push_bit (unat (map of_nat [1..<128] ! i :: u8)) 1 = 0"
    "a = map of_nat [1..<128] ! i"
    "\<forall>j<i. \<not> (used p AND push_bit (unat (map of_nat [1..<128] ! j :: u8)) 1 = 0)"
    and p': "p' = p\<lparr>used := used p OR push_bit (unat a) 1\<rparr>"
    using assms by (auto simp: allocate_def find_Some_iff split: option.splits)
  have a: "unat a = i + 1" "i + 1 < 128"
    using i(1,3) unat_addr [of "Suc i"] by simp_all
  have before: "bit (used p) (j + 1)" if "j < i" for j
  proof -
    have n: "unat (map of_nat [1..<128] ! j :: u8) = j + 1"
      using that a(2) unat_addr [of "Suc j"] by simp
    have "used p AND 2 ^ (j + 1) \<noteq> 0"
      using i(4) that n by (metis push_bit_of_1)
    then show ?thesis using that a(2) and_exp_eq_0 [of "j + 1" "used p"] by simp
  qed
  have "a \<in> usable" using a by (simp add: usable_def word_le_nat_alt word_less_nat_alt)
  moreover have "used p AND 2 ^ unat a = 0" using i(2) unfolding i(3) [symmetric] push_bit_of_1 .
  then have "a \<notin> in_use p" using a by (simp add: and_exp_eq_0 in_use_def del: power_Suc)
  moreover have "b \<in> in_use p" if "b \<in> usable" "b < a" for b
    using before [of "unat b - 1"] that a
    by (simp add: in_use_def usable_def word_le_nat_alt word_less_nat_alt)
  moreover have "in_use p' = insert a (in_use p)"
    using a by (auto simp: in_use_def p' bit_simps word_less_nat_alt word_unat_eq_iff)
  ultimately show ?thesis by blast
qed

lemma allocate_None: "allocate p = None \<longleftrightarrow> usable \<subseteq> in_use p"
proof -
  have "allocate p = None \<longleftrightarrow>
      find (\<lambda>a :: u8. used p AND push_bit (unat a) 1 = 0) (map of_nat [1..<128]) = None"
    by (auto simp: allocate_def split: option.splits)
  also have "\<dots> \<longleftrightarrow> (\<forall>n\<in>{1..<128}. bit (used p) n)"
    by (simp add: find_None_iff and_exp_eq_0 unat_addr)
  also have "\<dots> \<longleftrightarrow> usable \<subseteq> in_use p"
  proof safe
    fix a assume "\<forall>n\<in>{1..<128}. bit (used p) n" "a \<in> usable"
    then show "a \<in> in_use p"
      by (auto simp: in_use_def usable_def word_less_nat_alt word_le_nat_alt)
  next
    fix n :: nat assume "usable \<subseteq> in_use p" "n \<in> {1..<128}"
    then have "(of_nat n :: u8) \<in> in_use p"
      by (auto simp: usable_def word_less_nat_alt word_le_nat_alt unat_of_nat)
    with \<open>n \<in> _\<close> show "bit (used p) n" by (simp add: in_use_def unat_of_nat)
  qed
  finally show ?thesis .
qed

lemma in_use_release: "in_use (release p a) = in_use p - {a}"
  by (auto simp: in_use_def release_def bit_simps word_less_nat_alt word_unat_eq_iff)

interpretation pool: address_allocator AddressPool_default allocate release in_use usable
proof (unfold_locales, goal_cases)
  case 1
  show ?case by (simp add: in_use_def AddressPool_default_def)
next
  case (2 p a p')
  then show ?case by (rule allocate_Some)
next
  case (3 p)
  show ?case by (rule allocate_None)
next
  case (4 p a)
  show ?case by (rule in_use_release)
qed

section \<open>UAS hiding on descriptor lists\<close>

definition wf_desc :: "bytes \<Rightarrow> bool" where
  "wf_desc d \<longleftrightarrow> 2 \<le> length d \<and> unat (d ! 0) = length d"

definition wf_config_header :: "bytes \<Rightarrow> bool" where
  "wf_config_header h \<longleftrightarrow> 9 \<le> length h \<and> unat (h ! 0) = length h \<and> h ! 1 = 2"

text \<open>A segment: an interface descriptor with what belongs to it, or descriptors outside one.\<close>

type_synonym segment = "bool \<times> bytes list"

abbreviation seg_bytes :: "segment \<Rightarrow> bytes" where
  "seg_bytes s \<equiv> concat (snd s)"

abbreviation segs_bytes :: "segment list \<Rightarrow> bytes" where
  "segs_bytes ss \<equiv> concat (map seg_bytes ss)"

definition add_seg :: "segment list \<Rightarrow> bytes \<Rightarrow> segment list" where
  "add_seg acc d =
     (if d ! 1 = 4 then acc @ [(True, [d])]
      else if d ! 1 = 0x0b then acc @ [(False, [d])]
      else butlast acc @ [(fst (last acc), snd (last acc) @ [d])])"

definition segments :: "bytes \<Rightarrow> bytes list \<Rightarrow> segment list" where
  "segments h ds = foldl add_seg [(False, [h])] ds"

definition seg_uas :: "segment \<Rightarrow> bool" where
  "seg_uas s \<longleftrightarrow> fst s \<and> 9 \<le> length (seg_bytes s) \<and>
     take 3 (drop 5 (seg_bytes s)) = [0x08, 0x06, 0x62]"

definition seg_fallback :: "segment list \<Rightarrow> u8 \<Rightarrow> bool" where
  "seg_fallback ss number \<longleftrightarrow>
     (\<exists>s\<in>set ss. fst s \<and> 9 \<le> length (seg_bytes s) \<and> seg_bytes s ! 2 = number \<and> \<not> seg_uas s)"

definition hidden_seg :: "segment list \<Rightarrow> segment \<Rightarrow> bool" where
  "hidden_seg ss s \<longleftrightarrow> seg_uas s \<and> seg_fallback ss (seg_bytes s ! 2)"

definition kept_segs :: "segment list \<Rightarrow> segment list" where
  "kept_segs ss = filter (\<lambda>s. \<not> hidden_seg ss s) ss"

definition set_total :: "bytes \<Rightarrow> bytes" where
  "set_total out = take 2 out @ u16_le (of_nat (length out)) @ drop 4 out"

text \<open>The byte ranges of the segments that satisfy a predicate, from a start offset on.\<close>

fun seg_ranges :: "(segment \<Rightarrow> bool) \<Rightarrow> nat \<Rightarrow> segment list \<Rightarrow> (nat \<times> nat) list" where
  "seg_ranges P at [] = []"
| "seg_ranges P at (s # ss) =
     (if P s then [(at, at + length (seg_bytes s))] else [])
       @ seg_ranges P (at + length (seg_bytes s)) ss"

lemma seg_ranges_append:
  "seg_ranges P at (xs @ ys) = seg_ranges P at xs @ seg_ranges P (at + length (segs_bytes xs)) ys"
  by (induction xs arbitrary: at) (auto simp: ac_simps)

abbreviation nonempty_range :: "nat \<times> nat \<Rightarrow> bool" where
  "nonempty_range g \<equiv> fst g \<noteq> snd g"

text \<open>What the scan's groups say about the segments read so far.\<close>

definition scan_rel :: "(nat \<times> nat) list \<Rightarrow> segment list \<Rightarrow> nat \<Rightarrow> bool" where
  "scan_rel groups acc i \<longleftrightarrow>
     acc \<noteq> [] \<and> i = length (segs_bytes acc) \<and> (\<forall>s\<in>set acc. 0 < length (seg_bytes s)) \<and>
     filter nonempty_range groups = seg_ranges fst 0 acc \<and>
     (groups \<noteq> [] \<and> nonempty_range (last groups) \<longleftrightarrow> fst (last acc))"

lemma scan_rel_step:
  assumes R: "scan_rel groups acc i" and d: "wf_desc d"
    and at: "config ! (i + 1) = d ! 1"
  shows "scan_rel (add_descriptor config i (length d) groups) (add_seg acc d) (i + length d)"
proof -
  from R obtain init s where acc: "acc = init @ [s]"
    by (cases acc rule: rev_cases) (auto simp: scan_rel_def)
  have len: "0 < length d" using d by (auto simp: wf_desc_def)
  consider (iface) "d ! 1 = 4" | (iad) "d ! 1 = 0x0b" | (ext) "d ! 1 \<noteq> 4" "d ! 1 \<noteq> 0x0b" "fst s"
    | (skip) "d ! 1 \<noteq> 4" "d ! 1 \<noteq> 0x0b" "\<not> fst s"
    by blast
  then show ?thesis
  proof cases
    case iface
    with R at len show ?thesis
      by (auto simp: scan_rel_def add_descriptor_def add_seg_def seg_ranges_append)
  next
    case iad
    with R at len show ?thesis
      by (auto simp: scan_rel_def add_descriptor_def add_seg_def seg_ranges_append)
  next
    case ext
    with R acc obtain gs g where gs: "groups = gs @ [g]" "nonempty_range g"
      by (cases groups rule: rev_cases) (auto simp: scan_rel_def)
    have "filter nonempty_range gs @ [g] = seg_ranges fst 0 init
        @ [(length (segs_bytes init), length (segs_bytes init) + length (seg_bytes s))]"
      using R ext acc gs by (simp add: scan_rel_def seg_ranges_append)
    then have g: "g = (length (segs_bytes init), length (segs_bytes init) + length (seg_bytes s))"
      and "filter nonempty_range gs = seg_ranges fst 0 init"
      by simp_all
    with R ext acc gs at len show ?thesis
      by (auto simp: scan_rel_def add_descriptor_def add_seg_def seg_ranges_append)
  next
    case skip
    with R acc at len show ?thesis
      by (auto simp: scan_rel_def add_descriptor_def add_seg_def seg_ranges_append)
  qed
qed

lemma scan_groups_wf:
  assumes "scan_rel groups acc i" "length pre = i" "\<forall>d\<in>set ds. wf_desc d"
  shows "\<exists>groups'. scan_groups (pre @ concat ds) i groups = Some groups' \<and>
     scan_rel groups' (foldl add_seg acc ds) (i + length (concat ds))"
  using assms
proof (induction ds arbitrary: groups acc i pre)
  case Nil
  then show ?case by (simp add: scan_groups.simps)
next
  case (Cons d ds)
  let ?c = "pre @ concat (d # ds)"
  have d: "wf_desc d" "2 \<le> length d" "unat (d ! 0) = length d" using Cons.prems by (auto simp: wf_desc_def)
  have at: "?c ! i = d ! 0" "?c ! (i + 1) = d ! 1"
    using d Cons.prems(2) by (auto simp: nth_append)
  have R: "scan_rel (add_descriptor ?c i (length d) groups) (add_seg acc d) (i + length d)"
    by (rule scan_rel_step [OF Cons.prems(1) d(1) at(2)])
  have "scan_groups ?c i groups = scan_groups ?c (i + length d) (add_descriptor ?c i (length d) groups)"
    using d at Cons.prems(2) by (subst scan_groups.simps) (auto simp: Let_def)
  with Cons.IH [OF R, of "pre @ d"] Cons.prems show ?case by (simp add: ac_simps)
qed

lemma scan_groups_Some:
  "\<lbrakk>scan_groups config i groups = Some g; i \<le> length config\<rbrakk> \<Longrightarrow>
     \<exists>ds. drop i config = concat ds \<and> (\<forall>d\<in>set ds. wf_desc d)"
proof (induction config i groups rule: scan_groups.induct)
  case (1 config i groups)
  show ?case
  proof (cases "i < length config")
    case True
    let ?len = "unat (config ! i)"
    from 1 True have len: "2 \<le> ?len" "i + ?len \<le> length config"
      and rec: "scan_groups config (i + ?len) (add_descriptor config i ?len groups) = Some g"
      by (subst (asm) scan_groups.simps, simp add: Let_def split: if_splits)+
    from "1.IH" [OF True refl] len rec obtain ds where ds: "drop (i + ?len) config = concat ds"
      "\<forall>d\<in>set ds. wf_desc d"
      by auto
    have "drop i config = take ?len (drop i config) @ drop (i + ?len) config"
      by (metis append_take_drop_id drop_drop add.commute)
    moreover have "wf_desc (take ?len (drop i config))"
      using len True by (auto simp: wf_desc_def)
    ultimately show ?thesis
      using ds by (intro exI [of _ "take ?len (drop i config) # ds"]) auto
  next
    case False
    with 1 have "drop i config = concat []" by simp
    then show ?thesis by (metis empty_iff empty_set)
  qed
qed

lemma cut_ranges_segs:
  "\<lbrakk>config = pre @ segs_bytes ss; at \<le> length pre\<rbrakk> \<Longrightarrow>
     cut_ranges config at (seg_ranges H (length pre) ss) =
       drop at pre @ segs_bytes (filter (\<lambda>s. \<not> H s) ss)"
proof (induction ss arbitrary: pre at)
  case (Cons s ss)
  have c: "config = (pre @ seg_bytes s) @ segs_bytes ss" using Cons.prems by simp
  show ?case
  proof (cases "H s")
    case True
    have "cut_ranges config (length pre + length (seg_bytes s))
        (seg_ranges H (length (pre @ seg_bytes s)) ss) = segs_bytes (filter (\<lambda>s. \<not> H s) ss)"
      using Cons.IH [OF c, of "length (pre @ seg_bytes s)"] by simp
    with True Cons.prems show ?thesis by simp
  next
    case False
    with Cons.IH [OF c, of at] Cons.prems show ?thesis by simp
  qed
qed simp

lemma is_uas_range:
  assumes "config = pre @ seg_bytes s @ post" "fst s"
  shows "is_uas config (length pre, length pre + length (seg_bytes s)) \<longleftrightarrow> seg_uas s"
  using assms by (auto simp: is_uas_def seg_uas_def)

lemma seg_ranges_filter:
  "\<lbrakk>config = pre @ segs_bytes ss;
    \<And>p s q. \<lbrakk>config = p @ seg_bytes s @ q; fst s\<rbrakk> \<Longrightarrow>
       Q (length p, length p + length (seg_bytes s)) = H s; \<And>s. H s \<Longrightarrow> fst s\<rbrakk> \<Longrightarrow>
     filter Q (seg_ranges fst (length pre) ss) = seg_ranges H (length pre) ss"
proof (induction ss arbitrary: pre)
  case (Cons s ss)
  have c: "config = (pre @ seg_bytes s) @ segs_bytes ss" using Cons.prems by simp
  have "Q (length pre, length pre + length (seg_bytes s)) = H s" if "fst s"
    using Cons.prems(2) [OF _ that] c by simp
  with Cons.IH [OF c Cons.prems(2,3)] Cons.prems(3) [of s] show ?case by auto
qed simp

lemma seg_ranges_fallback:
  assumes "config = pre @ segs_bytes ss"
  shows "(\<exists>g\<in>set (seg_ranges fst (length pre) ss). 9 \<le> snd g - fst g \<and>
     config ! (fst g + 2) = number \<and> \<not> is_uas config g) \<longleftrightarrow> seg_fallback ss number"
  using assms
proof (induction ss arbitrary: pre)
  case (Cons s ss)
  have c: "config = (pre @ seg_bytes s) @ segs_bytes ss" using Cons.prems by simp
  have "is_uas config (length pre, length pre + length (seg_bytes s)) \<longleftrightarrow> seg_uas s"
    "9 \<le> length (seg_bytes s) \<Longrightarrow> config ! (length pre + 2) = seg_bytes s ! 2" if "fst s"
    using c that is_uas_range [of config pre s] by (auto simp: nth_append)
  with Cons.IH [OF c] show ?case by (auto simp: seg_fallback_def)
qed (simp add: seg_fallback_def)

lemma bex_filter: "(\<And>x. A x \<Longrightarrow> N x) \<Longrightarrow> (\<exists>x\<in>set (filter N xs). A x) \<longleftrightarrow> (\<exists>x\<in>set xs. A x)"
  by auto

lemma hidden_ranges:
  assumes R: "scan_rel groups ss (length config)" and c: "config = segs_bytes ss"
  shows "filter (\<lambda>g. is_uas config g \<and> fallback config groups (config ! (fst g + 2))) groups =
     seg_ranges (hidden_seg ss) 0 ss"
proof -
  let ?Q = "\<lambda>g. is_uas config g \<and> fallback config groups (config ! (fst g + 2))"
  have ne: "filter nonempty_range groups = seg_ranges fst 0 ss" using R by (simp add: scan_rel_def)
  have fb: "fallback config groups n \<longleftrightarrow> seg_fallback ss n" for n
  proof -
    let ?A = "\<lambda>g. 9 \<le> snd g - fst g \<and> config ! (fst g + 2) = n \<and> \<not> is_uas config g"
    have "(\<exists>g\<in>set (filter nonempty_range groups). ?A g) \<longleftrightarrow> (\<exists>g\<in>set groups. ?A g)"
      by (rule bex_filter) auto
    then show ?thesis using seg_ranges_fallback [of config "[]" ss n] c by (simp add: fallback_def ne)
  qed
  have "filter ?Q groups = filter ?Q (filter nonempty_range groups)"
    by (auto simp: is_uas_def intro!: filter_cong)
  also have "\<dots> = filter ?Q (seg_ranges fst (length ([] :: bytes)) ss)" by (simp add: ne)
  also have "\<dots> = seg_ranges (hidden_seg ss) (length ([] :: bytes)) ss"
  proof (rule seg_ranges_filter)
    fix p s q assume pq: "config = p @ seg_bytes s @ q" "fst s"
    then have "is_uas config (length p, length p + length (seg_bytes s)) \<longleftrightarrow> seg_uas s"
      by (rule is_uas_range)
    moreover have "seg_uas s \<Longrightarrow> config ! (length p + 2) = seg_bytes s ! 2"
      using pq by (auto simp: seg_uas_def nth_append)
    ultimately show "?Q (length p, length p + length (seg_bytes s)) = hidden_seg ss s"
      by (auto simp: hidden_seg_def fb)
  qed (use c in \<open>auto simp: hidden_seg_def seg_uas_def\<close>)
  finally show ?thesis by simp
qed

lemma seg_ranges_empty: "seg_ranges H at ss = [] \<longleftrightarrow> filter (\<lambda>s. \<not> H s) ss = ss"
proof -
  have "seg_ranges H at ss = [] \<longleftrightarrow> (\<forall>s\<in>set ss. \<not> H s)" by (induction ss arbitrary: at) auto
  then show ?thesis by (simp add: filter_id_conv)
qed

lemma segs_bytes_flat: "segs_bytes ss = concat (concat (map snd ss))"
  by (induction ss) auto

lemma flat_foldl:
  "acc \<noteq> [] \<Longrightarrow> concat (map snd (foldl add_seg acc ds)) = concat (map snd acc) @ ds"
proof (induction ds arbitrary: acc)
  case (Cons d ds)
  have "add_seg acc d \<noteq> []" by (simp add: add_seg_def)
  moreover have "concat (map snd (add_seg acc d)) = concat (map snd acc) @ [d]"
    using Cons.prems by (cases acc rule: rev_cases) (auto simp: add_seg_def)
  ultimately show ?case using Cons.IH by simp
qed simp

lemma flat_segments: "concat (map snd (segments h ds)) = h # ds"
  by (simp add: segments_def flat_foldl)

lemma hide_uas_eq:
  assumes h: "wf_config_header h" and ds: "\<forall>d\<in>set ds. wf_desc d"
  shows "hide_uas (h @ concat ds) =
    (let ss = segments h ds; out = segs_bytes (kept_segs ss) in
     if kept_segs ss = ss then (h @ concat ds, None)
     else (set_total out, Some (from_le [h ! 2, h ! 3], of_nat (length out))))"
proof -
  let ?c = "h @ concat ds" and ?ss = "segments h ds"
  have start: "scan_rel [] [(False, [h])] (length h)"
    using h by (auto simp: scan_rel_def wf_config_header_def)
  obtain groups where g: "scan_groups ?c (length h) [] = Some groups"
    and R: "scan_rel groups ?ss (length ?c)"
    using scan_groups_wf [OF start refl ds] by (auto simp: segments_def)
  have c: "?c = segs_bytes ?ss" by (simp add: segs_bytes_flat flat_segments)
  have hid: "filter (\<lambda>g. is_uas ?c g \<and> fallback ?c groups (?c ! (fst g + 2))) groups =
      seg_ranges (hidden_seg ?ss) 0 ?ss"
    by (rule hidden_ranges [OF R c])
  have cut: "cut_ranges ?c 0 (seg_ranges (hidden_seg ?ss) 0 ?ss) = segs_bytes (kept_segs ?ss)"
    using cut_ranges_segs [of ?c "[]" ?ss 0 "hidden_seg ?ss"] c by (simp add: kept_segs_def)
  have hdr: "length ?c \<ge> 9" "\<not> ?c ! 0 < 9" "?c ! 1 = 2" "unat (?c ! 0) = length h"
    "?c ! 2 = h ! 2" "?c ! 3 = h ! 3"
    using h by (auto simp: wf_config_header_def nth_append word_less_nat_alt)
  have key: "seg_ranges (hidden_seg ?ss) 0 ?ss = [] \<longleftrightarrow> kept_segs ?ss = ?ss"
    by (simp add: seg_ranges_empty kept_segs_def)
  show ?thesis
    unfolding hide_uas_def hdr(4) g option.case hid cut key Let_def set_total_def hdr(5,6)
    using hdr(1-3) by simp
qed

section \<open>What hiding leaves\<close>

text \<open>A segment list as the scan builds it: the header's segment, then segments that each start
  with an interface or an interface association and hold neither after that.\<close>

definition plain_desc :: "bytes \<Rightarrow> bool" where
  "plain_desc d \<longleftrightarrow> d ! 1 \<noteq> 4 \<and> d ! 1 \<noteq> 0x0b"

fun canonical_seg :: "segment \<Rightarrow> bool" where
  "canonical_seg (b, []) = False"
| "canonical_seg (b, d # ds) =
     ((if b then d ! 1 = 4 else d ! 1 = 0x0b) \<and> (\<forall>x\<in>set ds. plain_desc x))"

lemma canonical_snoc: "\<lbrakk>canonical_seg (b, ds); plain_desc d\<rbrakk> \<Longrightarrow> canonical_seg (b, ds @ [d])"
  by (cases ds) auto

lemma segments_canonical:
  assumes "\<forall>x\<in>set hs. plain_desc x" "\<forall>s\<in>set ss. canonical_seg s"
  shows "\<exists>hs' ss'. foldl add_seg ((False, h # hs) # ss) ds = (False, h # hs') # ss' \<and>
     (\<forall>x\<in>set hs'. plain_desc x) \<and> (\<forall>s\<in>set ss'. canonical_seg s)"
  using assms
proof (induction ds arbitrary: hs ss)
  case Nil
  then show ?case by auto
next
  case (Cons d ds)
  have "\<exists>hs' ss'. add_seg ((False, h # hs) # ss) d = (False, h # hs') # ss' \<and>
     (\<forall>x\<in>set hs'. plain_desc x) \<and> (\<forall>s\<in>set ss'. canonical_seg s)"
    using Cons.prems by (cases ss rule: rev_cases)
      (auto simp: add_seg_def plain_desc_def canonical_snoc)
  then show ?case using Cons.IH by auto
qed

lemma foldl_plain:
  "\<lbrakk>acc \<noteq> []; \<forall>x\<in>set ds. plain_desc x\<rbrakk> \<Longrightarrow>
     foldl add_seg acc ds = butlast acc @ [(fst (last acc), snd (last acc) @ ds)]"
proof (induction ds arbitrary: acc)
  case Nil
  then show ?case by (cases acc rule: rev_cases) auto
next
  case (Cons d ds)
  then show ?case by (simp add: add_seg_def plain_desc_def)
qed

lemma foldl_canonical_seg:
  "\<lbrakk>acc \<noteq> []; canonical_seg s\<rbrakk> \<Longrightarrow> foldl add_seg acc (snd s) = acc @ [s]"
  by (cases s rule: canonical_seg.cases)
    (auto simp: foldl_plain add_seg_def split: if_splits)

lemma foldl_canonical:
  "\<lbrakk>acc \<noteq> []; \<forall>s\<in>set ss. canonical_seg s\<rbrakk> \<Longrightarrow>
     foldl add_seg acc (concat (map snd ss)) = acc @ ss"
  by (induction ss arbitrary: acc) (auto simp: foldl_canonical_seg)

lemma resegment:
  "\<lbrakk>\<forall>x\<in>set hs. plain_desc x; \<forall>s\<in>set ss. canonical_seg s\<rbrakk> \<Longrightarrow>
     segments h (hs @ concat (map snd ss)) = (False, h # hs) # ss"
  by (simp add: segments_def foldl_plain foldl_canonical)

lemma kept_segs_idem:
  assumes "kept_segs ss = s0 # ss'" "\<not> fst s0'"
  shows "kept_segs (s0' # ss') = s0' # ss'"
proof -
  have "set (s0 # ss') = {s \<in> set ss. \<not> hidden_seg ss s}"
    unfolding assms(1) [symmetric] by (auto simp: kept_segs_def)
  then have sub: "s \<in> set ss \<and> \<not> hidden_seg ss s" if "s \<in> set ss'" for s
    using that by auto
  have "\<not> hidden_seg (s0' # ss') s" if "s \<in> set (s0' # ss')" for s
  proof
    assume hid: "hidden_seg (s0' # ss') s"
    with assms(2) that have s: "s \<in> set ss'" by (auto simp: hidden_seg_def seg_uas_def)
    from hid assms(2) sub have "seg_fallback ss (seg_bytes s ! 2)"
      by (auto simp: hidden_seg_def seg_fallback_def)
    with hid sub [OF s] show False by (simp add: hidden_seg_def)
  qed
  then show ?thesis by (simp add: kept_segs_def filter_id_conv)
qed

lemma set_total_header:
  assumes "wf_config_header h"
  shows "\<exists>h'. wf_config_header h' \<and> set_total (h @ r) = h' @ r \<and>
     from_le [h' ! 2, h' ! 3] = (of_nat (length (h @ r)) :: u16)"
proof -
  define t where "t = (of_nat (length (h @ r)) :: u16)"
  obtain a b where ab: "u16_le t = [a, b]" by (simp add: u16_le_def)
  let ?h = "take 2 h @ [a, b] @ drop 4 h"
  have len: "9 \<le> length h" using assms by (simp add: wf_config_header_def)
  have "from_le [a, b] = t" unfolding ab [symmetric] by simp
  moreover have "?h ! 2 = a" "?h ! 3 = b" "?h ! 0 = h ! 0" "?h ! 1 = h ! 1" "length ?h = length h"
    using len by (simp_all add: nth_append)
  moreover have "set_total (h @ r) = ?h @ r"
    using len unfolding set_total_def t_def [symmetric] ab by simp
  ultimately show ?thesis
    using assms unfolding t_def by (intro exI [of _ ?h]) (simp add: wf_config_header_def)
qed

lemma hide_uas_Some_form:
  assumes "hide_uas config = (out, Some t)"
  shows "\<exists>h ds. config = h @ concat ds \<and> wf_config_header h \<and> (\<forall>d\<in>set ds. wf_desc d)"
proof -
  let ?i = "unat (config ! 0)"
  from assms have hd: "9 \<le> length config" "\<not> config ! 0 < 9" "config ! 1 = 2"
    by (auto simp: hide_uas_def split: if_splits)
  with assms obtain groups where g: "scan_groups config ?i [] = Some groups"
    by (auto simp: hide_uas_def split: option.splits)
  with assms hd have "groups \<noteq> []" by (auto simp: hide_uas_def)
  have i: "?i \<le> length config" using g \<open>groups \<noteq> []\<close>
    by (subst (asm) scan_groups.simps) (auto split: if_splits)
  obtain ds where ds: "drop ?i config = concat ds" "\<forall>d\<in>set ds. wf_desc d"
    using scan_groups_Some [OF g i] by blast
  have "wf_config_header (take ?i config)"
    using hd i by (auto simp: wf_config_header_def word_less_nat_alt)
  moreover have "config = take ?i config @ concat ds" by (metis append_take_drop_id ds(1))
  ultimately show ?thesis using ds(2) by blast
qed

lemma length_filter_segs:
  "\<lbrakk>s \<in> set ss; \<not> P s\<rbrakk> \<Longrightarrow>
     length (segs_bytes (filter P ss)) + length (seg_bytes s) \<le> length (segs_bytes ss)"
proof (induction ss)
  case (Cons x ss)
  have "length (segs_bytes (filter P ss)) \<le> length (segs_bytes ss)" by (induction ss) auto
  with Cons show ?case by auto
qed simp

text \<open>The kept segments: the header's own, and a part of the others.\<close>

lemma kept_form:
  obtains hs rest where "kept_segs (segments h ds) = (False, h # hs) # rest"
    "\<forall>x\<in>set hs. plain_desc x" "\<forall>s\<in>set rest. canonical_seg s"
    "set (hs @ concat (map snd rest)) \<subseteq> set ds"
proof -
  let ?ss = "segments h ds"
  obtain hs rest where ss: "?ss = (False, h # hs) # rest" and hs: "\<forall>x\<in>set hs. plain_desc x"
    and can: "\<forall>s\<in>set rest. canonical_seg s"
    using segments_canonical [of "[]" "[]" h ds] by (auto simp: segments_def)
  let ?rest = "filter (\<lambda>s. \<not> hidden_seg ?ss s) rest"
  have k: "kept_segs ?ss = (False, h # hs) # ?rest"
    by (simp add: kept_segs_def ss hidden_seg_def [of _ "(False, h # hs)"] seg_uas_def)
  have "hs @ concat (map snd rest) = ds" using flat_segments [of h ds] ss by simp
  then have "set (hs @ concat (map snd ?rest)) \<subseteq> set ds" by force
  with k hs can show thesis by (intro that [of hs ?rest]) auto
qed

lemma hide_uas_result:
  assumes "hide_uas config = (out, Some (original, tot))"
  shows "length out + 9 \<le> length config" "tot = of_nat (length out)"
    "original = from_le [config ! 2, config ! 3]" "from_le [out ! 2, out ! 3] = tot"
    "hide_uas out = (out, None)"
proof -
  obtain h ds where c: "config = h @ concat ds" and h: "wf_config_header h"
    and ds: "\<forall>d\<in>set ds. wf_desc d"
    using hide_uas_Some_form [OF assms] by blast
  define ss where "ss = segments h ds"
  define body where "body = segs_bytes (kept_segs ss)"
  have kept: "kept_segs ss \<noteq> ss" and out: "out = set_total body"
    and tot: "tot = of_nat (length body)" and orig: "original = from_le [h ! 2, h ! 3]"
    using hide_uas_eq [OF h ds] assms unfolding c by (auto simp: Let_def ss_def body_def split: if_splits)
  obtain hs rest where k: "kept_segs ss = (False, h # hs) # rest"
    and hs: "\<forall>x\<in>set hs. plain_desc x" and can: "\<forall>s\<in>set rest. canonical_seg s"
    and sub: "set (hs @ concat (map snd rest)) \<subseteq> set ds"
    unfolding ss_def by (rule kept_form)
  let ?ds' = "hs @ concat (map snd rest)"
  have body: "body = h @ concat ?ds'" by (simp add: body_def k segs_bytes_flat)
  obtain h' where h': "wf_config_header h'" and out': "out = h' @ concat ?ds'"
    and tot': "from_le [h' ! 2, h' ! 3] = (of_nat (length body) :: u16)"
    using set_total_header [OF h] unfolding out body by blast
  have len: "length out = length body"
    using h by (auto simp: out set_total_def body wf_config_header_def)
  have ds': "\<forall>d\<in>set ?ds'. wf_desc d" using ds sub by blast
  have "kept_segs ((False, h' # hs) # rest) = (False, h' # hs) # rest"
    by (rule kept_segs_idem [OF k]) simp
  then show "hide_uas out = (out, None)"
    unfolding out' hide_uas_eq [OF h' ds'] resegment [OF hs can] by (simp add: Let_def)
  obtain s where s: "s \<in> set ss" "hidden_seg ss s"
    using kept by (auto simp: kept_segs_def filter_id_conv)
  have "segs_bytes ss = config" by (simp add: c segs_bytes_flat ss_def flat_segments)
  then show "length out + 9 \<le> length config"
    using length_filter_segs [of s ss "\<lambda>s. \<not> hidden_seg ss s"] s len
    by (simp add: body_def kept_segs_def hidden_seg_def seg_uas_def)
  show "tot = of_nat (length out)" by (simp add: tot len)
  show "original = from_le [config ! 2, config ! 3]"
    using h by (simp add: orig c wf_config_header_def nth_append)
  show "from_le [out ! 2, out ! 3] = tot"
    using h' tot' by (simp add: out' tot wf_config_header_def nth_append)
qed

text \<open>The first nine bytes of the result, and of a configuration too short to have interfaces.\<close>

lemma take_set_total:
  assumes "9 \<le> length h" "4 \<le> n" "n \<le> 9"
  shows "take n (set_total (h @ r)) = take 2 h @ u16_le (of_nat (length (h @ r))) @ take (n - 4) (drop 4 h)"
proof -
  have "set_total (h @ r) = (take 2 h @ u16_le (of_nat (length (h @ r))) @ drop 4 h) @ r"
    using assms(1) by (simp add: set_total_def)
  moreover have "length (take 2 h @ u16_le (of_nat (length (h @ r))) @ drop 4 h) = length h" using assms(1) by simp
  ultimately show ?thesis using assms by (simp add: take_append)
qed

lemma hide_uas_short:
  assumes "length config \<le> 9"
  shows "hide_uas config = (config, None)"
proof (cases "length config < 9 \<or> config ! 0 < 9 \<or> config ! 1 \<noteq> 2")
  case False
  then have "9 \<le> unat (config ! 0)" by (simp add: word_less_nat_alt)
  then have "scan_groups config (unat (config ! 0)) [] = Some []"
    using assms by (subst scan_groups.simps) simp
  then show ?thesis using False by (simp add: hide_uas_def)
qed (simp add: hide_uas_def)

lemma hide_uas_prefix:
  assumes "hide_uas full = (out, Some (original, tot))" "4 \<le> n" "n \<le> 9"
  shows "take n out = take 2 full @ u16_le tot @ take (n - 4) (drop 4 full)"
    "take 2 (drop 2 full) = u16_le original" "9 \<le> length full"
proof -
  obtain h ds where c: "full = h @ concat ds" and h: "wf_config_header h" and ds: "\<forall>d\<in>set ds. wf_desc d"
    using hide_uas_Some_form [OF assms(1)] by blast
  have len: "9 \<le> length h" using h by (simp add: wf_config_header_def)
  define body where "body = segs_bytes (kept_segs (segments h ds))"
  have out: "out = set_total body" and tot: "tot = of_nat (length body)" and orig: "original = from_le [h ! 2, h ! 3]"
    using hide_uas_eq [OF h ds] assms(1) unfolding c by (auto simp: Let_def body_def split: if_splits)
  obtain hs rest where k: "kept_segs (segments h ds) = (False, h # hs) # rest" by (rule kept_form)
  then have body: "body = h @ concat (hs @ concat (map snd rest))" by (simp add: body_def segs_bytes_flat)
  show "take n out = take 2 full @ u16_le tot @ take (n - 4) (drop 4 full)"
    unfolding out tot body take_set_total [OF len assms(2,3)] c using len assms(2,3) by simp
  have "take 2 (drop 2 full) = [h ! 2, h ! 3]"
    using len by (intro nth_equalityI) (auto simp: c nth_append less_Suc_eq numeral_2_eq_2 numeral_3_eq_3)
  then show "take 2 (drop 2 full) = u16_le original" by (simp add: orig u16_le_from_le)
  show "9 \<le> length full" using len by (simp add: c)
qed

section \<open>Endpoint descriptors\<close>

definition endpoint_kind :: "u8 \<Rightarrow> EndpointKind" where
  "endpoint_kind attributes =
     [Control, Isochronous, Bulk, Interrupt] ! unat (attributes AND 3)"

definition endpoint_info :: "bytes \<Rightarrow> EndpointInfo" where
  "endpoint_info ep =
     \<lparr>kind = endpoint_kind (ep ! 3), max_packet_size = from_le [ep ! 4, ep ! 5],
      b_interval = ep ! 6\<rparr>"

lemma and_3_cases: "x AND 3 = 0 \<or> x AND 3 = 1 \<or> x AND 3 = 2 \<or> x AND 3 = 3" for x :: u8
proof -
  have "unat (x AND 3) \<le> unat (3 :: u8)"
    by (rule word_and_le1 [THEN word_le_nat_alt [THEN iffD1]])
  then have "unat (x AND 3) \<in> {0, 1, 2, 3}" by auto
  then show ?thesis by (auto simp: word_unat_eq_iff)
qed

lemma parse_endpoint:
  assumes "7 \<le> length ep" "ep ! 1 = 5"
  shows "EndpointInfo_parse ep = Some (endpoint_info ep)"
  using assms and_3_cases [of "ep ! 3"]
  by (subst EndpointInfo_parse.simps) (auto simp: endpoint_info_def endpoint_kind_def Let_def)

lemma find_endpoint_skip:
  assumes "\<forall>d\<in>set ds. wf_desc d \<and> d ! 1 \<noteq> 5" "2 \<le> length ep" "ep ! 1 = 5" "2 \<le> ep ! 0"
    "length pre + length (concat ds) + 2 \<le> tot"
  shows "find_endpoint (pre @ concat ds @ ep) tot (length pre) = Some (length pre + length (concat ds))"
  using assms
proof (induction ds arbitrary: pre)
  case Nil
  then show ?case by (subst find_endpoint.simps) (simp add: nth_append)
next
  case (Cons d ds)
  let ?c = "pre @ concat (d # ds) @ ep"
  have d: "2 \<le> length d" "unat (d ! 0) = length d" "d ! 1 \<noteq> 5" using Cons.prems(1) by (auto simp: wf_desc_def)
  have at: "?c ! length pre = d ! 0" "?c ! (length pre + 1) = d ! 1"
    using d by (auto simp: nth_append)
  have two: "2 \<le> d ! 0" using d by (simp add: word_le_nat_alt)
  have "find_endpoint ?c tot (length pre) = find_endpoint ?c tot (length pre + length d)"
    using d at two Cons.prems(5) by (subst find_endpoint.simps) simp
  also have "\<dots> = find_endpoint ((pre @ d) @ concat ds @ ep) tot (length (pre @ d))" by simp
  also have "\<dots> = Some (length (pre @ d) + length (concat ds))"
    using Cons.prems by (intro Cons.IH) auto
  finally show ?case by simp
qed

lemma parse_in_config:
  fixes tot :: u16
  assumes h: "4 \<le> length h" "unat (h ! 0) = length h" "h ! 1 = 2"
    and tot: "tot = from_le [h ! 2, h ! 3]" "length h + length (concat ds) + 7 \<le> unat tot"
    and ds: "\<forall>d\<in>set ds. wf_desc d \<and> d ! 1 \<noteq> 5"
    and ep: "7 \<le> length ep" "ep ! 1 = 5" "2 \<le> ep ! 0"
  shows "EndpointInfo_parse (h @ concat ds @ ep) = Some (endpoint_info ep)"
proof -
  let ?c = "h @ concat ds @ ep"
  let ?t = "min (unat tot) (length ?c)"
  let ?i = "length h + length (concat ds)"
  have c: "?c ! 0 = h ! 0" "?c ! 1 = 2" "?c ! 2 = h ! 2" "?c ! 3 = h ! 3" "4 \<le> length ?c"
    using h by (auto simp: nth_append)
  have two: "2 \<le> h ! 0" using h by (simp add: word_le_nat_alt)
  have find: "find_endpoint ?c ?t (length h) = Some ?i"
    using find_endpoint_skip [OF ds, of ep h ?t] ep tot(2) by simp
  have sub: "drop ?i (take ?t ?c) = take (?t - ?i) ep"
    using tot(2) ep(1) by (simp add: take_append)
  have seven: "7 \<le> ?t - ?i" using tot(2) ep(1) by simp
  then have "EndpointInfo_parse (take (?t - ?i) ep) = Some (endpoint_info (take (?t - ?i) ep))"
    using ep by (intro parse_endpoint) auto
  also have "endpoint_info (take (?t - ?i) ep) = endpoint_info ep"
    using seven by (simp add: endpoint_info_def)
  finally show ?thesis
    unfolding EndpointInfo_parse.simps [of ?c]
    using c two find sub by (simp add: Let_def h(2) tot(1) [symmetric])
qed

lemma urb_interval_range:
  assumes "kind e \<in> {Isochronous, Interrupt}"
  shows "urb_interval e sp \<noteq> 0 \<and> urb_interval e sp \<le> 0x8000"
proof -
  define b :: u32 where "b = ucast (max (b_interval e) 1)"
  have lt: "unat (max (b_interval e) 1) < 2 ^ LENGTH(8)" by (rule unsigned_less)
  then have "unat b = unat (max (b_interval e) 1)"
    by (simp add: b_def unsigned_ucast_eq take_bit_nat_eq_self)
  moreover have "unat (max (b_interval e) 1) \<ge> 1"
    by (metis max.cobounded2 unat_1 word_le_nat_alt)
  ultimately have b: "1 \<le> unat b" "unat b < 256" using lt by simp_all
  define k where "k = unat (min b 16 - 1)"
  have k: "k \<le> 15"
  proof -
    have "unat (min b 16) \<le> 16" by (simp add: min_def word_le_nat_alt)
    moreover have "1 \<le> min b 16" using b by (simp add: min_def word_le_nat_alt)
    ultimately show ?thesis by (simp add: k_def unat_sub)
  qed
  have exp: "(push_bit k 1 :: u32) \<noteq> 0 \<and> (push_bit k 1 :: u32) \<le> 0x8000"
  proof -
    have "unat (push_bit k 1 :: u32) = take_bit 32 (push_bit k 1)"
      by (simp only: unsigned_push_bit_eq) simp
    also have "\<dots> = 2 ^ k" using k by (simp add: take_bit_nat_eq_self)
    finally have "unat (push_bit k 1 :: u32) = 2 ^ k" .
    moreover have "(2 :: nat) ^ k \<le> 2 ^ 15" using k by (intro power_increasing) auto
    ultimately show ?thesis by (auto simp: word_le_nat_alt simp flip: unat_eq_0)
  qed
  have "b \<noteq> 0 \<and> b \<le> 0x8000" using b by (auto simp: word_le_nat_alt)
  with exp assms show ?thesis
    by (auto simp: urb_interval_def Let_def b_def [symmetric] k_def [symmetric])
qed

lemma doorbell_fields:
  "decode_doorbell (ucast dev OR push_bit 8 (ucast ep) OR push_bit 16 (ucast stream)) = (dev, ep, stream)"
  by (auto simp: decode_doorbell_def bit_simps intro!: bit_word_eqI dest: bit_imp_le_length)

lemma from_urb_status_success: "from_urb_status st = StSuccess \<longleftrightarrow> sint st \<in> {0, -121, -18}"
proof -
  have "from_urb_status st = StSuccess \<longleftrightarrow> st \<in> {0, -121, -18}"
    by (auto simp: from_urb_status_def Let_def minus_equation_iff [of st])
  also have "\<dots> \<longleftrightarrow> sint st \<in> {sint (0 :: i32), sint (-121 :: i32), sint (-18 :: i32)}"
    by (simp only: insert_iff empty_iff word_eq_iff_signed [where ?'a = int])
  finally show ?thesis by simp
qed

section \<open>Properties\<close>

text \<open>C18. On a well-formed configuration descriptor (a header and a list of descriptors with
  consistent lengths) \<open>hide_uas\<close> computes the reference filter: it drops exactly the interface
  segments that are UAS and whose interface number has another alternate setting, keeps every
  other byte in order, patches \<open>wTotalLength\<close>, and returns the old and the new total length.\<close>

theorem hide_uas_reference:
  assumes "wf_config_header h" "\<forall>d\<in>set ds. wf_desc d"
  shows "hide_uas (h @ concat ds) =
    (let ss = segments h ds; out = segs_bytes (kept_segs ss) in
     if kept_segs ss = ss then (h @ concat ds, None)
     else (set_total out, Some (from_le [h ! 2, h ! 3], of_nat (length out))))"
  using assms by (rule hide_uas_eq)

theorem hide_uas_reference_witness:
  "wf_config_header [9, 2, 27, 0, 1, 1, 0, 0x80, 50] \<and>
   hide_uas ([9, 2, 27, 0, 1, 1, 0, 0x80, 50]
     @ concat [[9, 4, 0, 0, 2, 8, 6, 0x50, 0], [9, 4, 0, 1, 4, 8, 6, 0x62, 0]]) =
     ([9, 2, 18, 0, 1, 1, 0, 0x80, 50, 9, 4, 0, 0, 2, 8, 6, 0x50, 0], Some (27, 18))"
proof -
  have h: "wf_config_header [9, 2, 27, 0, 1, 1, 0, 0x80, 50]"
    by (simp add: wf_config_header_def)
  have ds: "\<forall>d\<in>set [[9, 4, 0, 0, 2, 8, 6, 0x50, 0], [9, 4, 0, 1, 4, 8, 6, 0x62, 0 :: u8]]. wf_desc d"
    by (simp add: wf_desc_def)
  show ?thesis
    using h hide_uas_reference [OF h ds]
    by (simp add: Let_def segments_def add_seg_def kept_segs_def hidden_seg_def seg_uas_def
        seg_fallback_def set_total_def u16_le_def from_le_def from_be_def)
qed

text \<open>Whenever \<open>hide_uas\<close> hides something, the result is shorter, its \<open>wTotalLength\<close> field and
  the returned total are its length, the returned original is the input's field, and hiding
  again changes nothing; whenever it returns nothing it leaves the descriptor alone.\<close>

theorem hide_uas_sound:
  "case hide_uas config of
     (out, None) \<Rightarrow> out = config
   | (out, Some (original, tot)) \<Rightarrow>
       length out + 9 \<le> length config \<and> tot = of_nat (length out) \<and>
       from_le [out ! 2, out ! 3] = tot \<and> original = from_le [config ! 2, config ! 3] \<and>
       hide_uas out = (out, None)"
proof (cases "hide_uas config")
  case (Pair out r)
  show ?thesis
  proof (cases r)
    case None
    with Pair show ?thesis
      by (auto simp: hide_uas_def Let_def split: if_splits option.splits)
  next
    case (Some t)
    with Pair hide_uas_result [of config out "fst t" "snd t"] show ?thesis
      by (auto split: prod.splits)
  qed
qed

text \<open>C19. An endpoint descriptor inside a configuration descriptor, which is how macOS passes
  endpoints other than endpoint 0, gives the kind, packet size and interval of the first
  endpoint descriptor, whatever other well-formed descriptors come before it.\<close>

theorem endpoint_in_configuration:
  assumes "4 \<le> length h" "unat (h ! 0) = length h" "h ! 1 = 2"
    and "length h + length (concat ds) + 7 \<le> unat (from_le [h ! 2, h ! 3] :: u16)"
    and "\<forall>d\<in>set ds. wf_desc d \<and> d ! 1 \<noteq> 5"
    and "7 \<le> length ep" "ep ! 1 = 5" "2 \<le> ep ! 0"
  shows "EndpointInfo_parse (h @ concat ds @ ep) = Some (endpoint_info ep)"
  using assms by (intro parse_in_config [OF _ _ _ refl]) auto

theorem endpoint_in_configuration_witness:
  "EndpointInfo_parse ([9, 2, 25, 0, 1, 1, 0, 0x80, 50] @ concat [[9, 4, 0, 0, 1, 3, 1, 1, 0]]
     @ [7, 5, 0x81, 3, 8, 0, 10]) = Some \<lparr>kind = Interrupt, max_packet_size = 8, b_interval = 10\<rparr>"
  using endpoint_in_configuration [of "[9, 2, 25, 0, 1, 1, 0, 0x80, 50]"
      "[[9, 4, 0, 0, 1, 3, 1, 1, 0]]" "[7, 5, 0x81, 3, 8, 0, 10]"]
  by (simp add: wf_desc_def endpoint_info_def endpoint_kind_def from_le_def from_be_def)

text \<open>Allocation hands out the lowest free address of 1 to 127, marks it and nothing else, fails
  only when all are in use, and releasing the address gives back the set of before.\<close>

theorem allocate_lowest_free:
  "case allocate p of
     None \<Rightarrow> {1..<128} \<subseteq> in_use p
   | Some (a, p') \<Rightarrow> a \<in> {1..<128} - in_use p \<and> {1..<a} \<subseteq> in_use p \<and>
       in_use p' = insert a (in_use p) \<and> in_use (release p' a) = in_use p"
proof (cases "allocate p")
  case None
  then show ?thesis using pool.alloc_None [of p] by (simp add: usable_def)
next
  case (Some ap)
  then obtain a p' where a: "allocate p = Some (a, p')" by (cases ap) auto
  have "a < 128" using pool.alloc_Some [OF a] by (simp add: usable_def)
  with pool.alloc_Some [OF a] a show ?thesis
    by (auto simp: usable_def pool.taken_free)
qed

section \<open>The examples of the code\<close>

text \<open>The unit tests of \<open>hide_uas\<close> in \<open>hci.rs\<close>, on the model.\<close>

definition uas_interface :: "u8 \<Rightarrow> u8 \<Rightarrow> u8 \<Rightarrow> u8 \<Rightarrow> bytes" where
  "uas_interface number alt endpoints protocol = [9, 4, number, alt, endpoints, 0x08, 0x06, protocol, 0]"

definition uas_config :: "bytes \<Rightarrow> bytes" where
  "uas_config body =
     (let total = of_nat (9 + length body) :: u16
      in [9, 2, ucast total, ucast (drop_bit 8 total), 1, 1, 0, 0x80, 50] @ body)"

definition uas_keyboard :: bytes where
  "uas_keyboard = [9, 4, 1, 0, 1, 3, 0, 0, 0, 7, 5, 0x83, 3, 8, 0, 4]"

lemma hides_uas_when_bulk_only_is_there:
  "fst (hide_uas (uas_config (uas_interface 0 0 2 0x50 @ [7, 5, 0x81, 2, 0, 4, 0, 6, 0x30, 15, 0, 0, 0]
       @ uas_interface 0 1 4 0x62 @ [7, 5, 0x81, 2, 0, 4, 0, 6, 0x30, 15, 5, 0, 0, 4, 0x24, 3, 0])))
   = uas_config (uas_interface 0 0 2 0x50 @ [7, 5, 0x81, 2, 0, 4, 0, 6, 0x30, 15, 0, 0, 0])"
  by code_simp

lemma keeps_a_uas_only_interface:
  "let d = uas_config (uas_interface 0 0 4 0x62 @ [7, 5, 0x81, 2, 0, 4, 0]) in fst (hide_uas d) = d"
  by code_simp

lemma leaves_other_interfaces_and_short_reads_alone:
  "fst (hide_uas (uas_config (uas_interface 0 0 2 0x50 @ uas_interface 0 1 4 0x62 @ uas_keyboard)))
   = uas_config (uas_interface 0 0 2 0x50 @ uas_keyboard)"
  "let header = take 9 (uas_config (uas_interface 0 0 2 0x50 @ uas_interface 0 1 4 0x62 @ uas_keyboard))
   in fst (hide_uas header) = header"
  by code_simp+

end
