(* ===== verification/Engine.thy ===== *)
theory Engine
  imports Client Hci
begin

text \<open>
  The transfer engine, \<open>src/src/engine.rs\<close>: it moves transfers between the rings of the host
  controller and the session. Everything except the network wait runs on one serial executor and
  under one lock, so each public function is one atomic step on the engine's state.

  A ring is a parameter: a record of the operations of the trait \<open>Ring\<close> on a state of type \<open>'r\<close>.
  Only \<open>complete\<close> changes the ring; its error text, which is only logged, is dropped. A task that
  waits for a reply is an entry of \<open>en_waiters\<close>: the reply channel, the endpoint and the token.
  Operations that call the session are options, as the session's are.
\<close>

section \<open>Data\<close>

record 'r Ring =
  ring_active :: "'r \<Rightarrow> bool"
  ring_current :: "'r \<Rightarrow> u64 \<times> Transfer option"
  ring_peek :: "'r \<Rightarrow> nat \<Rightarrow> (u64 \<times> Transfer) option"
  ring_read :: "'r \<Rightarrow> nat \<Rightarrow> nat \<Rightarrow> bytes"
  ring_complete :: "'r \<Rightarrow> Status \<Rightarrow> bytes \<Rightarrow> u32 \<Rightarrow> bool \<times> 'r"

type_synonym EndpointKey = "u8 \<times> u8"

definition depth :: "EndpointKind \<Rightarrow> nat" where
  "depth k = (case k of Isochronous \<Rightarrow> 32 | Bulk \<Rightarrow> 8 | Control \<Rightarrow> 1 | Interrupt \<Rightarrow> 1)"

datatype Stage = ControlData | ControlStatus | NormalStage | IsochronousStage

record InFlight =
  fl_token :: u64
  fl_message :: u64
  fl_stage :: Stage
  fl_direction :: Direction
  fl_length :: u32
  fl_seqnum :: u32
  fl_unlinking :: bool
  fl_result :: "TransferResult option"

record Setup =
  su_bytes :: bytes
  su_data_done :: bool

record 'r Endpoint =
  ep_ring :: 'r
  ep_info :: EndpointInfo
  ep_in_flight :: "InFlight list"
  ep_setup :: "Setup option"
  ep_hidden_config :: "(u16 \<times> u16) option"

record 'r Engine =
  en_endpoints :: "(EndpointKey, 'r Endpoint) amap"
  en_next_token :: u64
  en_session :: Shared
  en_device :: ExportedDevice
  en_waiters :: "(chan \<times> EndpointKey \<times> u64) list"
  en_uas_warned :: bool

definition Engine_new :: "Shared \<Rightarrow> ExportedDevice \<Rightarrow> 'r Engine" where
  "Engine_new session device =
     \<lparr>en_endpoints = [], en_next_token = 0, en_session = session, en_device = device,
      en_waiters = [], en_uas_warned = False\<rparr>"

abbreviation get_ep :: "'r Engine \<Rightarrow> EndpointKey \<Rightarrow> 'r Endpoint option" where
  "get_ep en key \<equiv> map_of (en_endpoints en) key"

definition put_ep :: "EndpointKey \<Rightarrow> 'r Endpoint \<Rightarrow> 'r Engine \<Rightarrow> 'r Engine" where
  "put_ep key ep en = en\<lparr>en_endpoints := AList.update key ep (en_endpoints en)\<rparr>"

section \<open>Cancelling\<close>

definition error_status :: "TransferError \<Rightarrow> Status" where
  "error_status e =
     (case e of Disconnected _ \<Rightarrow> StOffline | Unlinked _ \<Rightarrow> StEndpointStopped
      | InvalidRequest _ \<Rightarrow> StError)"

fun unlink_flights :: "InFlight list \<Rightarrow> Shared \<Rightarrow> Shared option" where
  "unlink_flights [] st = Some st"
| "unlink_flights (f # fs) st =
     (if fl_result f = None
      then do { st \<leftarrow> unlink (fl_seqnum f) st; unlink_flights fs st }
      else unlink_flights fs st)"

definition unlink_all :: "InFlight list \<Rightarrow> 'r Engine \<Rightarrow> 'r Engine option" where
  "unlink_all fs en = do {
     st \<leftarrow> unlink_flights fs (en_session en);
     Some (en\<lparr>en_session := st\<rparr>)
   }"

section \<open>Endpoints\<close>

definition add_endpoint :: "EndpointKey \<Rightarrow> EndpointInfo \<Rightarrow> 'r \<Rightarrow> 'r Engine \<Rightarrow> 'r Engine option" where
  "add_endpoint key info ring en =
     (let old = get_ep en key;
          en = put_ep key \<lparr>ep_ring = ring, ep_info = info, ep_in_flight = [], ep_setup = None,
                           ep_hidden_config = None\<rparr> en
      in case old of None \<Rightarrow> Some en | Some old \<Rightarrow> unlink_all (ep_in_flight old) en)"

definition update_endpoint :: "EndpointKey \<Rightarrow> EndpointInfo \<Rightarrow> 'r Engine \<Rightarrow> 'r Engine" where
  "update_endpoint key info en =
     (case get_ep en key of None \<Rightarrow> en | Some ep \<Rightarrow> put_ep key (ep\<lparr>ep_info := info\<rparr>) en)"

definition remove_endpoint :: "EndpointKey \<Rightarrow> 'r Engine \<Rightarrow> 'r Engine option" where
  "remove_endpoint key en =
     (case get_ep en key of
        None \<Rightarrow> Some en
      | Some ep \<Rightarrow>
          unlink_all (ep_in_flight ep)
            (en\<lparr>en_endpoints := AList.delete key (en_endpoints en)\<rparr>))"

fun unlink_each :: "'r Endpoint list \<Rightarrow> 'r Engine \<Rightarrow> 'r Engine option" where
  "unlink_each [] en = Some en"
| "unlink_each (ep # eps) en = do { en \<leftarrow> unlink_all (ep_in_flight ep) en; unlink_each eps en }"

definition remove_device :: "u8 \<Rightarrow> 'r Engine \<Rightarrow> 'r Engine option" where
  "remove_device device en =
     (let removed = map snd (filter (\<lambda>p. fst (fst p) = device) (en_endpoints en))
      in unlink_each removed
           (en\<lparr>en_endpoints := filter (\<lambda>p. fst (fst p) \<noteq> device) (en_endpoints en)\<rparr>))"

definition reset_endpoint :: "EndpointKey \<Rightarrow> 'r Engine \<Rightarrow> 'r Engine option" where
  "reset_endpoint key en =
     (case get_ep en key of
        None \<Rightarrow> Some en
      | Some ep \<Rightarrow>
          unlink_all (ep_in_flight ep) (put_ep key (ep\<lparr>ep_setup := None, ep_in_flight := []\<rparr>) en))"

fun pause_flights :: "InFlight list \<Rightarrow> Shared \<Rightarrow> (InFlight list \<times> Shared) option" where
  "pause_flights [] st = Some ([], st)"
| "pause_flights (f # fs) st =
     (if fl_result f = None \<and> \<not> fl_unlinking f
      then do {
        st \<leftarrow> unlink (fl_seqnum f) st;
        (fs, st) \<leftarrow> pause_flights fs st;
        Some (f\<lparr>fl_unlinking := True\<rparr> # fs, st)
      }
      else do { (fs, st) \<leftarrow> pause_flights fs st; Some (f # fs, st) })"

definition pause_endpoint :: "EndpointKey \<Rightarrow> 'r Engine \<Rightarrow> 'r Engine option" where
  "pause_endpoint key en =
     (if snd key AND 0x80 = 0 \<or> snd key AND 0x7f = 0 then Some en
      else case get_ep en key of
        None \<Rightarrow> Some en
      | Some ep \<Rightarrow> do {
          (fs, st) \<leftarrow> pause_flights (ep_in_flight ep) (en_session en);
          Some ((put_ep key (ep\<lparr>ep_in_flight := fs\<rparr>) en)\<lparr>en_session := st\<rparr>)
        })"

definition sync_endpoint :: "'r Ring \<Rightarrow> EndpointKey \<Rightarrow> 'r Engine \<Rightarrow> 'r Engine option" where
  "sync_endpoint ring key en =
     (case get_ep en key of
        None \<Rightarrow> Some en
      | Some ep \<Rightarrow>
          let head = fst (ring_current ring (ep_ring ep))
          in if ep_in_flight ep \<noteq> [] \<and> fl_message (hd (ep_in_flight ep)) \<noteq> head
             then unlink_all (ep_in_flight ep) (put_ep key (ep\<lparr>ep_in_flight := []\<rparr>) en)
             else Some en)"

definition has_endpoint :: "EndpointKey \<Rightarrow> 'r Engine \<Rightarrow> bool" where
  "has_endpoint key en = contains_key (en_endpoints en) key"

definition in_flight_seqnum :: "EndpointKey \<Rightarrow> 'r Engine \<Rightarrow> u32 option" where
  "in_flight_seqnum key en = do {
     ep \<leftarrow> get_ep en key;
     f \<leftarrow> find (\<lambda>f. fl_result f = None) (ep_in_flight ep);
     Some (fl_seqnum f)
   }"

definition in_flight_count :: "EndpointKey \<Rightarrow> 'r Engine \<Rightarrow> nat" where
  "in_flight_count key en = (case get_ep en key of None \<Rightarrow> 0 | Some ep \<Rightarrow> length (ep_in_flight ep))"

section \<open>Requests\<close>

definition complete :: "'r Ring \<Rightarrow> 'r Endpoint \<Rightarrow> Status \<Rightarrow> bytes \<Rightarrow> u32 \<Rightarrow> bool \<times> 'r Endpoint" where
  "complete ring ep status data len =
     (let (ok, r) = ring_complete ring (ep_ring ep) status data len in (ok, ep\<lparr>ep_ring := r\<rparr>))"

definition control_request :: "'r Ring \<Rightarrow> 'r Endpoint \<Rightarrow> bytes \<Rightarrow> u32 \<Rightarrow> SubmitRequest" where
  "control_request ring ep bytes len =
     (let direction = (if bytes ! 0 AND 0x80 \<noteq> 0 then In else Out);
          req = (SubmitRequest_new 0 direction len)\<lparr>sr_setup := bytes\<rparr>
      in if direction = Out then req\<lparr>sr_data := ring_read ring (ep_ring ep) 0 (unat len)\<rparr> else req)"

definition data_request ::
  "'r Ring \<Rightarrow> Speed \<Rightarrow> 'r Endpoint \<Rightarrow> EndpointKey \<Rightarrow> nat \<Rightarrow> Transfer \<Rightarrow> (SubmitRequest \<times> Stage) option" where
  "data_request ring sp ep key ahead transfer =
     (let direction = Direction_of_endpoint (snd key);
          interval = urb_interval (ep_info ep) sp
      in case transfer of
           TNormal len \<Rightarrow>
             let req = (SubmitRequest_new (snd key) direction len)\<lparr>sr_interval := interval\<rparr>;
                 req = (if direction = Out
                        then req\<lparr>sr_data := ring_read ring (ep_ring ep) ahead (unat len)\<rparr> else req)
             in Some (req, NormalStage)
         | TIsochronous len frame \<Rightarrow>
             let req = SubmitRequest_new (snd key) direction len;
                 req = (if direction = Out
                        then req\<lparr>sr_data := ring_read ring (ep_ring ep) ahead (unat len)\<rparr> else req);
                 req = (case frame of
                          Some frame \<Rightarrow> req\<lparr>sr_start_frame := ucast frame\<rparr>
                        | None \<Rightarrow> req\<lparr>sr_transfer_flags := sr_transfer_flags req OR URB_ISO_ASAP\<rparr>);
                 req = req\<lparr>sr_interval := max interval 1,
                           sr_iso_packets := [\<lparr>iso_offset = 0, iso_length = len,
                             iso_actual_length = 0, iso_status = 0\<rparr>]\<rparr>
             in Some (req, IsochronousStage)
         | _ \<Rightarrow> None)"

datatype Next = NContinue | NStop | NSubmit SubmitRequest Stage

definition continue_if :: "bool \<times> 'r Endpoint \<Rightarrow> Next \<times> 'r Endpoint" where
  "continue_if r = (if fst r then NContinue else NStop, snd r)"

definition head_request ::
  "'r Ring \<Rightarrow> Speed \<Rightarrow> 'r Endpoint \<Rightarrow> EndpointKey \<Rightarrow> Transfer \<Rightarrow> Next \<times> 'r Endpoint" where
  "head_request ring sp ep key transfer =
     (let ctrl = (snd key AND 0x7f = 0);
          unexpected = continue_if (complete ring ep StError [] 0);
          data = (case data_request ring sp ep key 0 transfer of
                    Some (req, stage) \<Rightarrow> (NSubmit req stage, ep)
                  | None \<Rightarrow> (NStop, ep))
      in case transfer of
           TSetup bytes \<Rightarrow>
             if ctrl
             then continue_if (complete ring
                    (ep\<lparr>ep_setup := Some \<lparr>su_bytes = bytes, su_data_done = False\<rparr>\<rparr>) StSuccess [] 0)
             else unexpected
         | TNormal len \<Rightarrow>
             if ctrl then
               (case ep_setup ep of
                  Some s \<Rightarrow>
                    if \<not> su_data_done s then
                      let w_length = from_le [su_bytes s ! 6, su_bytes s ! 7] :: u16;
                          len = min len (ucast w_length)
                      in (NSubmit (control_request ring ep (su_bytes s) len) ControlData, ep)
                    else unexpected
                | None \<Rightarrow> unexpected)
             else data
         | TStatus \<Rightarrow>
             if ctrl then
               (let done = continue_if (complete ring (ep\<lparr>ep_setup := None\<rparr>) StSuccess [] 0)
                in case ep_setup ep of
                     Some s \<Rightarrow>
                       if \<not> su_data_done s
                       then (NSubmit (control_request ring ep (su_bytes s) 0) ControlStatus, ep)
                       else done
                   | None \<Rightarrow> done)
             else unexpected
         | TLink response \<Rightarrow>
             if response then continue_if (complete ring ep StSuccess [] 0) else (NStop, ep)
         | TIsochronous len frame \<Rightarrow> if ctrl then unexpected else data
         | TOther t \<Rightarrow> unexpected)"

section \<open>Completions\<close>

datatype Flow = FContinue | FStop | FOffline

text \<open>What a finished URB says: the status, the data and how much was transferred.\<close>

definition outcome_of :: "InFlight \<Rightarrow> TransferResult \<Rightarrow> Status \<times> bytes \<times> u32" where
  "outcome_of flight result =
     (case result of
        Inr ret \<Rightarrow>
          let (status, actual) =
                (case (fl_stage flight, rs_iso_packets ret) of
                   (IsochronousStage, p # _) \<Rightarrow> (from_urb_status (iso_status p), iso_actual_length p)
                 | _ \<Rightarrow> (from_urb_status (rs_status ret), rs_actual_length ret));
              len = min actual (fl_length flight)
          in (status, take (unat len) (rs_data ret), len)
      | Inl e \<Rightarrow> (error_status e, [], 0))"

text \<open>The answer to GET_DESCRIPTOR(CONFIGURATION) with the UAS alternate settings hidden.\<close>

definition is_get_configuration :: "Setup \<Rightarrow> bool" where
  "is_get_configuration s \<longleftrightarrow> take 2 (su_bytes s) = [0x80, 0x06] \<and> su_bytes s ! 3 = 2"

definition patch_configuration ::
  "(u16 \<times> u16) option \<Rightarrow> bytes \<Rightarrow> bytes \<times> (u16 \<times> u16) option \<times> bool" where
  "patch_configuration hidden_config data =
     (case hide_uas data of
        (data, Some totals) \<Rightarrow> (data, Some totals, True)
      | (data, None) \<Rightarrow>
          (case hidden_config of
             Some (original, hidden) \<Rightarrow>
               (if 4 \<le> length data \<and> take 2 (drop 2 data) = u16_le original
                then take 2 data @ u16_le hidden @ drop 4 data else data,
                hidden_config, False)
           | None \<Rightarrow> (data, hidden_config, False)))"

definition stage_effects ::
  "'r Endpoint \<Rightarrow> Stage \<Rightarrow> bytes \<Rightarrow> u32 \<Rightarrow> bool \<Rightarrow> 'r Endpoint \<times> bytes \<times> u32 \<times> bool" where
  "stage_effects ep stage data len warned =
     (case stage of
        ControlData \<Rightarrow>
          let ep = ep\<lparr>ep_setup := map_option (\<lambda>s. s\<lparr>su_data_done := True\<rparr>) (ep_setup ep)\<rparr>
          in (case ep_setup ep of
                Some s \<Rightarrow>
                  if is_get_configuration s then
                    let (data, hidden, hid) = patch_configuration (ep_hidden_config ep) data
                    in (ep\<lparr>ep_hidden_config := hidden\<rparr>, data,
                        min len (of_nat (length data)), warned \<or> hid)
                  else (ep, data, len, warned)
              | None \<Rightarrow> (ep, data, len, warned))
      | ControlStatus \<Rightarrow> (ep\<lparr>ep_setup := None\<rparr>, data, len, warned)
      | _ \<Rightarrow> (ep, data, len, warned))"

definition apply_flight ::
  "'r Ring \<Rightarrow> 'r Endpoint \<Rightarrow> InFlight \<Rightarrow> TransferResult \<Rightarrow> bool \<Rightarrow> Flow \<times> 'r Endpoint \<times> bool" where
  "apply_flight ring ep flight result warned =
     (let (status, data, len) = outcome_of flight result;
          data = (if fl_direction flight = In then data else []);
          (ep, data, len, warned) = stage_effects ep (fl_stage flight) data len warned;
          (ok, ep) = complete ring ep status data len
      in (if \<not> ok then FStop else if status = StOffline then FOffline else FContinue, ep, warned))"

section \<open>Pumping\<close>

text \<open>
  \<open>SPump\<close> stands for the call of \<open>pump\<close> at the end of the error branch of \<open>submit\<close>, after which
  \<open>submit\<close> returns false; the callers of the model make that call.
\<close>

datatype submit_outcome = SInFlight | SFailed | SPump

definition submit_urb ::
  "'r Ring \<Rightarrow> EndpointKey \<Rightarrow> u64 \<Rightarrow> SubmitRequest \<Rightarrow> Stage \<Rightarrow> 'r Endpoint \<Rightarrow> 'r Engine \<Rightarrow>
    (submit_outcome \<times> 'r Engine) option" where
  "submit_urb ring key message req stage ep en = do {
     (res, st) \<leftarrow> submit req (en_session en);
     let en = en\<lparr>en_session := st\<rparr>;
     (case res of
        Inr (seqnum, reply) \<Rightarrow>
          let token = en_next_token en;
              f = \<lparr>fl_token = token, fl_message = message, fl_stage = stage,
                   fl_direction = sr_direction req, fl_length = sr_length req,
                   fl_seqnum = seqnum, fl_unlinking = False, fl_result = None\<rparr>
          in Some (SInFlight,
               (put_ep key (ep\<lparr>ep_in_flight := ep_in_flight ep @ [f]\<rparr>) en)
                 \<lparr>en_next_token := token + 1, en_waiters := en_waiters en @ [(reply, key, token)]\<rparr>)
      | Inl e \<Rightarrow>
          if ep_in_flight ep = [] then
            let (ok, ep) = complete ring ep (error_status e) [] 0
            in Some (if ok \<and> error_status e \<noteq> StOffline then SPump else SFailed, put_ep key ep en)
          else Some (SFailed, en))
   }"

text \<open>The body of the loop in \<open>fill\<close>: nothing is a return, an outcome is what \<open>submit\<close> did.\<close>

definition fill_round ::
  "'r Ring \<Rightarrow> EndpointKey \<Rightarrow> 'r Engine \<Rightarrow> (submit_outcome option \<times> 'r Engine) option" where
  "fill_round ring key en =
     (case get_ep en key of
        None \<Rightarrow> Some (None, en)
      | Some ep \<Rightarrow>
          let ahead = length (ep_in_flight ep)
          in if ahead = 0 \<or> depth (kind (ep_info ep)) \<le> ahead
                \<or> (\<exists>f\<in>set (ep_in_flight ep). fl_result f \<noteq> None)
             then Some (None, en)
             else case ring_peek ring (ep_ring ep) ahead of
               None \<Rightarrow> Some (None, en)
             | Some (message, transfer) \<Rightarrow>
                 (case data_request ring (speed (en_device en)) ep key ahead transfer of
                    None \<Rightarrow> Some (None, en)
                  | Some (req, stage) \<Rightarrow> do {
                      (outcome, en) \<leftarrow> submit_urb ring key message req stage ep en;
                      Some (Some outcome, en)
                    }))"

partial_function (option) fill ::
  "'r Ring \<Rightarrow> EndpointKey \<Rightarrow> 'r Engine \<Rightarrow> (bool \<times> 'r Engine) option" where
  "fill ring key en =
     Option.bind (fill_round ring key en) (\<lambda>(outcome, en).
       case outcome of
         None \<Rightarrow> Some (False, en)
       | Some SInFlight \<Rightarrow> fill ring key en
       | Some SFailed \<Rightarrow> Some (False, en)
       | Some SPump \<Rightarrow> Some (True, en))"

text \<open>
  The body of the loop in \<open>pump\<close>: nothing is a return, a value is a \<open>continue\<close> with that value of
  \<open>offline\<close>. A call of \<open>pump\<close> from \<open>submit\<close> is the loop entered again with \<open>offline\<close> false.
\<close>

definition pump_round ::
  "'r Ring \<Rightarrow> EndpointKey \<Rightarrow> bool \<Rightarrow> 'r Engine \<Rightarrow> (bool option \<times> 'r Engine) option" where
  "pump_round ring key offline en =
     (case get_ep en key of
        None \<Rightarrow> Some (None, en)
      | Some ep \<Rightarrow>
          if \<not> ring_active ring (ep_ring ep) then Some (None, en)
          else let (head, transfer) = ring_current ring (ep_ring ep) in
          case ep_in_flight ep of
            front # rest \<Rightarrow>
              if fl_message front \<noteq> head then do {
                en \<leftarrow> unlink_all (front # rest) (put_ep key (ep\<lparr>ep_in_flight := []\<rparr>) en);
                Some (Some offline, en)
              }
              else (case fl_result front of
                Some result \<Rightarrow>
                  let (flow, ep, warned) =
                        apply_flight ring (ep\<lparr>ep_in_flight := rest\<rparr>) front result (en_uas_warned en);
                      en = (put_ep key ep en)\<lparr>en_uas_warned := warned\<rparr>
                  in Some (case flow of FContinue \<Rightarrow> Some offline | FOffline \<Rightarrow> Some True
                           | FStop \<Rightarrow> None, en)
              | None \<Rightarrow>
                  if offline then Some (None, en)
                  else do {
                    (again, en) \<leftarrow> fill ring key en;
                    Some (if again then Some False else None, en)
                  })
          | [] \<Rightarrow>
              (case transfer of
                 None \<Rightarrow> Some (None, en)
               | Some transfer \<Rightarrow>
                   if offline then Some (None, en)
                   else
                     let (next, ep) = head_request ring (speed (en_device en)) ep key transfer;
                         en = put_ep key ep en
                     in case next of
                          NContinue \<Rightarrow> Some (Some offline, en)
                        | NStop \<Rightarrow> Some (None, en)
                        | NSubmit req stage \<Rightarrow> do {
                            (outcome, en) \<leftarrow> submit_urb ring key head req stage ep en;
                            case outcome of
                              SFailed \<Rightarrow> Some (None, en)
                            | SPump \<Rightarrow> Some (Some False, en)
                            | SInFlight \<Rightarrow> do {
                                (again, en) \<leftarrow> fill ring key en;
                                Some (if again then Some False else None, en)
                              }
                          }))"

partial_function (option) pump ::
  "'r Ring \<Rightarrow> EndpointKey \<Rightarrow> bool \<Rightarrow> 'r Engine \<Rightarrow> 'r Engine option" where
  "pump ring key offline en =
     Option.bind (pump_round ring key offline en) (\<lambda>(again, en).
       case again of None \<Rightarrow> Some en | Some offline \<Rightarrow> pump ring key offline en)"

definition doorbell :: "'r Ring \<Rightarrow> EndpointKey \<Rightarrow> 'r Engine \<Rightarrow> 'r Engine option" where
  "doorbell ring key en = pump ring key False en"

definition is_unlinked :: "TransferResult \<Rightarrow> bool" where
  "is_unlinked r = (case r of Inl (Unlinked _) \<Rightarrow> True | _ \<Rightarrow> False)"

definition finish ::
  "'r Ring \<Rightarrow> EndpointKey \<Rightarrow> u64 \<Rightarrow> TransferResult \<Rightarrow> 'r Engine \<Rightarrow> 'r Engine option" where
  "finish ring key token result en =
     (case get_ep en key of
        None \<Rightarrow> Some en
      | Some ep \<Rightarrow>
          let before = takeWhile (\<lambda>f. fl_token f \<noteq> token) (ep_in_flight ep)
          in (case dropWhile (\<lambda>f. fl_token f \<noteq> token) (ep_in_flight ep) of
                [] \<Rightarrow> Some en
              | f # later \<Rightarrow>
                  if fl_unlinking f \<and> is_unlinked result then
                    Option.bind (unlink_all later (put_ep key (ep\<lparr>ep_in_flight := before\<rparr>) en))
                      (\<lambda>en. pump ring key False en)
                  else
                    pump ring key False
                      (put_ep key (ep\<lparr>ep_in_flight := before @ f\<lparr>fl_result := Some result\<rparr> # later\<rparr>) en)))"

section \<open>Resetting the device\<close>

definition reset_request :: SubmitRequest where
  "reset_request = (SubmitRequest_new 0 Out 0)\<lparr>sr_setup := PORT_RESET_SETUP\<rparr>"

text \<open>The reply, or nothing when the wait timed out.\<close>

definition reset_outcome :: "TransferResult option \<Rightarrow> TransferError + unit" where
  "reset_outcome reply =
     (case reply of
        None \<Rightarrow> Inl (Disconnected ResetTimedOut)
      | Some (Inl e) \<Rightarrow> Inl e
      | Some (Inr ret) \<Rightarrow>
          if rs_status ret = 0 then Inr () else Inl (InvalidRequest (ResetFailed (rs_status ret))))"

text \<open>
  The wait blocks the controller queue. What the session's tasks do meanwhile is an argument: the
  reply that arrived before the timeout, if any, and the session after it.
\<close>

definition reset_device ::
  "(chan \<Rightarrow> Shared \<Rightarrow> TransferResult option \<times> Shared) \<Rightarrow> 'r Engine \<Rightarrow>
    ((TransferError + unit) \<times> 'r Engine) option" where
  "reset_device await en = do {
     (res, st) \<leftarrow> submit reset_request (en_session en);
     (case res of
        Inl e \<Rightarrow> Some (Inl e, en\<lparr>en_session := st\<rparr>)
      | Inr (seqnum, reply) \<Rightarrow>
          let (answer, st) = await reply st
          in Some (reset_outcome answer, en\<lparr>en_session := st\<rparr>))
   }"

section \<open>Access to endpoints\<close>

lemma get_put_ep [simp]: "get_ep (put_ep key ep en) k = (if k = key then Some ep else get_ep en k)"
  by (simp add: put_ep_def update_conv')

lemma put_ep_fields [simp]:
  "en_next_token (put_ep key ep en) = en_next_token en" "en_session (put_ep key ep en) = en_session en"
  "en_device (put_ep key ep en) = en_device en" "en_waiters (put_ep key ep en) = en_waiters en"
  "en_uas_warned (put_ep key ep en) = en_uas_warned en"
  by (simp_all add: put_ep_def)

lemma wf_put_ep [simp, intro]: "wf_amap (en_endpoints en) \<Longrightarrow> wf_amap (en_endpoints (put_ep key ep en))"
  by (simp add: put_ep_def distinct_update)

lemma unlink_all_Some:
  "unlink_all fs en = Some en' \<longleftrightarrow>
     (\<exists>st. unlink_flights fs (en_session en) = Some st \<and> en' = en\<lparr>en_session := st\<rparr>)"
  by (auto simp: unlink_all_def bind_eq_Some_conv)

lemma unlink_flights_seqs:
  "unlink_flights fs st = unlink_seqs (map fl_seqnum (filter (\<lambda>f. fl_result f = None) fs)) st"
  by (induction fs arbitrary: st) (auto cong: Option.bind_cong)

lemma submit_urb_cases:
  assumes "submit_urb ring key m req stage ep en = Some (out, en')"
  obtains (accepted) q c st where "submit req (en_session en) = Some (Inr (q, c), st)"
      "out = SInFlight"
      "en' = (put_ep key (ep\<lparr>ep_in_flight := ep_in_flight ep @
            [\<lparr>fl_token = en_next_token en, fl_message = m, fl_stage = stage,
              fl_direction = sr_direction req, fl_length = sr_length req, fl_seqnum = q,
              fl_unlinking = False, fl_result = None\<rparr>]\<rparr>) (en\<lparr>en_session := st\<rparr>))
          \<lparr>en_next_token := en_next_token en + 1,
           en_waiters := en_waiters en @ [(c, key, en_next_token en)]\<rparr>"
  | (rejected) e where "submit req (en_session en) = Some (Inl e, en_session en)"
      "ep_in_flight ep \<noteq> []" "out = SFailed" "en' = en"
  | (completed) e ok r where "submit req (en_session en) = Some (Inl e, en_session en)"
      "ep_in_flight ep = []" "ring_complete ring (ep_ring ep) (error_status e) [] 0 = (ok, r)"
      "en' = put_ep key (ep\<lparr>ep_ring := r\<rparr>) en"
      "out = (if ok \<and> error_status e \<noteq> StOffline then SPump else SFailed)"
proof -
  obtain res st where s: "submit req (en_session en) = Some (res, st)"
    using assms by (auto simp: submit_urb_def bind_eq_Some_conv)
  show thesis
  proof (cases res)
    case (Inr qc)
    then show ?thesis using s assms by (cases qc) (auto simp: submit_urb_def Let_def intro!: accepted)
  next
    case (Inl e)
    then have st: "st = en_session en" using s submit_Inl by metis
    obtain ok r where c: "ring_complete ring (ep_ring ep) (error_status e) [] 0 = (ok, r)"
      by fastforce
    show ?thesis
    proof (cases "ep_in_flight ep = []")
      case True
      show ?thesis
        using assms Inl True c s st
        by (intro completed [of e ok r]) (simp_all add: submit_urb_def complete_def)
    next
      case False
      then show ?thesis
        using assms Inl s st by (intro rejected [of e]) (simp_all add: submit_urb_def)
    qed
  qed
qed

section \<open>Loop rules\<close>

text \<open>A reflexive and transitive relation that each round respects is respected by the loops.\<close>

lemma fill_rel:
  assumes "fill ring key en = Some r"
    and step: "\<And>en o' en'. fill_round ring key en = Some (o', en') \<Longrightarrow> R en en'"
    and trans: "\<And>a b c. R a b \<Longrightarrow> R b c \<Longrightarrow> R a c"
  shows "R en (snd r)"
proof -
  have "ring' = ring \<longrightarrow> key' = key \<longrightarrow> R en (snd r)" if "fill ring' key' en = Some r" for ring' key'
    using that
  proof (rule fill.raw_induct [rotated])
    fix f :: "'a Ring \<Rightarrow> EndpointKey \<Rightarrow> 'a Engine \<Rightarrow> (bool \<times> 'a Engine) option" and g k e r
    assume IH: "\<And>g k e r. f g k e = Some r \<Longrightarrow> g = ring \<longrightarrow> k = key \<longrightarrow> R e (snd r)"
      and eq: "Option.bind (fill_round g k e) (\<lambda>(outcome, en).
         case outcome of None \<Rightarrow> Some (False, en) | Some SInFlight \<Rightarrow> f g k en
         | Some SFailed \<Rightarrow> Some (False, en) | Some SPump \<Rightarrow> Some (True, en)) = Some r"
    then obtain o' e' where fr: "fill_round g k e = Some (o', e')" by (auto simp: bind_eq_Some_conv)
    show "g = ring \<longrightarrow> k = key \<longrightarrow> R e (snd r)"
    proof (intro impI)
      assume gk: "g = ring" "k = key"
      then have R1: "R e e'" using fr step by simp
      show "R e (snd r)"
      proof (cases "o' = Some SInFlight")
        case True
        then show ?thesis using eq fr IH [of g k e' r] gk trans [OF R1] by simp
      next
        case False
        then have "snd r = e'" using eq fr by (auto split: option.splits submit_outcome.splits)
        with R1 show ?thesis by simp
      qed
    qed
  qed
  then show ?thesis using assms(1) by blast
qed

lemma pump_rel:
  assumes "pump ring key offline en = Some en'"
    and step: "\<And>offline en again en'. pump_round ring key offline en = Some (again, en') \<Longrightarrow> R en en'"
    and trans: "\<And>a b c. R a b \<Longrightarrow> R b c \<Longrightarrow> R a c"
  shows "R en en'"
proof -
  have "ring' = ring \<longrightarrow> key' = key \<longrightarrow> R en en'" if "pump ring' key' offline en = Some en'" for ring' key'
    using that
  proof (rule pump.raw_induct [rotated])
    fix f :: "'a Ring \<Rightarrow> EndpointKey \<Rightarrow> bool \<Rightarrow> 'a Engine \<Rightarrow> 'a Engine option" and g k off e r
    assume IH: "\<And>g k off e r. f g k off e = Some r \<Longrightarrow> g = ring \<longrightarrow> k = key \<longrightarrow> R e r"
      and eq: "Option.bind (pump_round g k off e) (\<lambda>(again, en).
         case again of None \<Rightarrow> Some en | Some offline \<Rightarrow> f g k offline en) = Some r"
    then obtain o' e' where pr: "pump_round g k off e = Some (o', e')" by (auto simp: bind_eq_Some_conv)
    show "g = ring \<longrightarrow> k = key \<longrightarrow> R e r"
    proof (intro impI)
      assume gk: "g = ring" "k = key"
      then have R1: "R e e'" using pr step by simp
      show "R e r"
      proof (cases o')
        case None
        then show ?thesis using eq pr R1 by simp
      next
        case (Some x)
        then show ?thesis using eq pr IH [of g k x e' r] gk trans [OF R1] by simp
      qed
    qed
  qed
  then show ?thesis using assms(1) by blast
qed

text \<open>Rings on which each round does the same give the same loops.\<close>

lemma fill_follows:
  assumes "fill ring key en = Some r" "\<And>en. fill_round ring' key en = fill_round ring key en"
  shows "fill ring' key en = Some r"
proof -
  have "g = ring \<longrightarrow> k = key \<longrightarrow> fill ring' key en = Some r" if "fill g k en = Some r" for g k
    using that
  proof (rule fill.raw_induct [rotated])
    fix f :: "'a Ring \<Rightarrow> EndpointKey \<Rightarrow> 'a Engine \<Rightarrow> (bool \<times> 'a Engine) option" and g k e r
    assume IH: "\<And>g k e r. f g k e = Some r \<Longrightarrow> g = ring \<longrightarrow> k = key \<longrightarrow> fill ring' key e = Some r"
      and eq: "Option.bind (fill_round g k e) (\<lambda>(outcome, en).
         case outcome of None \<Rightarrow> Some (False, en) | Some SInFlight \<Rightarrow> f g k en
         | Some SFailed \<Rightarrow> Some (False, en) | Some SPump \<Rightarrow> Some (True, en)) = Some r"
    show "g = ring \<longrightarrow> k = key \<longrightarrow> fill ring' key e = Some r"
    proof (intro impI)
      assume gk: "g = ring" "k = key"
      obtain o' e' where fr: "fill_round ring key e = Some (o', e')" using eq gk by (auto simp: bind_eq_Some_conv)
      show "fill ring' key e = Some r"
      proof (cases "o' = Some SInFlight")
        case True
        then have "f ring key e' = Some r" using eq fr gk by simp
        then have "fill ring' key e' = Some r" using IH by blast
        then show ?thesis using fr True by (subst fill.simps) (simp add: assms(2))
      next
        case False
        then show ?thesis using eq fr gk
          by (subst fill.simps) (auto simp: assms(2) split: option.splits submit_outcome.splits)
      qed
    qed
  qed
  then show ?thesis using assms(1) by blast
qed

lemma fill_cong:
  assumes "\<And>en. fill_round ring' key en = fill_round ring key en"
  shows "fill ring' key en = fill ring key en"
  using fill_follows [of ring key en _ ring'] fill_follows [of ring' key en _ ring] assms
  by (cases "fill ring key en"; cases "fill ring' key en") auto

lemma pump_follows:
  assumes "pump ring key offline en = Some r" "\<And>offline en. pump_round ring' key offline en = pump_round ring key offline en"
  shows "pump ring' key offline en = Some r"
proof -
  have "g = ring \<longrightarrow> k = key \<longrightarrow> pump ring' key offline en = Some r" if "pump g k offline en = Some r" for g k
    using that
  proof (rule pump.raw_induct [rotated])
    fix f :: "'a Ring \<Rightarrow> EndpointKey \<Rightarrow> bool \<Rightarrow> 'a Engine \<Rightarrow> 'a Engine option" and g k off e r
    assume IH: "\<And>g k off e r. f g k off e = Some r \<Longrightarrow> g = ring \<longrightarrow> k = key \<longrightarrow> pump ring' key off e = Some r"
      and eq: "Option.bind (pump_round g k off e) (\<lambda>(again, en).
         case again of None \<Rightarrow> Some en | Some offline \<Rightarrow> f g k offline en) = Some r"
    show "g = ring \<longrightarrow> k = key \<longrightarrow> pump ring' key off e = Some r"
    proof (intro impI)
      assume gk: "g = ring" "k = key"
      obtain o' e' where pr: "pump_round ring key off e = Some (o', e')" using eq gk by (auto simp: bind_eq_Some_conv)
      show "pump ring' key off e = Some r"
      proof (cases o')
        case None
        then show ?thesis using eq pr gk by (subst pump.simps) (simp add: assms(2))
      next
        case (Some b)
        then have "f ring key b e' = Some r" using eq pr gk by simp
        then have "pump ring' key b e' = Some r" using IH by blast
        then show ?thesis using pr Some by (subst pump.simps) (simp add: assms(2))
      qed
    qed
  qed
  then show ?thesis using assms(1) by blast
qed

lemma pump_cong:
  assumes "\<And>offline en. pump_round ring' key offline en = pump_round ring key offline en"
  shows "pump ring' key offline en = pump ring key offline en"
  using pump_follows [of ring key offline en _ ring'] pump_follows [of ring' key offline en _ ring] assms
  by (cases "pump ring key offline en"; cases "pump ring' key offline en") auto

section \<open>One completion\<close>

lemma outcome_bounds:
  assumes "outcome_of f res = (status, data, len)"
  shows "len \<le> fl_length f" "length data \<le> unat len"
  using assms by (auto simp: outcome_of_def Let_def min_def split: sum.splits prod.splits)

lemma complete_eq:
  "complete ring ep status data len =
     (fst (ring_complete ring (ep_ring ep) status data len),
      ep\<lparr>ep_ring := snd (ring_complete ring (ep_ring ep) status data len)\<rparr>)"
  by (simp add: complete_def split_beta)

lemma hide_uas_None: "snd (hide_uas d) = None \<Longrightarrow> fst (hide_uas d) = d"
  by (auto simp: hide_uas_def Let_def split: option.splits if_splits)

lemma patch_shorter:
  assumes "patch_configuration h d = (d', h', hid)"
  shows "length d' \<le> length d"
proof (cases "snd (hide_uas d)")
  case None
  with hide_uas_None [of d] have "hide_uas d = (d, None)" by (cases "hide_uas d") auto
  with assms show ?thesis by (auto simp: patch_configuration_def split: option.splits if_splits)
next
  case (Some t)
  then obtain out a b where o': "hide_uas d = (out, Some (a, b))"
    by (cases "hide_uas d"; cases t) auto
  with assms hide_uas_result(1) [OF o'] show ?thesis by (simp add: patch_configuration_def)
qed

lemma patched_length:
  assumes "length d' \<le> length d" "length d \<le> unat (len :: u32)"
  shows "length d' \<le> unat (min len (of_nat (length d')))"
  using assms unat_of_nat_le [of "length d'" len]
  by (auto simp: min_def word_le_nat_alt)

lemma stage_effects_shape:
  assumes "stage_effects ep stage data len w = (ep', d, l, w')" "length data \<le> unat len"
  shows "ep' = ep\<lparr>ep_setup := ep_setup ep', ep_hidden_config := ep_hidden_config ep'\<rparr>"
    "length d \<le> length data" "l \<le> len" "length d \<le> unat l"
  using assms
  by (auto simp: stage_effects_def Let_def dest: patch_shorter
      intro: patched_length [OF patch_shorter]
      split: Stage.splits option.splits if_splits prod.splits)

lemma apply_flight_completes:
  assumes "apply_flight ring ep f res w = (flow, ep', w')"
  obtains data len ok r where
    "ring_complete ring (ep_ring ep) (fst (outcome_of f res)) data len = (ok, r)"
    "ep' = ep\<lparr>ep_ring := r, ep_setup := ep_setup ep', ep_hidden_config := ep_hidden_config ep'\<rparr>"
    "length data \<le> unat len" "len \<le> fl_length f" "data \<noteq> [] \<longrightarrow> fl_direction f = In"
    "flow = (if \<not> ok then FStop else if fst (outcome_of f res) = StOffline then FOffline
             else FContinue)"
proof -
  obtain status d0 l0 where out: "outcome_of f res = (status, d0, l0)" by (cases "outcome_of f res")
  define d1 where "d1 = (if fl_direction f = In then d0 else [])"
  obtain ep1 d l w1 where se: "stage_effects ep (fl_stage f) d1 l0 w = (ep1, d, l, w1)"
    by (cases "stage_effects ep (fl_stage f) d1 l0 w")
  have "length d1 \<le> unat l0" using outcome_bounds(2) [OF out] by (simp add: d1_def)
  note sh = stage_effects_shape [OF se this]
  obtain ok r where c: "ring_complete ring (ep_ring ep) status d l = (ok, r)" by fastforce
  have ring1: "ep_ring ep1 = ep_ring ep" by (subst sh(1)) simp
  have ep': "ep' = ep1\<lparr>ep_ring := r\<rparr>" and flow: "flow = (if \<not> ok then FStop
      else if status = StOffline then FOffline else FContinue)"
    using assms se c ring1 out by (simp_all add: apply_flight_def d1_def [symmetric] complete_eq)
  show thesis
  proof (rule that [of d l ok r])
    show "d \<noteq> [] \<longrightarrow> fl_direction f = In" using sh(2) by (auto simp: d1_def split: if_splits)
    show "l \<le> fl_length f" using sh(3) outcome_bounds(1) [OF out] by simp
    show "ep' = ep\<lparr>ep_ring := r, ep_setup := ep_setup ep', ep_hidden_config := ep_hidden_config ep'\<rparr>"
      unfolding ep' by (subst sh(1)) simp
  qed (use c out flow sh(4) in simp_all)
qed

lemma head_request_cases:
  assumes "head_request ring sp ep key t = (nxt, ep')"
  obtains (submit) req stage where "nxt = NSubmit req stage" "ep' = ep"
  | (stop) "nxt = NStop" "ep' = ep"
  | (complete) status ok r where "ring_complete ring (ep_ring ep) status [] 0 = (ok, r)"
      "ep' = ep\<lparr>ep_ring := r, ep_setup := ep_setup ep'\<rparr>" "nxt = (if ok then NContinue else NStop)"
proof -
  have own: thesis
    if "continue_if (Engine.complete ring (ep\<lparr>ep_setup := s\<rparr>) status [] 0) = (nxt, ep')" for s status
  proof -
    obtain ok r where c: "ring_complete ring (ep_ring ep) status [] 0 = (ok, r)" by fastforce
    then show thesis using that by (intro complete [OF c]) (auto simp: continue_if_def complete_eq)
  qed
  have own': thesis if "continue_if (Engine.complete ring ep status [] 0) = (nxt, ep')" for status
    using that own [of "ep_setup ep" status] by simp
  have dat: thesis if "(case d of Some (req, stage) \<Rightarrow> (NSubmit req stage, ep) | None \<Rightarrow> (NStop, ep)) = (nxt, ep')" for d
    using that submit stop by (cases d) (auto split: prod.splits)
  note h = assms [unfolded head_request_def Let_def]
  show thesis
  proof (cases t)
    case (TSetup x)
    with h show ?thesis by (auto split: if_splits elim: own own')
  next
    case (TNormal x)
    with h show ?thesis
      by (auto split: if_splits option.splits elim: own own' dat intro: submit stop)
  next
    case TStatus
    with h show ?thesis by (auto split: if_splits option.splits elim: own own' dat intro: submit)
  next
    case (TIsochronous x y)
    with h show ?thesis by (auto split: if_splits elim: own own' dat)
  next
    case (TLink x)
    with h show ?thesis by (auto split: if_splits elim: own own' intro: stop)
  next
    case (TOther x)
    with h show ?thesis by (auto elim: own own')
  qed
qed

text \<open>What the requests of the engine carry, by the message they are for.\<close>

lemma data_request_fields:
  assumes "data_request ring sp ep key k t = Some (req, stage)"
  obtains (normal) len where "t = TNormal len" "sr_length req = len" "sr_iso_packets req = []"
      "sr_interval req = urb_interval (ep_info ep) sp"
      "sr_data req = (if Direction_of_endpoint (snd key) = Out then ring_read ring (ep_ring ep) k (unat len) else [])"
      "sr_ep req = snd key" "sr_direction req = Direction_of_endpoint (snd key)" "sr_setup req = replicate 8 0"
      "stage = NormalStage"
  | (isochronous) len frame where "t = TIsochronous len frame" "sr_length req = len" "length (sr_iso_packets req) = 1"
      "sr_interval req = max (urb_interval (ep_info ep) sp) 1"
      "sr_data req = (if Direction_of_endpoint (snd key) = Out then ring_read ring (ep_ring ep) k (unat len) else [])"
      "sr_ep req = snd key" "sr_direction req = Direction_of_endpoint (snd key)" "sr_setup req = replicate 8 0"
      "stage = IsochronousStage"
proof (cases t)
  case (TNormal len)
  show thesis by (rule normal [OF TNormal]) (use assms in \<open>auto simp: TNormal data_request_def Let_def SubmitRequest_new_def\<close>)
next
  case (TIsochronous len frame)
  show thesis
    by (rule isochronous [OF TIsochronous])
      (use assms in \<open>auto simp: TIsochronous data_request_def Let_def SubmitRequest_new_def split: option.splits\<close>)
qed (use assms in \<open>simp_all add: data_request_def Let_def\<close>)

lemma control_request_fields:
  "sr_ep (control_request ring ep bs len) = 0" "sr_length (control_request ring ep bs len) = len"
  "sr_direction (control_request ring ep bs len) = (if bs ! 0 AND 0x80 \<noteq> 0 then In else Out)"
  "sr_data (control_request ring ep bs len) = (if bs ! 0 AND 0x80 \<noteq> 0 then [] else ring_read ring (ep_ring ep) 0 (unat len))"
  "sr_setup (control_request ring ep bs len) = bs" "sr_iso_packets (control_request ring ep bs len) = []"
  by (auto simp: control_request_def Let_def SubmitRequest_new_def)

lemma head_request_submits:
  assumes "head_request ring sp ep key t = (NSubmit req stage, ep')"
  obtains (data) "snd key AND 0x7f \<noteq> 0" "data_request ring sp ep key 0 t = Some (req, stage)" "ep' = ep"
  | (control_data) s len where "snd key AND 0x7f = 0" "t = TNormal len" "ep_setup ep = Some s" "\<not> su_data_done s"
      "req = control_request ring ep (su_bytes s) (min len (ucast (from_le [su_bytes s ! 6, su_bytes s ! 7] :: u16)))"
      "stage = ControlData" "ep' = ep"
  | (control_status) s where "snd key AND 0x7f = 0" "t = TStatus" "ep_setup ep = Some s" "\<not> su_data_done s"
      "req = control_request ring ep (su_bytes s) 0" "stage = ControlStatus" "ep' = ep"
proof -
  have no: "continue_if c \<noteq> (NSubmit req stage, ep')" for c by (simp add: continue_if_def)
  note h = assms [unfolded head_request_def Let_def]
  show thesis
  proof (cases t)
    case (TNormal len)
    with h no show ?thesis
      by (auto split: if_splits option.splits intro: data control_data)
  next
    case TStatus
    with h no show ?thesis by (auto split: if_splits option.splits intro: control_status)
  next
    case (TIsochronous len frame)
    with h no show ?thesis by (auto split: if_splits option.splits intro: data)
  qed (use h no in \<open>auto split: if_splits\<close>)
qed

text \<open>The messages that carry no data: the engine may acknowledge them by itself.\<close>

definition dataless :: "Transfer \<Rightarrow> bool" where
  "dataless t = (case t of TSetup _ \<Rightarrow> True | TStatus \<Rightarrow> True | TLink _ \<Rightarrow> True | _ \<Rightarrow> False)"

lemma head_request_own:
  assumes "head_request ring sp ep key t = (nxt, ep')" "\<And>req stage. nxt \<noteq> NSubmit req stage"
  obtains (none) "ep' = ep"
  | (answer) status su ok r where "ring_complete ring (ep_ring ep) status [] 0 = (ok, r)"
      "ep' = ep\<lparr>ep_ring := r, ep_setup := su\<rparr>" "status = StError \<or> status = StSuccess \<and> dataless t"
proof -
  have own: thesis
    if "continue_if (Engine.complete ring (ep\<lparr>ep_setup := su\<rparr>) status [] 0) = (nxt, ep')"
      "status = StError \<or> status = StSuccess \<and> dataless t" for su status
  proof -
    obtain ok r where c: "ring_complete ring (ep_ring ep) status [] 0 = (ok, r)" by fastforce
    then show thesis using that(1) by (intro answer [OF c _ that(2), where su = su]) (auto simp: continue_if_def complete_eq)
  qed
  have err: thesis if "continue_if (Engine.complete ring ep StError [] 0) = (nxt, ep')"
    using own [of "ep_setup ep" StError] that by simp
  note h = assms(1) [unfolded head_request_def Let_def]
  show thesis
  proof (cases t)
    case (TSetup x)
    with h show ?thesis by (auto simp: dataless_def split: if_splits elim: own err)
  next
    case (TNormal x)
    with h show ?thesis using assms(2) by (auto split: if_splits option.splits elim: err intro: none)
  next
    case TStatus
    with h show ?thesis using assms(2) by (auto simp: dataless_def split: if_splits option.splits elim: own err)
  next
    case (TIsochronous x y)
    with h show ?thesis using assms(2) by (auto split: if_splits option.splits elim: err intro: none)
  next
    case (TLink x)
    have "continue_if (Engine.complete ring (ep\<lparr>ep_setup := ep_setup ep\<rparr>) StSuccess [] 0) =
        continue_if (Engine.complete ring ep StSuccess [] 0)" by simp
    with h TLink show ?thesis using own [of "ep_setup ep" StSuccess] by (auto simp: dataless_def split: if_splits intro: none)
  next
    case (TOther x)
    with h show ?thesis by (auto elim: err)
  qed
qed

section \<open>What an endpoint goes through\<close>

text \<open>
  The rules of the ring: only an active ring is touched; a finished URB is delivered only when it
  is the oldest one and its message is the head of the ring, with no more bytes than it asked
  for and data only for a read; a message without a URB is acknowledged only when nothing is in
  flight; a URB is sent for the head or for the next message behind those in flight, never for
  more bytes than the message has, never more than the depth of the endpoint and never past a finished one; and URBs are given up together,
  only when the head is no longer the message of the oldest.
\<close>

definition message_length :: "Transfer \<Rightarrow> u32" where
  "message_length t = (case t of TNormal len \<Rightarrow> len | TIsochronous len _ \<Rightarrow> len | _ \<Rightarrow> 0)"

lemma data_request_length:
  "data_request ring sp ep key ahead t = Some (req, stage) \<Longrightarrow> sr_length req = message_length t"
  by (cases t) (auto simp: data_request_def message_length_def SubmitRequest_new_def Let_def
      split: option.splits if_splits)

lemma head_request_length:
  "head_request ring sp ep key t = (NSubmit req stage, ep') \<Longrightarrow> sr_length req \<le> message_length t"
  by (cases t) (auto simp: head_request_def Let_def continue_if_def control_request_def
      SubmitRequest_new_def message_length_def dest!: data_request_length
      split: if_splits option.splits)

inductive ep_step :: "'r Ring \<Rightarrow> 'r Endpoint \<Rightarrow> 'r Endpoint \<Rightarrow> bool" for ring where
  give_up: "\<lbrakk>ring_active ring (ep_ring ep); ep_in_flight ep = f # fs;
      fl_message f \<noteq> fst (ring_current ring (ep_ring ep))\<rbrakk> \<Longrightarrow>
    ep_step ring ep (ep\<lparr>ep_in_flight := []\<rparr>)"
| deliver: "\<lbrakk>ring_active ring (ep_ring ep); ep_in_flight ep = f # fs;
      fl_message f = fst (ring_current ring (ep_ring ep)); fl_result f = Some res;
      ring_complete ring (ep_ring ep) (fst (outcome_of f res)) data len = (ok, r);
      length data \<le> unat len; len \<le> fl_length f; data \<noteq> [] \<longrightarrow> fl_direction f = In\<rbrakk> \<Longrightarrow>
    ep_step ring ep (ep\<lparr>ep_in_flight := fs, ep_ring := r, ep_setup := s, ep_hidden_config := h\<rparr>)"
| acknowledge: "\<lbrakk>ring_active ring (ep_ring ep); ep_in_flight ep = [];
      ring_current ring (ep_ring ep) = (head, Some t);
      ring_complete ring (ep_ring ep) status [] 0 = (ok, r)\<rbrakk> \<Longrightarrow>
    ep_step ring ep (ep\<lparr>ep_ring := r, ep_setup := s\<rparr>)"
| send: "\<lbrakk>ring_active ring (ep_ring ep); \<forall>g\<in>set (ep_in_flight ep). fl_result g = None;
      length (ep_in_flight ep) < depth (kind (ep_info ep)); fl_result f = None; \<not> fl_unlinking f;
      fl_length f \<le> message_length t;
      if ep_in_flight ep = [] then ring_current ring (ep_ring ep) = (fl_message f, Some t)
      else ring_peek ring (ep_ring ep) (length (ep_in_flight ep)) = Some (fl_message f, t)\<rbrakk> \<Longrightarrow>
    ep_step ring ep (ep\<lparr>ep_in_flight := ep_in_flight ep @ [f]\<rparr>)"

definition moves :: "'r Ring \<Rightarrow> EndpointKey \<Rightarrow> 'r Engine \<Rightarrow> 'r Engine \<Rightarrow> bool" where
  "moves ring key en en' \<longleftrightarrow>
     (\<forall>k. k \<noteq> key \<longrightarrow> get_ep en' k = get_ep en k) \<and>
     (case get_ep en key of
        None \<Rightarrow> get_ep en' key = None
      | Some ep \<Rightarrow> \<exists>ep'. get_ep en' key = Some ep' \<and> (ep_step ring)\<^sup>*\<^sup>* ep ep')"

lemma moves_refl [simp]: "moves ring key en en"
  by (auto simp: moves_def split: option.split)

lemma moves_trans: "\<lbrakk>moves ring key a b; moves ring key b c\<rbrakk> \<Longrightarrow> moves ring key a c"
  by (fastforce simp: moves_def split: option.splits)

lemma moves_put:
  assumes "get_ep en key = Some ep" "(ep_step ring)\<^sup>*\<^sup>* ep ep'"
    and "en_endpoints en' = en_endpoints (put_ep key ep' en)"
  shows "moves ring key en en'"
  using assms get_put_ep [of key ep' en] by (auto simp: moves_def)

lemma depth_pos: "0 < depth k" "depth k \<le> 32"
  by (cases k; simp add: depth_def)+

lemma submit_urb_moves:
  assumes "submit_urb ring key m req stage ep en = Some (out, en')" "get_ep en key = Some ep"
    and "ring_active ring (ep_ring ep)" "\<forall>g\<in>set (ep_in_flight ep). fl_result g = None"
    and "length (ep_in_flight ep) < depth (kind (ep_info ep))"
    and "if ep_in_flight ep = [] then ring_current ring (ep_ring ep) = (m, Some t)
         else ring_peek ring (ep_ring ep) (length (ep_in_flight ep)) = Some (m, t)"
    and "sr_length req \<le> message_length t"
  shows "moves ring key en en'"
  using assms(1)
proof (cases rule: submit_urb_cases)
  case (accepted q c st)
  let ?f = "\<lparr>fl_token = en_next_token en, fl_message = m, fl_stage = stage,
      fl_direction = sr_direction req, fl_length = sr_length req, fl_seqnum = q,
      fl_unlinking = False, fl_result = None\<rparr>"
  have "ep_step ring ep (ep\<lparr>ep_in_flight := ep_in_flight ep @ [?f]\<rparr>)"
    using assms(3-7) by (intro ep_step.send [where t = t]) auto
  from moves_put [OF assms(2) r_into_rtranclp [of "ep_step ring", OF this]] show ?thesis
    by (simp add: accepted(3) put_ep_def)
next
  case rejected
  then show ?thesis by simp
next
  case (completed e ok r)
  have "ep_step ring ep (ep\<lparr>ep_ring := r, ep_setup := ep_setup ep\<rparr>)"
    using assms(3,6) completed by (intro ep_step.acknowledge) auto
  then show ?thesis using assms(2) completed(4) by (intro moves_put) auto
qed

lemma fill_round_moves:
  assumes "fill_round ring key en = Some (out, en')" "get_ep en key = Some ep"
    and "ring_active ring (ep_ring ep)"
  shows "moves ring key en en' \<and> (\<exists>ep'. get_ep en' key = Some ep' \<and> ep_ring ep' = ep_ring ep)"
proof (cases "en' = en")
  case True
  with assms show ?thesis by simp
next
  case False
  then obtain m t req stage o' where
    p: "ring_peek ring (ep_ring ep) (length (ep_in_flight ep)) = Some (m, t)"
    and s: "submit_urb ring key m req stage ep en = Some (o', en')"
    and d: "data_request ring (speed (en_device en)) ep key (length (ep_in_flight ep)) t = Some (req, stage)"
    and c: "ep_in_flight ep \<noteq> []" "length (ep_in_flight ep) < depth (kind (ep_info ep))"
      "\<forall>g\<in>set (ep_in_flight ep). fl_result g = None"
    using assms(1,2)
    by (auto simp: fill_round_def Let_def bind_eq_Some_conv split: if_splits option.splits)
  have "moves ring key en en'"
    by (rule submit_urb_moves [OF s assms(2,3) c(3,2), where t = t])
      (use p c data_request_length [OF d] in simp_all)
  moreover have "\<exists>ep'. get_ep en' key = Some ep' \<and> ep_ring ep' = ep_ring ep"
    using s by (cases rule: submit_urb_cases) (use assms(2) c in \<open>auto simp: put_ep_def update_conv'\<close>)
  ultimately show ?thesis by blast
qed

lemma fill_moves:
  assumes "fill ring key en = Some (again, en')" "get_ep en key = Some ep"
    and "ring_active ring (ep_ring ep)"
  shows "moves ring key en en'"
proof -
  let ?ok = "\<lambda>en r. \<exists>ep. get_ep en key = Some ep \<and> ep_ring ep = r"
  let ?R = "\<lambda>a b. \<forall>r. ?ok a r \<longrightarrow> ring_active ring r \<longrightarrow> moves ring key a b \<and> ?ok b r"
  have "?R en (snd (again, en'))"
    using assms(1)
  proof (rule fill_rel [where R = ?R])
    fix a o' b
    assume "fill_round ring key a = Some (o', b)"
    then show "?R a b" using fill_round_moves by blast
  next
    fix a b c
    assume "?R a b" "?R b c"
    then show "?R a c" using moves_trans by blast
  qed
  then show ?thesis using assms(2,3) by simp
qed

lemma put_ep_same: "get_ep en key = Some ep \<Longrightarrow> put_ep key ep en = en"
proof -
  have "map_of m key = Some ep \<Longrightarrow> AList.update key ep m = m" for m :: "(EndpointKey, 'a Endpoint) amap"
    by (induction m) (auto split: if_splits)
  then show "get_ep en key = Some ep \<Longrightarrow> put_ep key ep en = en" by (simp add: put_ep_def)
qed

lemma submit_then_fill:
  assumes "Option.bind (submit_urb ring key head req stage ep en) (\<lambda>(outcome, en).
      case outcome of SFailed \<Rightarrow> Some (None, en) | SPump \<Rightarrow> Some (Some False, en)
      | SInFlight \<Rightarrow> Option.bind (fill ring key en)
          (\<lambda>(again, en). Some (if again then Some False else None, en))) = Some (again, en')"
  obtains out en1 where "submit_urb ring key head req stage ep en = Some (out, en1)"
    "case out of SFailed \<Rightarrow> en' = en1 \<and> again = None | SPump \<Rightarrow> en' = en1 \<and> again = Some False
     | SInFlight \<Rightarrow> \<exists>b. fill ring key en1 = Some (b, en') \<and> again = (if b then Some False else None)"
proof -
  obtain out en1 where s: "submit_urb ring key head req stage ep en = Some (out, en1)"
    using assms by (auto simp: bind_eq_Some_conv)
  have "case out of SFailed \<Rightarrow> en' = en1 \<and> again = None | SPump \<Rightarrow> en' = en1 \<and> again = Some False
      | SInFlight \<Rightarrow> \<exists>b. fill ring key en1 = Some (b, en') \<and> again = (if b then Some False else None)"
    using assms unfolding s Option.bind.simps prod.case
    by (cases out) (simp_all add: bind_eq_Some_conv split_beta, force)
  with s show thesis by (rule that)
qed

text \<open>A round with nothing in flight looks at the head message.\<close>

lemma pump_round_idle:
  assumes "pump_round ring key offline en = Some (again, en')" "get_ep en key = Some ep"
    and "ring_active ring (ep_ring ep)" "ep_in_flight ep = []"
  obtains (idle) "en' = en" "again = None"
  | (own) head t ep' ok where "ring_current ring (ep_ring ep) = (head, Some t)" "\<not> offline"
      "head_request ring (speed (en_device en)) ep key t = (if ok then NContinue else NStop, ep')"
      "en' = put_ep key ep' en" "again = (if ok then Some offline else None)"
  | (submit) head t req stage out en1 where
      "ring_current ring (ep_ring ep) = (head, Some t)" "\<not> offline"
      "head_request ring (speed (en_device en)) ep key t = (NSubmit req stage, ep)"
      "submit_urb ring key head req stage ep en = Some (out, en1)"
      "case out of SFailed \<Rightarrow> en' = en1 \<and> again = None | SPump \<Rightarrow> en' = en1 \<and> again = Some False
       | SInFlight \<Rightarrow> \<exists>b. fill ring key en1 = Some (b, en') \<and> again = (if b then Some False else None)"
proof -
  obtain head transfer where cur: "ring_current ring (ep_ring ep) = (head, transfer)" by fastforce
  note eq = assms(1) [unfolded pump_round_def] and pre = assms(2-4) cur
  show thesis
  proof (cases "transfer = None \<or> offline")
    case True
    with eq show thesis by (intro idle) (auto simp: pre split: option.splits)
  next
    case False
    then obtain t where t: "transfer = Some t" and off: "\<not> offline" by auto
    obtain nxt ep' where hr: "head_request ring (speed (en_device en)) ep key t = (nxt, ep')" by fastforce
    show thesis
    proof (cases nxt)
      case NContinue
      with eq t off hr show thesis by (intro own [of head t True]) (auto simp: pre)
    next
      case NStop
      with eq t off hr show thesis by (intro own [of head t False]) (auto simp: pre)
    next
      case (NSubmit req stage)
      have "ep' = ep" using hr NSubmit by (cases rule: head_request_cases) (auto split: if_splits)
      then have hr': "head_request ring (speed (en_device en)) ep key t = (NSubmit req stage, ep)"
        using hr NSubmit by simp
      show thesis
        by (rule submit_then_fill [of ring key head req stage ep en again en'])
          (use eq in \<open>simp add: pre t off hr' put_ep_same [OF assms(2)]\<close>,
            rule submit [OF cur [unfolded t] off hr'])
    qed
  qed
qed

text \<open>A round with URBs in flight looks at the oldest.\<close>

lemma pump_round_busy:
  assumes "pump_round ring key offline en = Some (again, en')" "get_ep en key = Some ep"
    and "ring_active ring (ep_ring ep)" "ep_in_flight ep = f # fs"
  obtains (idle) "en' = en" "again = None"
  | (give_up) "fl_message f \<noteq> fst (ring_current ring (ep_ring ep))"
      "unlink_all (f # fs) (put_ep key (ep\<lparr>ep_in_flight := []\<rparr>) en) = Some en'" "again = Some offline"
  | (deliver) res flow ep' w where "fl_message f = fst (ring_current ring (ep_ring ep))" "fl_result f = Some res"
      "apply_flight ring (ep\<lparr>ep_in_flight := fs\<rparr>) f res (en_uas_warned en) = (flow, ep', w)"
      "en' = (put_ep key ep' en)\<lparr>en_uas_warned := w\<rparr>"
      "again = (case flow of FContinue \<Rightarrow> Some offline | FOffline \<Rightarrow> Some True | FStop \<Rightarrow> None)"
  | (refill) b where "fl_message f = fst (ring_current ring (ep_ring ep))" "fl_result f = None" "\<not> offline"
      "fill ring key en = Some (b, en')" "again = (if b then Some False else None)"
proof -
  obtain head transfer where cur: "ring_current ring (ep_ring ep) = (head, transfer)" by fastforce
  note eq = assms(1) [unfolded pump_round_def] and pre = assms(2-4) cur
  show thesis
  proof (cases "fl_message f = head")
    case False
    with eq show thesis by (intro give_up) (auto simp: pre bind_eq_Some_conv)
  next
    case msg: True
    show thesis
    proof (cases "fl_result f")
      case None
      with eq msg show thesis
        by (cases offline) (auto simp: bind_eq_Some_conv pre intro: idle refill [OF _ None])
    next
      case (Some res)
      obtain flow ep' w where ap:
        "apply_flight ring (ep\<lparr>ep_in_flight := fs\<rparr>) f res (en_uas_warned en) = (flow, ep', w)"
        by (metis prod_cases3)
      with eq msg Some show thesis by (intro deliver [OF _ Some ap]) (auto simp: pre)
    qed
  qed
qed

lemma pump_round_cases:
  assumes "pump_round ring key offline en = Some (again, en')"
  obtains (idle) "en' = en" "again = None"
  | (give_up) ep f fs where "get_ep en key = Some ep" "ring_active ring (ep_ring ep)"
      "ep_in_flight ep = f # fs" "fl_message f \<noteq> fst (ring_current ring (ep_ring ep))"
      "unlink_all (f # fs) (put_ep key (ep\<lparr>ep_in_flight := []\<rparr>) en) = Some en'" "again = Some offline"
  | (deliver) ep f fs res flow ep' w where "get_ep en key = Some ep" "ring_active ring (ep_ring ep)"
      "ep_in_flight ep = f # fs" "fl_message f = fst (ring_current ring (ep_ring ep))"
      "fl_result f = Some res"
      "apply_flight ring (ep\<lparr>ep_in_flight := fs\<rparr>) f res (en_uas_warned en) = (flow, ep', w)"
      "en' = (put_ep key ep' en)\<lparr>en_uas_warned := w\<rparr>"
      "again = (case flow of FContinue \<Rightarrow> Some offline | FOffline \<Rightarrow> Some True | FStop \<Rightarrow> None)"
  | (refill) ep f fs b where "get_ep en key = Some ep" "ring_active ring (ep_ring ep)"
      "ep_in_flight ep = f # fs" "fl_message f = fst (ring_current ring (ep_ring ep))"
      "fl_result f = None" "\<not> offline" "fill ring key en = Some (b, en')"
      "again = (if b then Some False else None)"
  | (own) ep head t ep' ok where "get_ep en key = Some ep" "ring_active ring (ep_ring ep)"
      "ep_in_flight ep = []" "ring_current ring (ep_ring ep) = (head, Some t)" "\<not> offline"
      "head_request ring (speed (en_device en)) ep key t = (if ok then NContinue else NStop, ep')"
      "en' = put_ep key ep' en" "again = (if ok then Some offline else None)"
  | (submit) ep head t req stage out en1 where "get_ep en key = Some ep"
      "ring_active ring (ep_ring ep)" "ep_in_flight ep = []"
      "ring_current ring (ep_ring ep) = (head, Some t)" "\<not> offline"
      "head_request ring (speed (en_device en)) ep key t = (NSubmit req stage, ep)"
      "submit_urb ring key head req stage ep en = Some (out, en1)"
      "case out of SFailed \<Rightarrow> en' = en1 \<and> again = None | SPump \<Rightarrow> en' = en1 \<and> again = Some False
       | SInFlight \<Rightarrow> \<exists>b. fill ring key en1 = Some (b, en') \<and> again = (if b then Some False else None)"
proof (cases "\<exists>ep. get_ep en key = Some ep \<and> ring_active ring (ep_ring ep)")
  case False
  with assms show thesis by (intro idle) (auto simp: pump_round_def split: option.splits)
next
  case True
  then obtain ep where ep: "get_ep en key = Some ep" "ring_active ring (ep_ring ep)" by blast
  show thesis
  proof (cases "ep_in_flight ep")
    case Nil
    from assms ep Nil show thesis
      by (cases rule: pump_round_idle) (rule idle own [OF ep Nil] submit [OF ep Nil]; assumption)+
  next
    case (Cons f fs)
    from assms ep Cons show thesis
      by (cases rule: pump_round_busy)
        (rule idle give_up [OF ep Cons] deliver [OF ep Cons] refill [OF ep Cons]; assumption)+
  qed
qed

lemma pump_round_moves:
  assumes "pump_round ring key offline en = Some (again, en')"
  shows "moves ring key en en'"
  using assms
proof (cases rule: pump_round_cases)
  case idle
  then show ?thesis by simp
next
  case (give_up ep f fs)
  have "ep_step ring ep (ep\<lparr>ep_in_flight := []\<rparr>)" using give_up by (intro ep_step.give_up)
  then show ?thesis
    using give_up(1,5) by (intro moves_put [of en key ep ring "ep\<lparr>ep_in_flight := []\<rparr>"])
      (auto simp: unlink_all_Some)
next
  case (deliver ep f fs res flow ep' w)
  obtain data len ok r where ap:
    "ring_complete ring (ep_ring ep) (fst (outcome_of f res)) data len = (ok, r)"
    "ep' = ep\<lparr>ep_in_flight := fs, ep_ring := r, ep_setup := ep_setup ep', ep_hidden_config := ep_hidden_config ep'\<rparr>"
    "length data \<le> unat len" "len \<le> fl_length f" "data \<noteq> [] \<longrightarrow> fl_direction f = In"
    by (rule apply_flight_completes [OF deliver(6)]) simp
  have "ep_step ring ep ep'"
    by (subst ap(2), rule ep_step.deliver [OF deliver(2-5) ap(1,3-5)])
  then show ?thesis using deliver by (intro moves_put [of en key ep]) auto
next
  case (refill ep f fs b)
  then show ?thesis using fill_moves by blast
next
  case (own ep head t ep' ok)
  from own(6) have "(ep_step ring)\<^sup>*\<^sup>* ep ep'"
  proof (cases rule: head_request_cases)
    case (complete status ok' r)
    have "ep_step ring ep ep'"
      by (subst complete(2), rule ep_step.acknowledge [OF own(2-4) complete(1)])
    then show ?thesis by blast
  qed (auto split: if_splits)
  then show ?thesis using own by (intro moves_put [of en key ep]) auto
next
  case (submit ep head t req stage out en1)
  have m1: "moves ring key en en1"
    using submit depth_pos head_request_length [OF submit(6)] by (intro submit_urb_moves [OF submit(7,1,2), where t = t]) auto
  show ?thesis
  proof (cases out)
    case SInFlight
    then obtain b where b: "fill ring key en1 = Some (b, en')" using submit(8) by auto
    have "\<exists>ep1. get_ep en1 key = Some ep1 \<and> ep_ring ep1 = ep_ring ep"
      using submit(7) SInFlight by (cases rule: submit_urb_cases) (auto simp: put_ep_def update_conv' split: if_splits)
    with fill_moves [OF b] submit(2) have "moves ring key en1 en'" by auto
    with m1 show ?thesis by (rule moves_trans)
  qed (use submit(8) m1 in auto)
qed

lemma pump_moves: "pump ring key offline en = Some en' \<Longrightarrow> moves ring key en en'"
  by (erule pump_rel [where R = "moves ring key"]) (auto intro: pump_round_moves moves_trans)

section \<open>Termination\<close>

lemma submit_total:
  assumes "card (seqs_used st) < 2 ^ 32 - 1"
  shows "\<exists>r. submit req st = Some r"
  using next_seqnum_total [OF assms] by (auto simp: submit_def Let_def split: option.split)

lemma submit_card:
  assumes "submit req st = Some (res, st')"
  shows "card (seqs_used st') \<le> Suc (card (seqs_used st))"
proof (cases res)
  case (Inl e)
  with assms submit_Inl show ?thesis by fastforce
next
  case (Inr qc)
  then obtain q c where s: "submit req st = Some (Inr (q, c), st')" using assms by (cases qc) auto
  have "seqs_used st' = insert q (seqs_used st)" using submit_Inr(5) [OF s] by auto
  then show ?thesis by (simp add: card_insert_if)
qed

lemma unlink_seqs_card:
  "unlink_seqs ts st = Some st' \<Longrightarrow> card (seqs_used st') \<le> card (seqs_used st) + length ts"
proof (induction ts arbitrary: st)
  case (Cons t ts)
  then obtain s where "unlink t st = Some s" "unlink_seqs ts s = Some st'"
    by (auto simp: bind_eq_Some_conv)
  with Cons.IH unlink_card show ?case by fastforce
qed simp

lemma submit_urb_total:
  assumes "card (seqs_used (en_session en)) < 2 ^ 32 - 1"
  shows "\<exists>r. submit_urb ring key m req stage ep en = Some r"
proof -
  obtain res st where "submit req (en_session en) = Some (res, st)"
    using submit_total [OF assms, of req] by auto
  then show ?thesis by (auto simp: submit_urb_def Let_def split: sum.split prod.split)
qed

lemma fill_round_cases:
  assumes "fill_round ring key en = Some (out, en')"
  obtains (idle) "out = None" "en' = en"
  | (sent) ep m t req stage where "get_ep en key = Some ep" "ep_in_flight ep \<noteq> []"
      "length (ep_in_flight ep) < depth (kind (ep_info ep))"
      "\<forall>f\<in>set (ep_in_flight ep). fl_result f = None"
      "ring_peek ring (ep_ring ep) (length (ep_in_flight ep)) = Some (m, t)"
      "data_request ring (speed (en_device en)) ep key (length (ep_in_flight ep)) t = Some (req, stage)"
      "submit_urb ring key m req stage ep en = Some (SInFlight, en')" "out = Some SInFlight"
  | (failed) "out = Some SFailed" "en' = en"
proof (cases "out = None")
  case True
  with assms idle show thesis
    by (auto simp: fill_round_def Let_def bind_eq_Some_conv split: if_splits option.splits)
next
  case False
  then obtain ep m t req stage o' where *: "get_ep en key = Some ep" "ep_in_flight ep \<noteq> []"
      "length (ep_in_flight ep) < depth (kind (ep_info ep))"
      "\<forall>f\<in>set (ep_in_flight ep). fl_result f = None"
      "ring_peek ring (ep_ring ep) (length (ep_in_flight ep)) = Some (m, t)"
      "data_request ring (speed (en_device en)) ep key (length (ep_in_flight ep)) t = Some (req, stage)"
      "submit_urb ring key m req stage ep en = Some (o', en')" "out = Some o'"
    using assms
    by (auto simp: fill_round_def Let_def bind_eq_Some_conv split: if_splits option.splits)
  from *(7) show thesis
  proof (cases rule: submit_urb_cases)
    case (accepted q c st)
    with * sent show thesis by simp
  next
    case (rejected e)
    with * failed show thesis by simp
  qed (use * in simp)
qed

lemma fill_never_pumps: "fill ring key en = Some (again, en') \<Longrightarrow> \<not> again"
proof -
  have "\<not> fst r" if "fill ring key en = Some r" for r
    using that
  proof (rule fill.raw_induct [where P = "\<lambda>_ _ _ r. \<not> fst r", rotated])
    fix f :: "'a Ring \<Rightarrow> EndpointKey \<Rightarrow> 'a Engine \<Rightarrow> (bool \<times> 'a Engine) option" and g k e r
    assume IH: "\<And>g k e r. f g k e = Some r \<Longrightarrow> \<not> fst r"
      and eq: "Option.bind (fill_round g k e) (\<lambda>(outcome, en).
         case outcome of None \<Rightarrow> Some (False, en) | Some SInFlight \<Rightarrow> f g k en
         | Some SFailed \<Rightarrow> Some (False, en) | Some SPump \<Rightarrow> Some (True, en)) = Some r"
    then obtain o' e' where fr: "fill_round g k e = Some (o', e')" by (auto simp: bind_eq_Some_conv)
    from fr show "\<not> fst r"
      by (cases rule: fill_round_cases) (use eq fr IH in auto)
  qed
  then show "fill ring key en = Some (again, en') \<Longrightarrow> \<not> again" by fastforce
qed

lemma fill_total:
  "\<lbrakk>get_ep en key = Some ep;
    card (seqs_used (en_session en)) + (depth (kind (ep_info ep)) - length (ep_in_flight ep)) < 2 ^ 32 - 1\<rbrakk> \<Longrightarrow>
   \<exists>r. fill ring key en = Some r"
proof (induction "depth (kind (ep_info ep)) - length (ep_in_flight ep)" arbitrary: en ep rule: less_induct)
  case less
  have su: "\<exists>o' e'. Option.bind (submit_urb ring key m req stage ep en)
      (\<lambda>(outcome, en). Some (Some outcome, en)) = Some (o', e')"
    if "length (ep_in_flight ep) < depth (kind (ep_info ep))" for m req stage
  proof -
    have "card (seqs_used (en_session en)) < 2 ^ 32 - 1" using less.prems(2) that by linarith
    then show ?thesis using submit_urb_total [of en ring key m req stage ep] by auto
  qed
  have "\<exists>r. fill_round ring key en = Some r"
    using less.prems su by (auto simp: fill_round_def Let_def split: option.split)
  then obtain out en' where fr: "fill_round ring key en = Some (out, en')" by auto
  then show ?case
  proof (cases rule: fill_round_cases)
    case idle
    then show ?thesis using fr by (subst fill.simps) auto
  next
    case failed
    then show ?thesis using fr by (subst fill.simps) auto
  next
    case (sent ep0 m t req stage)
    then have ep0: "ep0 = ep" using less.prems by simp
    from sent(7) show ?thesis
    proof (cases rule: submit_urb_cases)
      case (accepted q c st)
      let ?f = "\<lparr>fl_token = en_next_token en, fl_message = m, fl_stage = stage,
          fl_direction = sr_direction req, fl_length = sr_length req, fl_seqnum = q,
          fl_unlinking = False, fl_result = None\<rparr>"
      let ?ep = "ep\<lparr>ep_in_flight := ep_in_flight ep @ [?f]\<rparr>"
      have ep': "get_ep en' key = Some ?ep"
        using accepted(3) ep0 by (simp add: put_ep_def update_conv')
      have "card (seqs_used (en_session en')) \<le> Suc (card (seqs_used (en_session en)))"
        using submit_card [OF accepted(1)] accepted(3) by simp
      then have "card (seqs_used (en_session en')) + (depth (kind (ep_info ?ep)) - length (ep_in_flight ?ep)) < 2 ^ 32 - 1"
        using less.prems(2) sent(3) ep0 by simp
      moreover have "depth (kind (ep_info ?ep)) - length (ep_in_flight ?ep) <
          depth (kind (ep_info ep)) - length (ep_in_flight ep)" using sent(3) ep0 by simp
      ultimately obtain r where "fill ring key en' = Some r" using less.hyps [OF _ ep'] by blast
      then show ?thesis using fr sent(8) by (subst fill.simps) simp
    qed (auto split: if_splits)
  qed
qed

text \<open>The ring's promise that a completed message leaves it.\<close>

locale transfer_ring =
  fixes ring :: "'r Ring" and messages :: "'r \<Rightarrow> nat"
  assumes complete_removes:
    "ring_complete ring r status data len = (True, r') \<Longrightarrow> messages r' < messages r"
begin

definition work :: "'r Endpoint \<Rightarrow> nat" where
  "work ep = 2 * messages (ep_ring ep) + (if ep_in_flight ep = [] then 0 else 1)"

abbreviation load :: "'r Engine \<Rightarrow> 'r Endpoint \<Rightarrow> nat" where
  "load en ep \<equiv> card (seqs_used (en_session en)) + length (ep_in_flight ep)"

lemma pump_round_work:
  assumes "pump_round ring key offline en = Some (Some off', en')" "get_ep en key = Some ep"
  shows "\<exists>ep'. get_ep en' key = Some ep' \<and> work ep' < work ep \<and> load en' ep' \<le> load en ep"
  using assms(1)
proof (cases rule: pump_round_cases)
  case (give_up ep0 f fs)
  then obtain st where st: "unlink_flights (f # fs) (en_session en) = Some st"
    and en': "en' = (put_ep key (ep0\<lparr>ep_in_flight := []\<rparr>) en)\<lparr>en_session := st\<rparr>"
    by (auto simp: unlink_all_Some)
  have "card (seqs_used st) \<le> card (seqs_used (en_session en)) +
      length (filter (\<lambda>f. fl_result f = None) (f # fs))"
    using unlink_seqs_card st unfolding unlink_flights_seqs by fastforce
  then have "card (seqs_used st) \<le> card (seqs_used (en_session en)) + length (f # fs)"
    by (rule le_trans) (simp add: le_SucI)
  then show ?thesis using give_up(1,3) assms(2) en' by (simp add: work_def)
next
  case (deliver ep0 f fs res flow ep' w)
  obtain data len ok r where ap:
    "ring_complete ring (ep_ring ep0) (fst (outcome_of f res)) data len = (ok, r)"
    "ep' = ep0\<lparr>ep_in_flight := fs, ep_ring := r, ep_setup := ep_setup ep', ep_hidden_config := ep_hidden_config ep'\<rparr>"
    "flow = (if \<not> ok then FStop else if fst (outcome_of f res) = StOffline then FOffline else FContinue)"
    by (rule apply_flight_completes [OF deliver(6)]) simp
  have ok using deliver(8) ap(3) by (auto split: if_splits)
  then have "messages r < messages (ep_ring ep0)" using ap(1) complete_removes by simp
  moreover have "ep_ring ep' = r" "ep_in_flight ep' = fs" by (subst ap(2), simp)+
  ultimately show ?thesis using deliver(1,3,7) assms(2) by (simp add: work_def)
next
  case (refill ep0 f fs b)
  then show ?thesis using fill_never_pumps [of ring key en b en'] by (simp split: if_splits)
next
  case (own ep0 head t ep' ok)
  have ok using own(8) by (simp split: if_splits)
  from own(6) show ?thesis
  proof (cases rule: head_request_cases)
    case (complete status ok' r)
    then have "messages r < messages (ep_ring ep0)" using \<open>ok\<close> complete_removes by (auto split: if_splits)
    moreover have "ep_ring ep' = r" "ep_in_flight ep' = ep_in_flight ep0" by (subst complete(2), simp)+
    ultimately show ?thesis using own(1,3,7) assms(2) by (simp add: work_def)
  qed (use \<open>ok\<close> in auto)
next
  case (submit ep0 head t req stage out en1)
  from submit(8) have out: "out = SPump" and en1: "en' = en1"
    using fill_never_pumps [of ring key en1 True en']
    by (auto split: submit_outcome.splits if_splits)
  from submit(7) show ?thesis
  proof (cases rule: submit_urb_cases)
    case (completed e ok r)
    then have "messages r < messages (ep_ring ep0)" using out complete_removes by (auto split: if_splits)
    then show ?thesis using completed(4) submit(1,3) assms(2) en1 by (simp add: work_def)
  qed (use out in auto)
qed simp

lemma submit_fill_total:
  assumes "load en ep + 33 < 2 ^ 32 - 1"
  shows "\<exists>r. Option.bind (submit_urb ring key m req stage ep en) (\<lambda>(outcome, en).
      case outcome of SFailed \<Rightarrow> Some (None, en) | SPump \<Rightarrow> Some (Some False, en)
      | SInFlight \<Rightarrow> Option.bind (fill ring key en)
          (\<lambda>(again, en). Some (if again then Some False else None, en))) = Some r"
proof -
  have "card (seqs_used (en_session en)) < 2 ^ 32 - 1" using assms by linarith
  then obtain out en1 where s: "submit_urb ring key m req stage ep en = Some (out, en1)"
    using submit_urb_total [of en ring key m req stage ep] by auto
  have "\<exists>r. fill ring key en1 = Some r" if "out = SInFlight"
    using s
  proof (cases rule: submit_urb_cases)
    case (accepted q c st)
    have "card (seqs_used (en_session en1)) \<le> Suc (card (seqs_used (en_session en)))"
      using submit_card [OF accepted(1)] accepted(3) by simp
    moreover obtain ep1 where ep1: "get_ep en1 key = Some ep1"
      using accepted(3) by (simp add: put_ep_def update_conv')
    ultimately show ?thesis
      using assms depth_pos(2) [of "kind (ep_info ep1)"] by (intro fill_total [OF ep1]) linarith
  qed (use that in \<open>auto split: if_splits\<close>)
  then show ?thesis using s by (cases out) auto
qed

lemma pump_round_total:
  assumes "get_ep en key = Some ep" "load en ep + 33 < 2 ^ 32 - 1"
  shows "\<exists>r. pump_round ring key offline en = Some r"
proof -
  obtain head transfer where cur: "ring_current ring (ep_ring ep) = (head, transfer)" by fastforce
  show ?thesis
  proof (cases "ep_in_flight ep")
    case (Cons f fs)
    have "card (seqs_used (en_session en)) + length (filter (\<lambda>f. fl_result f = None) (ep_in_flight ep))
        < 2 ^ 32 - 1"
      using assms(2) length_filter_le [of "\<lambda>f. fl_result f = None" "ep_in_flight ep"] by linarith
    then obtain st where "unlink_flights (f # fs) (en_session en) = Some st"
      unfolding Cons [symmetric] unlink_flights_seqs
      using unlink_seqs_total [of "en_session en"
          "map fl_seqnum (filter (\<lambda>f. fl_result f = None) (ep_in_flight ep))"] by auto
    then have "unlink_all (f # fs) (put_ep key ep0 en) = Some ((put_ep key ep0 en)\<lparr>en_session := st\<rparr>)" for ep0
      unfolding unlink_all_Some by simp
    moreover have "\<exists>r. fill ring key en = Some r"
      using assms depth_pos(2) [of "kind (ep_info ep)"] by (intro fill_total [OF assms(1)]) linarith
    ultimately show ?thesis
      by (auto simp: pump_round_def assms(1) cur Cons Let_def split_beta split: option.split)
  next
    case Nil
    show ?thesis
    proof (cases transfer)
      case None
      then show ?thesis by (simp add: pump_round_def assms(1) cur Nil)
    next
      case (Some t)
      obtain nxt ep' where hr: "head_request ring (speed (en_device en)) ep key t = (nxt, ep')" by fastforce
      from hr show ?thesis
      proof (cases rule: head_request_cases)
        case (submit req stage)
        then show ?thesis
          using hr submit_fill_total [OF assms(2), of key head req stage] put_ep_same [OF assms(1)]
          by (simp add: pump_round_def assms(1) cur Nil Some)
      qed (simp_all add: pump_round_def assms(1) cur Nil Some hr)
    qed
  qed
qed

lemma pump_terminates:
  "\<lbrakk>get_ep en key = Some ep; load en ep + 33 < 2 ^ 32 - 1\<rbrakk> \<Longrightarrow>
     \<exists>en'. pump ring key offline en = Some en'"
proof (induction "work ep" arbitrary: en ep offline rule: less_induct)
  case less
  obtain again en' where pr: "pump_round ring key offline en = Some (again, en')"
    using pump_round_total [OF less.prems] by fastforce
  show ?case
  proof (cases again)
    case None
    then show ?thesis using pr by (subst pump.simps) simp
  next
    case (Some off')
    then obtain ep' where ep': "get_ep en' key = Some ep'" "work ep' < work ep" "load en' ep' \<le> load en ep"
      using pump_round_work [of key offline en off' en'] pr less.prems(1) by blast
    then obtain r where "pump ring key off' en' = Some r"
      using less.hyps [OF ep'(2,1)] less.prems(2) by fastforce
    then show ?thesis using pr Some by (subst pump.simps) simp
  qed
qed

end

end
