(* ===== verification/Engine_System.thy ===== *)
theory Engine_System
  imports Engine
begin

text \<open>
  The engine in its environment: the invariant that ties URBs in flight, waiting tasks and the
  session's replies together, its preservation by every operation, and the step relation that
  interleaves the engine's operations with the session, the host and finished replies.
\<close>

section \<open>The engine invariant\<close>

text \<open>
  A URB that is still on the server has a task waiting for it, on the reply channel that the
  session will answer or has answered; tokens identify the URBs of an endpoint and are never
  used again; at most 32 are in flight. Tokens are 64 bits wide, so this is stated for fewer
  than \<open>2 ^ 64\<close> transfers: the session counts the accepted ones in \<open>next_chan\<close>.
\<close>

definition flight_ok :: "'r Engine \<Rightarrow> EndpointKey \<Rightarrow> InFlight \<Rightarrow> bool" where
  "flight_ok en key f \<longleftrightarrow> unat (fl_token f) < unat (en_next_token en) \<and>
     (fl_result f = None \<longrightarrow>
       (\<exists>ch. (ch, key, fl_token f) \<in> set (en_waiters en) \<and>
          ((fl_seqnum f, ch) \<in> waiting_on (en_session en) \<or> ch \<in> keys (replies (en_session en)))))"

definition endpoint_ok :: "'r Engine \<Rightarrow> EndpointKey \<Rightarrow> 'r Endpoint \<Rightarrow> bool" where
  "endpoint_ok en key ep \<longleftrightarrow> distinct (map fl_token (ep_in_flight ep)) \<and>
     length (ep_in_flight ep) \<le> 32 \<and> (\<forall>f\<in>set (ep_in_flight ep). flight_ok en key f)"

definition waiters_ok :: "'r Engine \<Rightarrow> bool" where
  "waiters_ok en \<longleftrightarrow> unat (en_next_token en) \<le> next_chan (en_session en) \<and>
     distinct (map (snd \<circ> snd) (en_waiters en)) \<and>
     (\<forall>w\<in>set (en_waiters en). unat (snd (snd w)) < unat (en_next_token en))"

definition engine_inv :: "'r Engine \<Rightarrow> bool" where
  "engine_inv en \<longleftrightarrow> wf_amap (en_endpoints en) \<and> session_inv (en_session en) \<and> waiters_ok en \<and>
     (\<forall>key ep. get_ep en key = Some ep \<longrightarrow> endpoint_ok en key ep)"

lemma engine_invD:
  assumes "engine_inv en"
  shows "wf_amap (en_endpoints en)" "session_inv (en_session en)" "waiters_ok en"
    "get_ep en key = Some ep \<Longrightarrow> endpoint_ok en key ep"
  using assms unfolding engine_inv_def by blast+

lemma engine_invI:
  assumes "wf_amap (en_endpoints en)" "session_inv (en_session en)" "waiters_ok en"
    and "\<And>key ep. get_ep en key = Some ep \<Longrightarrow> endpoint_ok en key ep"
  shows "engine_inv en"
  using assms unfolding engine_inv_def by blast

definition few_transfers :: "'r Engine \<Rightarrow> bool" where
  "few_transfers en \<longleftrightarrow> next_chan (en_session en) < 2 ^ 64"

text \<open>Preservation, as a transitive relation that the loop rules accept.\<close>

definition keeps_inv :: "'r Engine \<Rightarrow> 'r Engine \<Rightarrow> bool" where
  "keeps_inv en en' \<longleftrightarrow> next_chan (en_session en) \<le> next_chan (en_session en') \<and>
     (engine_inv en \<longrightarrow> few_transfers en' \<longrightarrow> engine_inv en')"

lemma keeps_inv_refl [simp]: "keeps_inv en en"
  by (simp add: keeps_inv_def)

lemma keeps_inv_trans: "\<lbrakk>keeps_inv a b; keeps_inv b c\<rbrakk> \<Longrightarrow> keeps_inv a c"
  by (auto simp: keeps_inv_def few_transfers_def)

text \<open>What the session may do while the engine's own records stay as they are.\<close>

definition session_goes :: "Shared \<Rightarrow> Shared \<Rightarrow> bool" where
  "session_goes st st' \<longleftrightarrow> (session_inv st \<longrightarrow> session_inv st') \<and> next_chan st \<le> next_chan st' \<and>
     keys (replies st) \<subseteq> keys (replies st') \<and>
     (session_inv st \<longrightarrow> (\<forall>q ch. (q, ch) \<in> waiting_on st \<longrightarrow> (q, ch) \<in> waiting_on st' \<or> ch \<in> keys (replies st')))"

lemma flight_ok_session:
  assumes ok: "flight_ok en key f" and go: "session_goes (en_session en) (en_session en')"
    and inv: "session_inv (en_session en)"
    and eq: "en_waiters en' = en_waiters en" "en_next_token en' = en_next_token en"
  shows "flight_ok en' key f"
  unfolding flight_ok_def eq
proof (intro conjI impI)
  show "unat (fl_token f) < unat (en_next_token en)" using ok by (simp add: flight_ok_def)
  assume "fl_result f = None"
  then obtain ch where w: "(ch, key, fl_token f) \<in> set (en_waiters en)"
    and c: "(fl_seqnum f, ch) \<in> waiting_on (en_session en) \<or> ch \<in> keys (replies (en_session en))"
    using ok unfolding flight_ok_def by blast
  have "(fl_seqnum f, ch) \<in> waiting_on (en_session en') \<or> ch \<in> keys (replies (en_session en'))"
    using c go inv unfolding session_goes_def by blast
  with w show "\<exists>ch. (ch, key, fl_token f) \<in> set (en_waiters en) \<and>
      ((fl_seqnum f, ch) \<in> waiting_on (en_session en') \<or> ch \<in> keys (replies (en_session en')))"
    by blast
qed

text \<open>A list of URBs that comes from another by dropping and finishing some.\<close>

definition sub_flights :: "InFlight list \<Rightarrow> InFlight list \<Rightarrow> bool" where
  "sub_flights fs gs \<longleftrightarrow> length fs \<le> length gs \<and>
     (distinct (map fl_token gs) \<longrightarrow> distinct (map fl_token fs)) \<and>
     (\<forall>f\<in>set fs. \<exists>g\<in>set gs. fl_token f = fl_token g \<and> fl_seqnum f = fl_seqnum g \<and>
        (fl_result f = None \<longrightarrow> fl_result g = None))"

lemma sub_flights_refl [simp]: "sub_flights fs fs"
  by (auto simp: sub_flights_def)

lemma sub_flights_Nil [simp]: "sub_flights [] fs"
  by (simp add: sub_flights_def)

lemma sub_flights_tl [simp]: "sub_flights fs (f # fs)"
  by (auto simp: sub_flights_def)

lemma flight_ok_same:
  "\<lbrakk>flight_ok en key g; fl_token f = fl_token g; fl_seqnum f = fl_seqnum g;
    fl_result f = None \<longrightarrow> fl_result g = None\<rbrakk> \<Longrightarrow> flight_ok en key f"
  by (simp add: flight_ok_def)

lemma keeps_inv_shrink:
  assumes go: "session_goes (en_session en) (en_session en')"
    and eq: "en_waiters en' = en_waiters en" "en_next_token en' = en_next_token en"
    and wf: "wf_amap (en_endpoints en) \<Longrightarrow> wf_amap (en_endpoints en')"
    and sub: "\<And>k ep'. get_ep en' k = Some ep' \<Longrightarrow> ep_in_flight ep' = [] \<or>
      (\<exists>ep. get_ep en k = Some ep \<and> sub_flights (ep_in_flight ep') (ep_in_flight ep))"
  shows "keeps_inv en en'"
  unfolding keeps_inv_def
proof (intro conjI impI)
  show "next_chan (en_session en) \<le> next_chan (en_session en')"
    using go by (simp add: session_goes_def)
next
  assume inv: "engine_inv en"
  note si = engine_invD(2) [OF inv]
  show "engine_inv en'"
  proof (rule engine_invI)
    show "wf_amap (en_endpoints en')" using wf engine_invD(1) [OF inv] .
    show "session_inv (en_session en')" using go si by (simp add: session_goes_def)
    show "waiters_ok en'"
      using engine_invD(3) [OF inv] go by (simp add: waiters_ok_def eq session_goes_def)
  next
    fix k ep'
    assume "get_ep en' k = Some ep'"
    from sub [OF this] show "endpoint_ok en' k ep'"
    proof
      assume "\<exists>ep. get_ep en k = Some ep \<and> sub_flights (ep_in_flight ep') (ep_in_flight ep)"
      then obtain ep where ep: "get_ep en k = Some ep"
        and s: "sub_flights (ep_in_flight ep') (ep_in_flight ep)" by blast
      have ok: "endpoint_ok en k ep" using engine_invD(4) [OF inv ep] .
      have "flight_ok en' k f" if "f \<in> set (ep_in_flight ep')" for f
      proof -
        obtain g where g: "g \<in> set (ep_in_flight ep)" "fl_token f = fl_token g"
          "fl_seqnum f = fl_seqnum g" "fl_result f = None \<longrightarrow> fl_result g = None"
          using s \<open>f \<in> set (ep_in_flight ep')\<close> unfolding sub_flights_def by blast
        then have "flight_ok en k g" using ok by (simp add: endpoint_ok_def)
        from flight_ok_same [OF flight_ok_session [OF this go si eq] g(2-4)] show ?thesis .
      qed
      with ok s show ?thesis by (simp add: endpoint_ok_def sub_flights_def)
    qed (simp add: endpoint_ok_def)
  qed
qed

lemma session_goes_refl [simp]: "session_goes st st"
  by (simp add: session_goes_def)

lemma session_goes_trans: "\<lbrakk>session_goes a b; session_goes b c\<rbrakk> \<Longrightarrow> session_goes a c"
  unfolding session_goes_def by (meson order_trans subset_eq)

lemma unlink_goes: "unlink t st = Some st' \<Longrightarrow> session_goes st st'"
proof -
  assume u: "unlink t st = Some st'"
  then have "replies st' = replies st" "next_chan st' = next_chan st"
    by (elim unlink_cases; simp)+
  then show ?thesis
    using u sess.unlink_keeps [OF u] session_inv_unlink [OF _ u] by (simp add: session_goes_def)
qed

lemma unlink_flights_goes: "unlink_flights fs st = Some st' \<Longrightarrow> session_goes st st'"
proof (induction fs arbitrary: st)
  case (Cons f fs)
  then show ?case
    by (auto simp: bind_eq_Some_conv split: if_splits intro: session_goes_trans unlink_goes)
qed simp

lemma submit_goes:
  assumes "submit req st = Some (res, st')"
  shows "session_goes st st'"
proof (cases res)
  case (Inl e)
  with assms show ?thesis using submit_Inl by fastforce
next
  case (Inr qc)
  then obtain q c where s: "submit req st = Some (Inr (q, c), st')" using assms by (cases qc) auto
  have "session_inv st \<Longrightarrow> waiting_on st' = insert (q, c) (waiting_on st)"
    using sess.submit_accepted [OF _ s] by simp
  then show ?thesis
    using submit_Inr(5) [OF s] submit_Inr(4) [OF s] session_inv_submit [OF _ s]
    by (auto simp: session_goes_def)
qed

lemma keeps_inv_submit:
  assumes "submit req (en_session en) = Some (Inr (q, c), st)" "get_ep en key = Some ep"
    and "length (ep_in_flight ep) < 32" "fl_token f = en_next_token en" "fl_seqnum f = q"
    and en': "en' = (put_ep key (ep\<lparr>ep_in_flight := ep_in_flight ep @ [f]\<rparr>) (en\<lparr>en_session := st\<rparr>))
          \<lparr>en_next_token := en_next_token en + 1,
           en_waiters := en_waiters en @ [(c, key, en_next_token en)]\<rparr>"
  shows "keeps_inv en en'"
  unfolding keeps_inv_def
proof (intro conjI impI)
  show "next_chan (en_session en) \<le> next_chan (en_session en')"
    using submit_goes [OF assms(1)] by (simp add: session_goes_def en')
next
  assume inv: "engine_inv en" and few: "few_transfers en'"
  then have si: "session_inv (en_session en)" by (simp add: engine_inv_def)
  have chan: "next_chan st = Suc (next_chan (en_session en))"
    using submit_Inr(4,5) [OF assms(1)] by simp
  have lt: "unat (en_next_token en) \<le> next_chan (en_session en)" using engine_invD(3) [OF inv] by (simp add: waiters_ok_def)
  have "Suc (unat (en_next_token en)) < 2 ^ 64" using few chan lt by (simp add: few_transfers_def en')
  then have tok: "unat (en_next_token en + 1) = Suc (unat (en_next_token en))"
    by (simp add: unat_word_ariths)
  have wait: "waiting_on st = insert (q, c) (waiting_on (en_session en))"
    using sess.submit_accepted [OF si assms(1)] by simp
  have old: "flight_ok en' k g" if "flight_ok en k g" for k g
  proof -
    have "unat (fl_token g) < unat (en_next_token en')" using that tok by (simp add: flight_ok_def en')
    moreover have "replies st = replies (en_session en)" using submit_Inr(5) [OF assms(1)] by simp
    ultimately show ?thesis using that wait unfolding flight_ok_def by (auto simp: en')
  qed
  have new: "flight_ok en' key f" using assms(4,5) wait tok by (auto simp: flight_ok_def en')
  have fresh: "fl_token g \<noteq> en_next_token en" if "flight_ok en k g" for k g
    using that by (auto simp: flight_ok_def)
  show "engine_inv en'"
  proof (rule engine_invI)
    show "wf_amap (en_endpoints en')" using engine_invD(1) [OF inv] by (simp add: en' put_ep_def distinct_update)
    show "session_inv (en_session en')" using session_inv_submit [OF si assms(1)] by (simp add: en')
    show "waiters_ok en'"
      using engine_invD(3) [OF inv] chan tok by (auto simp: waiters_ok_def en' less_Suc_eq)
  next
    fix k ep'
    assume g: "get_ep en' k = Some ep'"
    show "endpoint_ok en' k ep'"
    proof (cases "k = key")
      case True
      then have fl: "ep_in_flight ep' = ep_in_flight ep @ [f]"
        using g by (auto simp: en' put_ep_def update_conv')
      have ok: "endpoint_ok en key ep" using engine_invD(4) [OF inv assms(2)] .
      then have "en_next_token en \<notin> fl_token ` set (ep_in_flight ep)"
        using fresh [of key] unfolding endpoint_ok_def image_iff by metis
      with ok assms(3,4) old new True show ?thesis unfolding endpoint_ok_def fl by simp
    next
      case False
      then have "get_ep en k = Some ep'" using g by (simp add: en' put_ep_def update_conv')
      from engine_invD(4) [OF inv this] old show ?thesis by (simp add: endpoint_ok_def)
    qed
  qed
qed

lemma keeps_inv_put:
  assumes "get_ep en key = Some ep" "sub_flights (ep_in_flight ep') (ep_in_flight ep)"
    and "session_goes (en_session en) (en_session en')"
    and "en_endpoints en' = en_endpoints (put_ep key ep' en)"
    and "en_waiters en' = en_waiters en" "en_next_token en' = en_next_token en"
  shows "keeps_inv en en'"
proof (rule keeps_inv_shrink [OF assms(3,5,6)])
  show "wf_amap (en_endpoints en')" if "wf_amap (en_endpoints en)" using that by (simp add: assms(4))
next
  fix k e
  assume "get_ep en' k = Some e"
  then have "get_ep (put_ep key ep' en) k = Some e" by (simp add: assms(4))
  then show "ep_in_flight e = [] \<or> (\<exists>ep. get_ep en k = Some ep \<and> sub_flights (ep_in_flight e) (ep_in_flight ep))"
    using assms(1,2) by (auto split: if_splits)
qed

lemma submit_urb_keeps:
  assumes "submit_urb ring key m req stage ep en = Some (out, en')" "get_ep en key = Some ep"
    and "length (ep_in_flight ep) < depth (kind (ep_info ep))"
  shows "keeps_inv en en'"
  using assms(1)
proof (cases rule: submit_urb_cases)
  case (accepted q c st)
  have "length (ep_in_flight ep) < 32" using assms(3) depth_pos(2) less_le_trans by blast
  from keeps_inv_submit [OF accepted(1) assms(2) this _ _ accepted(3)] show ?thesis by simp
next
  case rejected
  then show ?thesis by simp
next
  case (completed e ok r)
  then show ?thesis using assms(2) by (intro keeps_inv_put [of en key ep]) auto
qed

lemma fill_keeps: "fill ring key en = Some (again, en') \<Longrightarrow> keeps_inv en en'"
proof -
  assume f: "fill ring key en = Some (again, en')"
  have "keeps_inv en (snd (again, en'))"
    using f
  proof (rule fill_rel [where R = keeps_inv])
    fix a :: "'a Engine" and o' b
    assume "fill_round ring key a = Some (o', b)"
    then show "keeps_inv a b"
      by (cases rule: fill_round_cases) (auto intro: submit_urb_keeps)
  qed (rule keeps_inv_trans)
  then show ?thesis by simp
qed

lemma pump_round_keeps:
  assumes "pump_round ring key offline en = Some (again, en')"
  shows "keeps_inv en en'"
  using assms
proof (cases rule: pump_round_cases)
  case idle
  then show ?thesis by simp
next
  case (give_up ep f fs)
  then obtain st where st: "unlink_flights (f # fs) (en_session en) = Some st"
    and en': "en' = (put_ep key (ep\<lparr>ep_in_flight := []\<rparr>) en)\<lparr>en_session := st\<rparr>"
    by (auto simp: unlink_all_Some)
  show ?thesis
    using unlink_flights_goes [OF st] give_up(1)
    by (intro keeps_inv_put [of en key ep "ep\<lparr>ep_in_flight := []\<rparr>"]) (simp_all add: en')
next
  case (deliver ep f fs res flow ep' w)
  obtain r where ap:
    "ep' = ep\<lparr>ep_in_flight := fs, ep_ring := r, ep_setup := ep_setup ep', ep_hidden_config := ep_hidden_config ep'\<rparr>"
    by (rule apply_flight_completes [OF deliver(6)]) simp
  have "ep_in_flight ep' = fs" by (subst ap) simp
  then show ?thesis using deliver(1,3,7) by (intro keeps_inv_put [of en key ep ep']) simp_all
next
  case (refill ep f fs b)
  then show ?thesis using fill_keeps by blast
next
  case (own ep head t ep' ok)
  from own(6) have "ep_in_flight ep' = ep_in_flight ep"
  proof (cases rule: head_request_cases)
    case (complete status ok' r)
    show ?thesis by (subst complete(2)) simp
  qed (auto split: if_splits)
  then show ?thesis using own(1,7) by (intro keeps_inv_put [of en key ep ep']) simp_all
next
  case (submit ep head t req stage out en1)
  have k1: "keeps_inv en en1"
    using submit_urb_keeps [OF submit(7,1)] submit(3) depth_pos by simp
  show ?thesis
  proof (cases out)
    case SInFlight
    then obtain b where "fill ring key en1 = Some (b, en')" using submit(8) by auto
    with k1 fill_keeps keeps_inv_trans show ?thesis by blast
  qed (use submit(8) k1 in auto)
qed

lemma pump_keeps: "pump ring key offline en = Some en' \<Longrightarrow> keeps_inv en en'"
  by (erule pump_rel [where R = keeps_inv]) (auto intro: pump_round_keeps keeps_inv_trans)

text \<open>Dropping the task of a URB that is no longer waited for.\<close>

lemma drop_waiter:
  assumes inv: "engine_inv en"
    and no: "\<And>ep f. \<lbrakk>get_ep en key = Some ep; f \<in> set (ep_in_flight ep); fl_result f = None\<rbrakk> \<Longrightarrow>
      fl_token f \<noteq> token"
  shows "engine_inv (en\<lparr>en_waiters := remove1 (ch, key, token) (en_waiters en)\<rparr>)"
    (is "engine_inv ?en")
proof (rule engine_invI)
  show "wf_amap (en_endpoints ?en)" "session_inv (en_session ?en)"
    using engine_invD(1,2) [OF inv] by simp_all
  show "waiters_ok ?en"
    using engine_invD(3) [OF inv] notin_set_remove1
    by (auto simp: waiters_ok_def distinct_map distinct_remove1 inj_on_def dest: notin_set_remove1)
next
  fix k ep
  assume g: "get_ep ?en k = Some ep"
  then have g': "get_ep en k = Some ep" by simp
  note ok = engine_invD(4) [OF inv g']
  have "flight_ok ?en k f" if f: "f \<in> set (ep_in_flight ep)" for f
  proof -
    have "flight_ok en k f" using ok f by (simp add: endpoint_ok_def)
    moreover have "(c, k, fl_token f) \<noteq> (ch, key, token)" if "fl_result f = None" for c
      using no [of ep f] g' f that by auto
    ultimately show ?thesis by (auto simp: flight_ok_def)
  qed
  with ok show "endpoint_ok ?en k ep" by (simp add: endpoint_ok_def)
qed

lemma finish_shape:
  assumes "finish ring key token res en = Some en'" "get_ep en key = Some ep"
  obtains (stale) "en' = en" "token \<notin> fl_token ` set (ep_in_flight ep)"
  | (retry) before f later st where "ep_in_flight ep = before @ f # later" "fl_token f = token"
      "token \<notin> fl_token ` set before" "fl_unlinking f" "is_unlinked res"
      "unlink_flights later (en_session en) = Some st"
      "pump ring key False ((put_ep key (ep\<lparr>ep_in_flight := before\<rparr>) en)\<lparr>en_session := st\<rparr>) = Some en'"
  | (answer) before f later where "ep_in_flight ep = before @ f # later" "fl_token f = token"
      "token \<notin> fl_token ` set before" "\<not> (fl_unlinking f \<and> is_unlinked res)"
      "pump ring key False (put_ep key
         (ep\<lparr>ep_in_flight := before @ f\<lparr>fl_result := Some res\<rparr> # later\<rparr>) en) = Some en'"
proof -
  let ?P = "\<lambda>f. fl_token f \<noteq> token"
  define before where "before = takeWhile ?P (ep_in_flight ep)"
  have nb: "token \<notin> fl_token ` set before" by (auto simp: before_def dest: set_takeWhileD)
  show thesis
  proof (cases "dropWhile ?P (ep_in_flight ep)")
    case Nil
    have "en' = en" using assms by (simp add: finish_def Let_def Nil del: dropWhile_eq_Nil_conv)
    moreover have "token \<notin> fl_token ` set (ep_in_flight ep)" using Nil by (auto simp: dropWhile_eq_Nil_conv)
    ultimately show thesis by (rule stale)
  next
    case (Cons f later)
    have fs: "ep_in_flight ep = before @ f # later"
      unfolding before_def using Cons takeWhile_dropWhile_id [of ?P "ep_in_flight ep"] by simp
    have tok: "fl_token f = token" using Cons by (simp add: dropWhile_eq_Cons_conv)
    show thesis
    proof (cases "fl_unlinking f \<and> is_unlinked res")
      case True
      then obtain st where "unlink_flights later (en_session en) = Some st"
        "pump ring key False ((put_ep key (ep\<lparr>ep_in_flight := before\<rparr>) en)\<lparr>en_session := st\<rparr>) = Some en'"
        using assms Cons by (auto simp: finish_def Let_def before_def bind_eq_Some_conv unlink_all_def)
      with True show thesis using retry [OF fs tok nb] by blast
    next
      case False
      then show thesis
        using assms Cons by (intro answer [OF fs tok nb False]) (auto simp: finish_def Let_def before_def)
    qed
  qed
qed

text \<open>The task of a reply may go once no URB without a result has its token.\<close>

lemma keeps_inv_drop:
  assumes "keeps_inv en e" "en_waiters e = en_waiters en"
    and "\<And>ep f. \<lbrakk>engine_inv e; get_ep e key = Some ep; f \<in> set (ep_in_flight ep); fl_result f = None\<rbrakk>
      \<Longrightarrow> fl_token f \<noteq> token"
  shows "keeps_inv en (e\<lparr>en_waiters := remove1 (ch, key, token) (en_waiters en)\<rparr>)"
  using assms drop_waiter [of e key token ch] by (simp add: keeps_inv_def few_transfers_def)

lemma keeps_inv_retry:
  assumes "get_ep en key = Some ep" "ep_in_flight ep = before @ f # later" "token \<notin> fl_token ` set before"
    and "session_goes (en_session en) st"
  shows "keeps_inv en ((put_ep key (ep\<lparr>ep_in_flight := before\<rparr>) en)
    \<lparr>en_session := st, en_waiters := remove1 (ch, key, token) (en_waiters en)\<rparr>)"
proof -
  let ?e = "(put_ep key (ep\<lparr>ep_in_flight := before\<rparr>) en)\<lparr>en_session := st\<rparr>"
  have "sub_flights before (ep_in_flight ep)" unfolding assms(2) by (auto simp: sub_flights_def)
  then have "keeps_inv en ?e"
    using assms(1,4) by (intro keeps_inv_put [of en key ep "ep\<lparr>ep_in_flight := before\<rparr>"]) simp_all
  then show ?thesis by (rule keeps_inv_drop) (use assms(3) in \<open>auto simp: image_iff\<close>)
qed

lemma keeps_inv_answer:
  assumes "get_ep en key = Some ep" "ep_in_flight ep = before @ f # later" "fl_token f = token" "token \<notin> fl_token ` set before"
  shows "keeps_inv en ((put_ep key (ep\<lparr>ep_in_flight := before @ f\<lparr>fl_result := Some result\<rparr> # later\<rparr>) en)
    \<lparr>en_waiters := remove1 (ch, key, token) (en_waiters en)\<rparr>)"
proof (rule keeps_inv_drop)
  let ?fs = "before @ f\<lparr>fl_result := Some result\<rparr> # later"
  let ?e = "put_ep key (ep\<lparr>ep_in_flight := ?fs\<rparr>) en"
  have "sub_flights ?fs (ep_in_flight ep)" unfolding assms(2) by (auto simp: sub_flights_def)
  then show "keeps_inv en ?e"
    using assms(1) by (intro keeps_inv_put [of en key ep "ep\<lparr>ep_in_flight := ?fs\<rparr>"]) simp_all
  fix ep' g
  assume "engine_inv ?e" and e: "get_ep ?e key = Some ep'"
    and g: "g \<in> set (ep_in_flight ep')" "fl_result g = None"
  have ep': "ep' = ep\<lparr>ep_in_flight := ?fs\<rparr>" using e by simp
  have "endpoint_ok ?e key ep'" using engine_invD(4) [OF \<open>engine_inv ?e\<close> e] .
  then have "distinct (map fl_token ?fs)" by (simp add: endpoint_ok_def ep')
  moreover have "g \<in> set before \<union> set later" using g by (auto simp: ep')
  ultimately show "fl_token g \<noteq> token" using assms(3,4) by (auto simp: image_iff)
qed simp

lemma finish_split:
  assumes "finish ring key token result (en\<lparr>en_waiters := remove1 (ch, key, token) (en_waiters en)\<rparr>) = Some en'"
  obtains (stale) "en' = en\<lparr>en_waiters := remove1 (ch, key, token) (en_waiters en)\<rparr>" "keeps_inv en en'"
  | (retry) ep before later st e where "get_ep en key = Some ep" "ep_in_flight ep = before @ later"
      "session_goes (en_session en) st" "unlink_flights (tl later) (en_session en) = Some st"
      "e = (put_ep key (ep\<lparr>ep_in_flight := before\<rparr>) en)
         \<lparr>en_session := st, en_waiters := remove1 (ch, key, token) (en_waiters en)\<rparr>"
      "keeps_inv en e" "pump ring key False e = Some en'"
  | (answer) ep before f later e where "get_ep en key = Some ep" "ep_in_flight ep = before @ f # later"
      "fl_token f = token"
      "e = (put_ep key (ep\<lparr>ep_in_flight := before @ f\<lparr>fl_result := Some result\<rparr> # later\<rparr>) en)
         \<lparr>en_waiters := remove1 (ch, key, token) (en_waiters en)\<rparr>"
      "keeps_inv en e" "pump ring key False e = Some en'"
proof (cases "get_ep en key")
  case None
  then have "en' = en\<lparr>en_waiters := remove1 (ch, key, token) (en_waiters en)\<rparr>" using assms by (simp add: finish_def)
  with keeps_inv_drop [of en en key token ch] None show thesis by (intro stale) simp_all
next
  case (Some ep)
  define w where "w = remove1 (ch, key, token) (en_waiters en)"
  have "get_ep (en\<lparr>en_waiters := w\<rparr>) key = Some ep" using Some by simp
  with assms [folded w_def] show thesis
  proof (cases rule: finish_shape)
    case st: stale
    have "keeps_inv en (en\<lparr>en_waiters := w\<rparr>)"
      using keeps_inv_drop [of en en key token ch, folded w_def] Some st(2) by (auto simp: image_iff)
    then show thesis using st(1) by (intro stale) (simp_all add: w_def)
  next
    case r: (retry before f later st)
    let ?e = "(put_ep key (ep\<lparr>ep_in_flight := before\<rparr>) en)\<lparr>en_session := st, en_waiters := w\<rparr>"
    have go: "session_goes (en_session en) st" using unlink_flights_goes r(6) by simp
    have k: "keeps_inv en ?e" unfolding w_def by (rule keeps_inv_retry [OF Some r(1,3) go])
    have "?e = (put_ep key (ep\<lparr>ep_in_flight := before\<rparr>) (en\<lparr>en_waiters := w\<rparr>))\<lparr>en_session := st\<rparr>"
      by (simp add: put_ep_def)
    with r(7) have "pump ring key False ?e = Some en'" by simp
    from retry [OF Some r(1) go _ _ k this] r(6) show thesis by (simp add: w_def)
  next
    case a: (answer before f later)
    let ?e = "(put_ep key (ep\<lparr>ep_in_flight := before @ f\<lparr>fl_result := Some result\<rparr> # later\<rparr>) en)\<lparr>en_waiters := w\<rparr>"
    have k: "keeps_inv en ?e" unfolding w_def by (rule keeps_inv_answer [OF Some a(1-3)])
    have "?e = put_ep key (ep\<lparr>ep_in_flight := before @ f\<lparr>fl_result := Some result\<rparr> # later\<rparr>) (en\<lparr>en_waiters := w\<rparr>)"
      by (simp add: put_ep_def)
    with a(5) have "pump ring key False ?e = Some en'" by simp
    from answer [OF Some a(1,2) _ k this] show thesis by (simp add: w_def)
  qed
qed

lemma finish_keeps:
  assumes "finish ring key token result (en\<lparr>en_waiters := remove1 (ch, key, token) (en_waiters en)\<rparr>) = Some en'"
  shows "keeps_inv en en'"
  using assms by (cases rule: finish_split) (auto intro: keeps_inv_trans pump_keeps)

section \<open>The engine, the session and the host together\<close>

inductive session_move :: "Shared \<Rightarrow> Shared \<Rightarrow> bool" where
  replied: "session_move st (resolve_submit q ret st)"
| unlinked: "session_move st (resolve_unlink ret st)"
| cancelled: "unlink q st = Some st' \<Longrightarrow> session_move st st'"
| closed: "session_move st (Shared_close why st)"
| wrote: "session_move st (write_round outcome st)"
| stopped: "session_move st (write_stop st)"

text \<open>
  A step is a public operation of the engine, a reply that the executor finishes, something the
  session does on its own, the host changing a ring, or a device reset being submitted.
\<close>

inductive engine_step :: "'r Ring \<Rightarrow> 'r Engine \<Rightarrow> 'r Engine \<Rightarrow> bool" for ring where
  add: "add_endpoint key info r en = Some en' \<Longrightarrow> engine_step ring en en'"
| update: "engine_step ring en (update_endpoint key info en)"
| remove: "remove_endpoint key en = Some en' \<Longrightarrow> engine_step ring en en'"
| remove_dev: "remove_device d en = Some en' \<Longrightarrow> engine_step ring en en'"
| reset: "reset_endpoint key en = Some en' \<Longrightarrow> engine_step ring en en'"
| pause: "pause_endpoint key en = Some en' \<Longrightarrow> engine_step ring en en'"
| sync: "sync_endpoint ring key en = Some en' \<Longrightarrow> engine_step ring en en'"
| bell: "doorbell ring key en = Some en' \<Longrightarrow> engine_step ring en en'"
| finished: "\<lbrakk>(ch, key, token) \<in> set (en_waiters en); (ch, res) \<in> set (replies (en_session en));
    finish ring key token res (en\<lparr>en_waiters := remove1 (ch, key, token) (en_waiters en)\<rparr>) = Some en'\<rbrakk> \<Longrightarrow>
    engine_step ring en en'"
| network: "session_move (en_session en) st \<Longrightarrow> engine_step ring en (en\<lparr>en_session := st\<rparr>)"
| host: "get_ep en key = Some ep \<Longrightarrow> engine_step ring en (put_ep key (ep\<lparr>ep_ring := r\<rparr>) en)"
| reset_dev: "submit reset_request (en_session en) = Some (res, st) \<Longrightarrow>
    engine_step ring en (en\<lparr>en_session := st\<rparr>)"

lemma resolve_submit_goes: "session_goes st (resolve_submit q ret st)"
proof (cases "map_of (submits st) q")
  case None
  then have "submits (resolve_submit q ret st) = submits st" "replies (resolve_submit q ret st) = replies st"
    "next_chan (resolve_submit q ret st) = next_chan st"
    by (simp_all add: resolve_submit_def Let_def delete_absent)
  then show ?thesis by (simp add: session_goes_def session_inv_resolve_submit waiting_on_def)
next
  case (Some p)
  then have r: "replies (resolve_submit q ret st) = replies st @ [(ps_reply p, Inr ret)]"
    "submits (resolve_submit q ret st) = AList.delete q (submits st)"
    "next_chan (resolve_submit q ret st) = next_chan st"
    by (simp_all add: resolve_submit_def Let_def send_reply_def)
  have "p' = p" if "wf_amap (submits st)" "(q, p') \<in> set (submits st)" for p'
    using that Some by (metis map_of_is_SomeI option.inject)
  then show ?thesis
    by (auto simp: session_goes_def session_inv_resolve_submit r waiting_on_def set_delete_eq
        session_inv_def [of st])
qed

lemma resolve_unlink_goes: "session_goes st (resolve_unlink ret st)"
proof (cases "\<exists>t p. map_of (unlinks st) (ru_seqnum ret) = Some t \<and> map_of (submits st) t = Some p")
  case False
  then have "submits (resolve_unlink ret st) = submits st" "replies (resolve_unlink ret st) = replies st"
    "next_chan (resolve_unlink ret st) = next_chan st"
    by (auto simp: resolve_unlink_def Let_def split: option.split)
  then show ?thesis by (simp add: session_goes_def session_inv_resolve_unlink waiting_on_def)
next
  case True
  then obtain t p where tp: "map_of (unlinks st) (ru_seqnum ret) = Some t" "map_of (submits st) t = Some p"
    by blast
  then have r: "replies (resolve_unlink ret st) = replies st @ [(ps_reply p, Inl (Unlinked (ru_status ret)))]"
    "submits (resolve_unlink ret st) = AList.delete t (submits st)"
    "next_chan (resolve_unlink ret st) = next_chan st"
    by (simp_all add: resolve_unlink_def Let_def send_reply_def)
  have "p' = p" if "wf_amap (submits st)" "(t, p') \<in> set (submits st)" for p'
    using that tp(2) by (metis map_of_is_SomeI option.inject)
  then show ?thesis
    by (auto simp: session_goes_def session_inv_resolve_unlink r waiting_on_def set_delete_eq
        session_inv_def [of st])
qed

lemma close_goes: "session_goes st (Shared_close why st)"
proof (cases "closed st = None")
  case True
  then have r: "keys (replies (Shared_close why st)) = keys (replies st) \<union> ps_reply ` vals (submits st)"
    "next_chan (Shared_close why st) = next_chan st"
    by (simp_all add: Shared_close_open image_Un image_image)
  have "ch \<in> ps_reply ` vals (submits st)" if "(q, ch) \<in> waiting_on st" for q ch
    using that by (auto simp: waiting_on_def)
  then show ?thesis unfolding session_goes_def r using session_inv_close by blast
qed simp

lemma session_move_goes: "session_move st st' \<Longrightarrow> session_goes st st'"
proof (induction rule: session_move.induct)
  case (wrote st outcome)
  have same: "session_goes a b" if "submits b = submits a" "replies b = replies a"
      "next_chan b = next_chan a" "session_inv a \<longrightarrow> session_inv b" for a b
    using that by (simp add: session_goes_def waiting_on_def)
  have fw: "session_goes st (st\<lparr>frames := fs, written := w\<rparr>)" for fs w by (rule same) simp_all
  have wo: "session_goes a (a\<lparr>writer_open := False\<rparr>)" for a by (rule same) simp_all
  show ?case
  proof (cases "frames st")
    case Nil
    then show ?thesis by (simp add: write_round_def)
  next
    case (Cons f fs)
    obtain batch rest where b: "fill_batch f fs = (batch, rest)" by fastforce
    show ?thesis
    proof (cases outcome)
      case (Inl ek)
      have "session_goes st ((Shared_close (WriteFailed (fst ek))
          (st\<lparr>frames := rest, written := written st @ take (snd ek) batch\<rparr>))\<lparr>writer_open := False\<rparr>)"
        by (rule session_goes_trans [OF session_goes_trans [OF fw close_goes] wo])
      then show ?thesis using Inl by (simp add: write_round_def Cons b split_beta)
    next
      case (Inr u)
      then show ?thesis using fw by (simp add: write_round_def Cons b)
    qed
  qed
next
  case (stopped st)
  then show ?case by (simp add: session_goes_def waiting_on_def write_stop_def)
qed (simp_all add: resolve_submit_goes resolve_unlink_goes close_goes unlink_goes)

lemma pause_flights_shape:
  "pause_flights fs st = Some (fs', st') \<Longrightarrow> session_goes st st' \<and>
     list_all2 (\<lambda>f g. fl_token f = fl_token g \<and> fl_seqnum f = fl_seqnum g \<and>
       fl_result f = fl_result g \<and> fl_message f = fl_message g) fs' fs"
proof (induction fs arbitrary: st fs')
  case (Cons f fs)
  show ?case
  proof (cases "fl_result f = None \<and> \<not> fl_unlinking f")
    case True
    then obtain st1 gs where "unlink (fl_seqnum f) st = Some st1" "pause_flights fs st1 = Some (gs, st')"
      "fs' = f\<lparr>fl_unlinking := True\<rparr> # gs" using Cons.prems by (auto simp: bind_eq_Some_conv)
    with Cons.IH unlink_goes session_goes_trans show ?thesis by fastforce
  next
    case False
    then obtain gs where "pause_flights fs st = Some (gs, st')" "fs' = f # gs"
      using Cons.prems by (auto simp: bind_eq_Some_conv split: if_splits)
    with Cons.IH show ?thesis by simp
  qed
qed simp

lemma all2_sub_flights:
  "list_all2 (\<lambda>f g. fl_token f = fl_token g \<and> fl_seqnum f = fl_seqnum g \<and>
     fl_result f = fl_result g \<and> fl_message f = fl_message g) fs gs \<Longrightarrow> sub_flights fs gs"
proof -
  assume a: "list_all2 (\<lambda>f g. fl_token f = fl_token g \<and> fl_seqnum f = fl_seqnum g \<and>
     fl_result f = fl_result g \<and> fl_message f = fl_message g) fs gs"
  then have "map fl_token fs = map fl_token gs"
    by (induction rule: list_all2_induct) auto
  moreover have "\<forall>f\<in>set fs. \<exists>g\<in>set gs. fl_token f = fl_token g \<and> fl_seqnum f = fl_seqnum g \<and>
      (fl_result f = None \<longrightarrow> fl_result g = None)"
    using a by (induction rule: list_all2_induct) auto
  ultimately show ?thesis using list_all2_lengthD [OF a] by (simp add: sub_flights_def)
qed

lemma unlink_all_keeps:
  assumes "unlink_all fs en1 = Some en'" "en_session en1 = en_session en"
    and "en_waiters en1 = en_waiters en" "en_next_token en1 = en_next_token en"
    and "wf_amap (en_endpoints en) \<Longrightarrow> wf_amap (en_endpoints en1)"
    and "\<And>k ep'. get_ep en1 k = Some ep' \<Longrightarrow> ep_in_flight ep' = [] \<or>
      (\<exists>ep. get_ep en k = Some ep \<and> sub_flights (ep_in_flight ep') (ep_in_flight ep))"
  shows "keeps_inv en en'"
proof -
  obtain st where st: "unlink_flights fs (en_session en1) = Some st" and en': "en' = en1\<lparr>en_session := st\<rparr>"
    using assms(1) by (auto simp: unlink_all_Some)
  show ?thesis
    using unlink_flights_goes [OF st] assms(2-6) by (intro keeps_inv_shrink) (simp_all add: en')
qed

lemma unlink_each_shape:
  "unlink_each eps en = Some en' \<Longrightarrow> \<exists>st. session_goes (en_session en) st \<and> en' = en\<lparr>en_session := st\<rparr>"
proof (induction eps arbitrary: en)
  case Nil
  then have "en' = en\<lparr>en_session := en_session en\<rparr>" by simp
  then show ?case using session_goes_refl by blast
next
  case (Cons ep eps)
  then obtain st1 where st1: "unlink_flights (ep_in_flight ep) (en_session en) = Some st1"
    and rest: "unlink_each eps (en\<lparr>en_session := st1\<rparr>) = Some en'"
    by (auto simp: bind_eq_Some_conv unlink_all_def)
  from Cons.IH [OF rest] obtain st where "session_goes st1 st" "en' = en\<lparr>en_session := st\<rparr>" by auto
  with unlink_flights_goes [OF st1] session_goes_trans show ?case by blast
qed

lemma map_of_filter_key: "map_of (filter (\<lambda>p. Q (fst p)) m) k = (if Q k then map_of m k else None)"
  by (induction m) auto

lemma put_empty_sub:
  "get_ep (put_ep key (ep\<lparr>ep_in_flight := []\<rparr>) en) k = Some ep' \<Longrightarrow> ep_in_flight ep' = [] \<or>
     (\<exists>ep. get_ep en k = Some ep \<and> sub_flights (ep_in_flight ep') (ep_in_flight ep))"
  by (cases "k = key") auto

lemma add_endpoint_keeps:
  assumes "add_endpoint key info r en = Some en'"
  shows "keeps_inv en en'"
proof -
  let ?ep = "\<lparr>ep_ring = r, ep_info = info, ep_in_flight = [], ep_setup = None, ep_hidden_config = None\<rparr>"
  have sub: "ep_in_flight ep' = [] \<or> (\<exists>ep. get_ep en k = Some ep \<and> sub_flights (ep_in_flight ep') (ep_in_flight ep))"
    if "get_ep (put_ep key ?ep en) k = Some ep'" for k ep'
    using that by (cases "k = key") auto
  show ?thesis
  proof (cases "get_ep en key")
    case None
    then have en': "en' = put_ep key ?ep en" using assms by (simp add: add_endpoint_def)
    show ?thesis unfolding en' by (rule keeps_inv_shrink) (use sub in \<open>simp_all del: get_put_ep\<close>)
  next
    case (Some old)
    then have "unlink_all (ep_in_flight old) (put_ep key ?ep en) = Some en'"
      using assms by (simp add: add_endpoint_def)
    then show ?thesis by (rule unlink_all_keeps) (use sub in \<open>simp_all del: get_put_ep\<close>)
  qed
qed

lemma remove_endpoint_keeps: "remove_endpoint key en = Some en' \<Longrightarrow> keeps_inv en en'"
proof (cases "get_ep en key")
  case (Some ep)
  assume "remove_endpoint key en = Some en'"
  then have "unlink_all (ep_in_flight ep) (en\<lparr>en_endpoints := AList.delete key (en_endpoints en)\<rparr>) = Some en'"
    using Some by (simp add: remove_endpoint_def)
  then show ?thesis
  proof (rule unlink_all_keeps)
    fix k ep'
    assume "get_ep (en\<lparr>en_endpoints := AList.delete key (en_endpoints en)\<rparr>) k = Some ep'"
    then have "get_ep en k = Some ep'" by (simp add: delete_conv' split: if_splits)
    then show "ep_in_flight ep' = [] \<or> (\<exists>ep. get_ep en k = Some ep \<and> sub_flights (ep_in_flight ep') (ep_in_flight ep))"
      using sub_flights_refl by blast
  qed (simp_all add: distinct_delete)
qed (simp add: remove_endpoint_def)

lemma remove_device_keeps: "remove_device d en = Some en' \<Longrightarrow> keeps_inv en en'"
proof -
  let ?en = "en\<lparr>en_endpoints := filter (\<lambda>p. fst (fst p) \<noteq> d) (en_endpoints en)\<rparr>"
  assume "remove_device d en = Some en'"
  then obtain st where st: "session_goes (en_session en) st" and en': "en' = ?en\<lparr>en_session := st\<rparr>"
    using unlink_each_shape unfolding remove_device_def Let_def by fastforce
  show ?thesis
  proof (rule keeps_inv_shrink)
    fix k ep'
    assume "get_ep en' k = Some ep'"
    then have "map_of (filter (\<lambda>p. fst (fst p) \<noteq> d) (en_endpoints en)) k = Some ep'" by (simp add: en')
    then have "get_ep en k = Some ep'"
      using map_of_filter_key [of "\<lambda>k. fst k \<noteq> d"] by (metis option.distinct(1))
    then show "ep_in_flight ep' = [] \<or> (\<exists>ep. get_ep en k = Some ep \<and> sub_flights (ep_in_flight ep') (ep_in_flight ep))"
      using sub_flights_refl by blast
  qed (use st in \<open>simp_all add: en' distinct_map_filter\<close>)
qed

lemma reset_endpoint_keeps: "reset_endpoint key en = Some en' \<Longrightarrow> keeps_inv en en'"
proof (cases "get_ep en key")
  case (Some ep)
  assume "reset_endpoint key en = Some en'"
  then have "unlink_all (ep_in_flight ep) (put_ep key (ep\<lparr>ep_setup := None, ep_in_flight := []\<rparr>) en) = Some en'"
    using Some by (simp add: reset_endpoint_def)
  then show ?thesis
  proof (rule unlink_all_keeps)
    fix k ep'
    assume "get_ep (put_ep key (ep\<lparr>ep_setup := None, ep_in_flight := []\<rparr>) en) k = Some ep'"
    then show "ep_in_flight ep' = [] \<or> (\<exists>ep. get_ep en k = Some ep \<and> sub_flights (ep_in_flight ep') (ep_in_flight ep))"
      by (cases "k = key") auto
  qed simp_all
qed (simp add: reset_endpoint_def)

lemma sync_endpoint_keeps: "sync_endpoint ring key en = Some en' \<Longrightarrow> keeps_inv en en'"
proof (cases "get_ep en key")
  case (Some ep)
  assume s: "sync_endpoint ring key en = Some en'"
  show ?thesis
  proof (cases "ep_in_flight ep \<noteq> [] \<and> fl_message (hd (ep_in_flight ep)) \<noteq> fst (ring_current ring (ep_ring ep))")
    case True
    then have "unlink_all (ep_in_flight ep) (put_ep key (ep\<lparr>ep_in_flight := []\<rparr>) en) = Some en'"
      using s Some by (simp add: sync_endpoint_def Let_def)
    then show ?thesis by (rule unlink_all_keeps) (use put_empty_sub in \<open>simp_all del: get_put_ep\<close>)
  next
    case False
    then have "en' = en" using s Some by (auto simp: sync_endpoint_def Let_def)
    then show ?thesis by simp
  qed
qed (simp add: sync_endpoint_def)

lemma pause_endpoint_keeps: "pause_endpoint key en = Some en' \<Longrightarrow> keeps_inv en en'"
proof (cases "snd key AND 0x80 = 0 \<or> snd key AND 0x7f = 0 \<or> get_ep en key = None")
  case True
  assume "pause_endpoint key en = Some en'"
  with True have "en' = en" by (auto simp: pause_endpoint_def split: if_splits)
  then show ?thesis by simp
next
  case False
  then obtain ep where ep: "get_ep en key = Some ep" by auto
  assume "pause_endpoint key en = Some en'"
  then obtain fs st where p: "pause_flights (ep_in_flight ep) (en_session en) = Some (fs, st)"
    and en': "en' = (put_ep key (ep\<lparr>ep_in_flight := fs\<rparr>) en)\<lparr>en_session := st\<rparr>"
    using False ep by (auto simp: pause_endpoint_def bind_eq_Some_conv)
  show ?thesis
    using pause_flights_shape [OF p] all2_sub_flights ep
    by (intro keeps_inv_put [OF ep, of "ep\<lparr>ep_in_flight := fs\<rparr>"]) (simp_all add: en')
qed

lemma update_endpoint_keeps: "keeps_inv en (update_endpoint key info en)"
proof (cases "get_ep en key")
  case (Some ep)
  then show ?thesis
    by (intro keeps_inv_put [OF Some, of "ep\<lparr>ep_info := info\<rparr>"]) (simp_all add: update_endpoint_def)
qed (simp add: update_endpoint_def)

lemma engine_step_keeps: "engine_step ring en en' \<Longrightarrow> keeps_inv en en'"
proof (induction rule: engine_step.induct)
  case (network en st)
  have "session_goes (en_session en) (en_session (en\<lparr>en_session := st\<rparr>))"
    using session_move_goes [OF network] by simp
  then show ?case by (rule keeps_inv_shrink) (use sub_flights_refl in \<open>auto simp del: sub_flights_refl\<close>)
next
  case (reset_dev en res st)
  have "session_goes (en_session en) (en_session (en\<lparr>en_session := st\<rparr>))"
    using submit_goes [OF reset_dev] by simp
  then show ?case by (rule keeps_inv_shrink) (use sub_flights_refl in \<open>auto simp del: sub_flights_refl\<close>)
next
  case (host en key ep r)
  then show ?case by (intro keeps_inv_put [OF host, of "ep\<lparr>ep_ring := r\<rparr>"]) simp_all
next
  case (bell key en en')
  then show ?case by (simp add: doorbell_def pump_keeps)
qed (auto intro: add_endpoint_keeps update_endpoint_keeps remove_endpoint_keeps remove_device_keeps
    reset_endpoint_keeps pause_endpoint_keeps sync_endpoint_keeps finish_keeps)

lemma engine_inv_new:
  assumes "session_inv st"
  shows "engine_inv (Engine_new st d)"
  using assms by (auto intro!: engine_invI simp: Engine_new_def waiters_ok_def)

lemma engine_reachable_inv:
  fixes en :: "'r Engine"
  assumes "(engine_step ring)\<^sup>*\<^sup>* (Engine_new st d) en" "session_inv st" "few_transfers en"
  shows "engine_inv en"
proof -
  have "keeps_inv (Engine_new st d) en"
    using assms(1) by (induction rule: rtranclp_induct) (auto intro: keeps_inv_trans engine_step_keeps)
  moreover have "engine_inv (Engine_new st d :: 'r Engine)" using assms(2) by (rule engine_inv_new)
  ultimately show ?thesis using assms(3) by (simp add: keeps_inv_def)
qed

section \<open>Reading ahead\<close>

abbreviation fl_what :: "InFlight \<Rightarrow> u64 \<times> u32" where
  "fl_what f \<equiv> (fl_message f, fl_length f)"

lemma submit_in_ok:
  assumes "sr_direction req = In" "sr_data req = []" "closed st = None"
    and "card (seqs_used st) < 2 ^ 32 - 1"
  shows "\<exists>q st'. submit req st = Some (Inr (q, next_chan st), st')"
proof -
  obtain q st1 where n: "next_seqnum st = Some (q, st1)" using next_seqnum_total [OF assms(4)] by auto
  then have "next_chan st1 = next_chan st" using next_seqnum_Some [OF n] by simp
  with n assms show ?thesis by (auto simp: submit_def Let_def)
qed

lemma submit_urb_in:
  assumes d: "data_request ring sp ep key ahead (TNormal len) = Some (req, stage)"
    and dir: "Direction_of_endpoint (snd key) = In" and op: "closed (en_session en) = None"
    and card: "card (seqs_used (en_session en)) < 2 ^ 32 - 1"
  shows "\<exists>en' f. submit_urb ring key m req stage ep en = Some (SInFlight, en') \<and>
    get_ep en' key = Some (ep\<lparr>ep_in_flight := ep_in_flight ep @ [f]\<rparr>) \<and> fl_what f = (m, len) \<and>
    fl_result f = None \<and> closed (en_session en') = None \<and> en_device en' = en_device en \<and>
    card (seqs_used (en_session en')) \<le> Suc (card (seqs_used (en_session en)))"
proof -
  have req: "sr_direction req = In" "sr_data req = []" "sr_length req = len"
    using d dir by (auto simp: data_request_def SubmitRequest_new_def Let_def)
  obtain q st where s: "submit req (en_session en) = Some (Inr (q, next_chan (en_session en)), st)"
    using submit_in_ok [OF req(1,2) op card] by blast
  have "closed st = None" using closing_fields [OF s] op by simp
  then show ?thesis
    using submit_card [OF s] req
    by (auto simp: submit_urb_def s Let_def put_ep_def update_conv' fun_upd_def
        intro!: exI [of _ "\<lparr>fl_token = en_next_token en, fl_message = m, fl_stage = stage,
          fl_direction = In, fl_length = len, fl_seqnum = q, fl_unlinking = False, fl_result = None\<rparr>"])
qed

lemma data_request_in:
  "\<exists>req. data_request ring sp ep key ahead (TNormal len) = Some (req, NormalStage)"
  by (simp add: data_request_def Let_def)

lemma fill_done: "fill_round ring key en = Some (None, en) \<Longrightarrow> fill ring key en = Some (False, en)"
  by (subst fill.simps) simp

lemma fill_round_in:
  assumes dir: "Direction_of_endpoint (snd key) = In"
    and ep: "get_ep en key = Some ep" "ep_in_flight ep \<noteq> []" "\<forall>f\<in>set (ep_in_flight ep). fl_result f = None"
    and op: "closed (en_session en) = None" "card (seqs_used (en_session en)) < 2 ^ 32 - 1"
    and pk: "length (ep_in_flight ep) < depth (kind (ep_info ep))"
      "ring_peek ring (ep_ring ep) (length (ep_in_flight ep)) = Some (m, TNormal l)"
  shows "\<exists>en1 f. fill_round ring key en = Some (Some SInFlight, en1) \<and>
    get_ep en1 key = Some (ep\<lparr>ep_in_flight := ep_in_flight ep @ [f]\<rparr>) \<and> fl_what f = (m, l) \<and> fl_result f = None \<and>
    closed (en_session en1) = None \<and> card (seqs_used (en_session en1)) \<le> Suc (card (seqs_used (en_session en)))"
proof -
  obtain req where req: "data_request ring (speed (en_device en)) ep key (length (ep_in_flight ep)) (TNormal l) =
      Some (req, NormalStage)"
    using data_request_in by blast
  from submit_urb_in [OF req dir op, of m] obtain en1 f where
    s: "submit_urb ring key m req NormalStage ep en = Some (SInFlight, en1)"
    and f: "get_ep en1 key = Some (ep\<lparr>ep_in_flight := ep_in_flight ep @ [f]\<rparr>)"
      "fl_what f = (m, l)" "fl_result f = None" "closed (en_session en1) = None"
      "card (seqs_used (en_session en1)) \<le> Suc (card (seqs_used (en_session en)))" by blast
  have "fill_round ring key en = Some (Some SInFlight, en1)"
    using ep pk req s by (auto simp: fill_round_def Let_def not_le)
  with f show ?thesis by blast
qed

lemma fill_reads_ahead:
  assumes dir: "Direction_of_endpoint (snd key) = In"
  shows "\<lbrakk>get_ep en key = Some ep; ep_in_flight ep \<noteq> []; \<forall>f\<in>set (ep_in_flight ep). fl_result f = None;
    closed (en_session en) = None;
    card (seqs_used (en_session en)) + (depth (kind (ep_info ep)) - length (ep_in_flight ep)) < 2 ^ 32 - 1;
    length (ep_in_flight ep) \<le> length ms;
    \<And>i. i < length ms \<Longrightarrow> ring_peek ring (ep_ring ep) i = Some (fst (ms ! i), TNormal (snd (ms ! i)));
    ring_peek ring (ep_ring ep) (length ms) = None\<rbrakk> \<Longrightarrow>
   \<exists>en' new. fill ring key en = Some (False, en') \<and>
     get_ep en' key = Some (ep\<lparr>ep_in_flight := ep_in_flight ep @ new\<rparr>) \<and>
     map fl_what new = drop (length (ep_in_flight ep)) (take (depth (kind (ep_info ep))) ms) \<and>
     (\<forall>f\<in>set new. fl_result f = None)"
proof (induction "depth (kind (ep_info ep)) - length (ep_in_flight ep)" arbitrary: en ep rule: less_induct)
  case less
  let ?n = "length (ep_in_flight ep)" and ?d = "depth (kind (ep_info ep))"
  consider (full) "?d \<le> ?n" | (empty) "?n < ?d" "?n = length ms" | (more) "?n < ?d" "?n < length ms"
    using less.prems(6) by linarith
  then show ?case
  proof cases
    case full
    then have "fill_round ring key en = Some (None, en)"
      using less.prems(1) by (simp add: fill_round_def)
    then have "fill ring key en = Some (False, en)" by (rule fill_done)
    then show ?thesis using less.prems(1) full
      by (intro exI [of _ en] exI [of _ "[]"]) simp
  next
    case empty
    then have "fill_round ring key en = Some (None, en)"
      using less.prems(1,8) by (simp add: fill_round_def Let_def)
    then have "fill ring key en = Some (False, en)" by (rule fill_done)
    then show ?thesis using less.prems(1) empty
      by (intro exI [of _ en] exI [of _ "[]"]) simp
  next
    case more
    have "ring_peek ring (ep_ring ep) ?n = Some (fst (ms ! ?n), TNormal (snd (ms ! ?n)))"
      using less.prems(7) more by blast
    moreover have "card (seqs_used (en_session en)) < 2 ^ 32 - 1" using less.prems(5) by linarith
    ultimately obtain en1 f where fr: "fill_round ring key en = Some (Some SInFlight, en1)"
      and ep1: "get_ep en1 key = Some (ep\<lparr>ep_in_flight := ep_in_flight ep @ [f]\<rparr>)"
      and f: "fl_what f = ms ! ?n" "fl_result f = None" "closed (en_session en1) = None"
        "card (seqs_used (en_session en1)) \<le> Suc (card (seqs_used (en_session en)))"
      using fill_round_in [OF dir less.prems(1-4) _ more(1)] by (metis prod.collapse)
    let ?ep = "ep\<lparr>ep_in_flight := ep_in_flight ep @ [f]\<rparr>"
    have "\<exists>en' new. fill ring key en1 = Some (False, en') \<and>
        get_ep en' key = Some (?ep\<lparr>ep_in_flight := ep_in_flight ?ep @ new\<rparr>) \<and>
        map fl_what new = drop (length (ep_in_flight ?ep)) (take (depth (kind (ep_info ?ep))) ms) \<and>
        (\<forall>f\<in>set new. fl_result f = None)"
    proof (rule less.hyps [OF _ ep1])
      show "card (seqs_used (en_session en1)) + (depth (kind (ep_info ?ep)) - length (ep_in_flight ?ep)) < 2 ^ 32 - 1"
        using f(4) less.prems(5) more by simp
    qed (use less.prems more f in auto)
    then obtain en' new where fill1: "fill ring key en1 = Some (False, en')"
      and e': "get_ep en' key = Some (ep\<lparr>ep_in_flight := ep_in_flight ep @ f # new\<rparr>)"
      and new: "map fl_what new = drop (Suc ?n) (take ?d ms)" "\<forall>f\<in>set new. fl_result f = None"
      by auto
    have "fill ring key en = Some (False, en')" using fill1 fr by (subst fill.simps) simp
    moreover have "map fl_what (f # new) = drop ?n (take ?d ms)"
      using new(1) f(1) more by (simp add: Cons_nth_drop_Suc [symmetric])
    ultimately show ?thesis using e' new(2) f(2) by (intro exI [of _ en'] exI [of _ "f # new"]) simp
  qed
qed

lemma pump_reads_ahead:
  assumes dir: "Direction_of_endpoint (snd key) = In" "snd key AND 0x7f \<noteq> 0"
    and ep: "get_ep en key = Some ep" "ep_in_flight ep = []" "ring_active ring (ep_ring ep)"
    and op: "closed (en_session en) = None" "card (seqs_used (en_session en)) + 32 < 2 ^ 32 - 1"
    and ms: "ms \<noteq> []" "ring_current ring (ep_ring ep) = (fst (ms ! 0), Some (TNormal (snd (ms ! 0))))"
      "\<And>i. i < length ms \<Longrightarrow> ring_peek ring (ep_ring ep) i = Some (fst (ms ! i), TNormal (snd (ms ! i)))"
      "ring_peek ring (ep_ring ep) (length ms) = None"
  shows "\<exists>en' new. pump ring key False en = Some en' \<and>
     get_ep en' key = Some (ep\<lparr>ep_in_flight := new\<rparr>) \<and>
     map fl_what new = take (depth (kind (ep_info ep))) ms \<and> (\<forall>f\<in>set new. fl_result f = None)"
proof -
  let ?m = "fst (ms ! 0)" and ?l = "snd (ms ! 0)" and ?d = "depth (kind (ep_info ep))"
  obtain req where req: "data_request ring (speed (en_device en)) ep key 0 (TNormal ?l) = Some (req, NormalStage)"
    using data_request_in by blast
  have hr: "head_request ring (speed (en_device en)) ep key (TNormal ?l) = (NSubmit req NormalStage, ep)"
    using dir(2) req by (simp add: head_request_def Let_def)
  have card: "card (seqs_used (en_session en)) < 2 ^ 32 - 1" using op(2) by linarith
  from submit_urb_in [OF req dir(1) op(1) card, of ?m] obtain en1 f where
    s: "submit_urb ring key ?m req NormalStage ep en = Some (SInFlight, en1)"
    and ep1: "get_ep en1 key = Some (ep\<lparr>ep_in_flight := [f]\<rparr>)"
    and f: "fl_what f = (?m, ?l)" "fl_result f = None" "closed (en_session en1) = None"
      "card (seqs_used (en_session en1)) \<le> Suc (card (seqs_used (en_session en)))"
    using ep(2) by auto
  have "\<exists>en' new. fill ring key en1 = Some (False, en') \<and>
      get_ep en' key = Some ((ep\<lparr>ep_in_flight := [f]\<rparr>)\<lparr>ep_in_flight := ep_in_flight (ep\<lparr>ep_in_flight := [f]\<rparr>) @ new\<rparr>) \<and>
      map fl_what new = drop (length (ep_in_flight (ep\<lparr>ep_in_flight := [f]\<rparr>)))
        (take (depth (kind (ep_info (ep\<lparr>ep_in_flight := [f]\<rparr>)))) ms) \<and> (\<forall>f\<in>set new. fl_result f = None)"
  proof (rule fill_reads_ahead [OF dir(1) ep1])
    show "card (seqs_used (en_session en1)) +
        (depth (kind (ep_info (ep\<lparr>ep_in_flight := [f]\<rparr>))) - length (ep_in_flight (ep\<lparr>ep_in_flight := [f]\<rparr>))) < 2 ^ 32 - 1"
      using f(4) op(2) depth_pos [of "kind (ep_info ep)"] by simp
    show "length (ep_in_flight (ep\<lparr>ep_in_flight := [f]\<rparr>)) \<le> length ms" using ms(1) by (cases ms) auto
  qed (use f ms in auto)
  then obtain en' new where fi: "fill ring key en1 = Some (False, en')"
    and e': "get_ep en' key = Some (ep\<lparr>ep_in_flight := f # new\<rparr>)"
    and new: "map fl_what new = drop 1 (take ?d ms)" "\<forall>f\<in>set new. fl_result f = None" by auto
  have "pump_round ring key False en = Some (None, en')"
    using ep ms(2) hr s fi put_ep_same [OF ep(1)] by (simp add: pump_round_def)
  then have "pump ring key False en = Some en'" by (subst pump.simps) simp
  moreover have "map fl_what (f # new) = take ?d ms"
    using new(1) f(1) ms(1) depth_pos(1) [of "kind (ep_info ep)"]
    by (cases ms; cases ?d) auto
  ultimately show ?thesis using e' new(2) f(2) by (intro exI [of _ en'] exI [of _ "f # new"]) simp
qed

section \<open>A closed session\<close>

lemma unlink_closed: "closed st \<noteq> None \<Longrightarrow> unlink t st = Some st"
  by (simp add: unlink_def)

lemma unlink_flights_closed: "closed st \<noteq> None \<Longrightarrow> unlink_flights fs st = Some st"
  by (induction fs) (auto simp: unlink_closed)

definition sends_nothing :: "'r Engine \<Rightarrow> 'r Engine \<Rightarrow> bool" where
  "sends_nothing en en' \<longleftrightarrow> (closed (en_session en) \<noteq> None \<longrightarrow>
     en_session en' = en_session en \<and> en_waiters en' = en_waiters en \<and> en_next_token en' = en_next_token en)"

lemma sends_nothing_trans: "\<lbrakk>sends_nothing a b; sends_nothing b c\<rbrakk> \<Longrightarrow> sends_nothing a c"
  by (auto simp: sends_nothing_def)

lemma submit_urb_closed:
  assumes "submit_urb ring key m req stage ep en = Some (out, en')"
  shows "sends_nothing en en'"
  using assms
proof (cases rule: submit_urb_cases)
  case (accepted q c st)
  then show ?thesis using submit_Inr(1) [OF accepted(1)] by (simp add: sends_nothing_def)
qed (simp_all add: sends_nothing_def)

lemma fill_closed: "fill ring key en = Some (again, en') \<Longrightarrow> sends_nothing en en'"
proof -
  assume f: "fill ring key en = Some (again, en')"
  have "sends_nothing en (snd (again, en'))"
    using f
  proof (rule fill_rel [where R = sends_nothing])
    fix a :: "'a Engine" and o' b
    assume "fill_round ring key a = Some (o', b)"
    then show "sends_nothing a b"
    proof (cases rule: fill_round_cases)
      case (sent ep m t req stage)
      show ?thesis by (rule submit_urb_closed [OF sent(7)])
    qed (simp_all add: sends_nothing_def)
  qed (rule sends_nothing_trans)
  then show ?thesis by simp
qed

lemma pump_round_closed:
  assumes "pump_round ring key offline en = Some (again, en')"
  shows "sends_nothing en en'"
  using assms
proof (cases rule: pump_round_cases)
  case (give_up ep f fs)
  then show ?thesis by (auto simp: sends_nothing_def unlink_all_Some unlink_flights_closed simp del: unlink_flights.simps)
next
  case (refill ep f fs b)
  then show ?thesis using fill_closed by blast
next
  case (submit ep head t req stage out en1)
  have k1: "sends_nothing en en1" using submit_urb_closed [OF submit(7)] .
  show ?thesis
  proof (cases out)
    case SInFlight
    then obtain b where "fill ring key en1 = Some (b, en')" using submit(8) by auto
    with k1 fill_closed sends_nothing_trans show ?thesis by blast
  qed (use submit(8) k1 in auto)
qed (simp_all add: sends_nothing_def)

lemma pump_closed: "pump ring key offline en = Some en' \<Longrightarrow> sends_nothing en en'"
  by (erule pump_rel [where R = sends_nothing]) (auto intro: pump_round_closed sends_nothing_trans)

section \<open>What a pause does to the URBs in flight\<close>

lemma pause_flights_marks:
  "pause_flights fs st = Some (fs', st') \<Longrightarrow>
     fs' = map (\<lambda>f. if fl_result f = None then f\<lparr>fl_unlinking := True\<rparr> else f) fs \<and>
     sess.cancel_list (map fl_seqnum (filter (\<lambda>f. fl_result f = None \<and> \<not> fl_unlinking f) fs)) st = Some st'"
proof (induction fs arbitrary: st fs')
  case (Cons f fs)
  show ?case
  proof (cases "fl_result f = None \<and> \<not> fl_unlinking f")
    case True
    then obtain st1 gs where "unlink (fl_seqnum f) st = Some st1" "pause_flights fs st1 = Some (gs, st')"
      "fs' = f\<lparr>fl_unlinking := True\<rparr> # gs" using Cons.prems by (auto simp: bind_eq_Some_conv)
    with Cons.IH True show ?thesis by auto
  next
    case False
    then obtain gs where gs: "pause_flights fs st = Some (gs, st')" "fs' = f # gs"
      using Cons.prems by (auto simp: bind_eq_Some_conv split: if_splits)
    moreover have "(if fl_result f = None then f\<lparr>fl_unlinking := True\<rparr> else f) = f"
      using False by (cases f) auto
    ultimately show ?thesis using Cons.IH [OF gs(1)] False by auto
  qed
qed simp

end
