(* ===== verification/Io_Ring.thy ===== *)
theory Io_Ring
  imports Engine_System
begin

text \<open>
  The transfer ring of macOS, \<open>IoRing\<close> of \<open>src/src/host.rs\<close>: messages lie in arrays joined by link
  messages, in memory shared with the host. The endpoint state machine of the IOUSBHost framework
  and the memory layout of a message are arguments; the memory is the part that the endpoint's
  messages and buffers live in.
\<close>

section \<open>Statuses and speeds\<close>

datatype CiStatus = CiSuccess | CiOffline | CiTimeout | CiEndpointStopped | CiProtocolError
  | CiTransactionError | CiOverrunError | CiStallError | CiError | CiNoResources

definition ci_status :: "Status \<Rightarrow> CiStatus" where
  "ci_status s =
     (case s of StSuccess \<Rightarrow> CiSuccess | StOffline \<Rightarrow> CiOffline | StTimeout \<Rightarrow> CiTimeout
      | StEndpointStopped \<Rightarrow> CiEndpointStopped | StProtocolError \<Rightarrow> CiProtocolError
      | StTransactionError \<Rightarrow> CiTransactionError | StOverrunError \<Rightarrow> CiOverrunError
      | StStallError \<Rightarrow> CiStallError | StError \<Rightarrow> CiError)"

datatype CiSpeed = CiLow | CiFull | CiHigh | CiSuper | CiSuperPlus

definition ci_speed :: "Speed \<Rightarrow> CiSpeed" where
  "ci_speed s =
     (case s of SpLow \<Rightarrow> CiLow | SpFull \<Rightarrow> CiFull | SpUnknown \<Rightarrow> CiFull | SpHigh \<Rightarrow> CiHigh
      | SpWireless \<Rightarrow> CiHigh | SpSuper \<Rightarrow> CiSuper | SpSuperPlus \<Rightarrow> CiSuperPlus)"

section \<open>Memory\<close>

type_synonym memory = "u64 \<Rightarrow> u8"

definition slice :: "memory \<Rightarrow> u64 \<Rightarrow> nat \<Rightarrow> bytes" where
  "slice mem at len = map (\<lambda>i. mem (at + of_nat i)) [0..<len]"

definition copy_to :: "memory \<Rightarrow> u64 \<Rightarrow> bytes \<Rightarrow> memory" where
  "copy_to mem at data =
     (\<lambda>a. if unat (a - at) < length data then data ! unat (a - at) else mem a)"

section \<open>The ring\<close>

text \<open>
  What the framework provides: \<open>sdk_message\<close> reads the message at an address, \<open>sdk_message_size\<close>
  is its size, and the state machine says whether the endpoint is active, where its current
  message is, and takes a completion.
\<close>

record 's RingSdk =
  sdk_message :: "memory \<Rightarrow> u64 \<Rightarrow> RawMessage"
  sdk_message_size :: u64
  sdk_active :: "'s \<Rightarrow> bool"
  sdk_current :: "'s \<Rightarrow> u64"
  sdk_enqueue :: "'s \<Rightarrow> memory \<Rightarrow> u64 \<Rightarrow> CiStatus \<Rightarrow> u32 \<Rightarrow> (string + unit) \<times> 's \<times> memory"

record 's IoRing =
  io_machine :: 's
  io_memory :: memory

fun message_walk :: "'s RingSdk \<Rightarrow> memory \<Rightarrow> nat \<Rightarrow> u64 \<Rightarrow> nat \<Rightarrow> u64 option" where
  "message_walk sdk mem 0 ptr remaining = None"
| "message_walk sdk mem (Suc n) ptr remaining =
     (let msg = sdk_message sdk mem ptr in
      if \<not> is_valid msg then None
      else if message_type msg = MT_LINK then
        (if data1 msg = 0 then None else message_walk sdk mem n (data1 msg) remaining)
      else if remaining = 0 then Some ptr
      else message_walk sdk mem n (ptr + sdk_message_size sdk) (remaining - 1))"

definition message_at :: "'s RingSdk \<Rightarrow> 's IoRing \<Rightarrow> nat \<Rightarrow> u64 option" where
  "message_at sdk r ahead =
     message_walk sdk (io_memory r) ((ahead + 1) * 4) (sdk_current sdk (io_machine r)) ahead"

definition io_active :: "'s RingSdk \<Rightarrow> 's IoRing \<Rightarrow> bool" where
  "io_active sdk r = sdk_active sdk (io_machine r)"

definition io_current :: "'s RingSdk \<Rightarrow> 's IoRing \<Rightarrow> u64 \<times> Transfer option" where
  "io_current sdk r =
     (let ptr = sdk_current sdk (io_machine r)
      in (ptr, Transfer_decode (sdk_message sdk (io_memory r) ptr)))"

definition io_peek :: "'s RingSdk \<Rightarrow> 's IoRing \<Rightarrow> nat \<Rightarrow> (u64 \<times> Transfer) option" where
  "io_peek sdk r ahead = do {
     ptr \<leftarrow> message_at sdk r ahead;
     transfer \<leftarrow> Transfer_decode (sdk_message sdk (io_memory r) ptr);
     Some (ptr, transfer)
   }"

definition io_read :: "'s RingSdk \<Rightarrow> 's IoRing \<Rightarrow> nat \<Rightarrow> nat \<Rightarrow> bytes" where
  "io_read sdk r ahead len =
     (case message_at sdk r ahead of
        None \<Rightarrow> []
      | Some ptr \<Rightarrow>
          let msg = sdk_message sdk (io_memory r) ptr;
              len = min len (unat (transfer_length msg))
          in if len = 0 then [] else slice (io_memory r) (buffer msg) len)"

definition io_complete ::
  "'s RingSdk \<Rightarrow> 's IoRing \<Rightarrow> Status \<Rightarrow> bytes \<Rightarrow> u32 \<Rightarrow> bool \<times> 's IoRing" where
  "io_complete sdk r status data len =
     (let ptr = sdk_current sdk (io_machine r);
          msg = sdk_message sdk (io_memory r) ptr;
          n = min (length data) (unat (transfer_length msg));
          mem = (if 0 < n then copy_to (io_memory r) (buffer msg) (take n data) else io_memory r);
          (res, machine, mem) =
            sdk_enqueue sdk (io_machine r) mem ptr (ci_status status) (min len (transfer_length msg))
      in (case res of Inl _ \<Rightarrow> False | Inr _ \<Rightarrow> True, r\<lparr>io_machine := machine, io_memory := mem\<rparr>))"

definition io_ring :: "'s RingSdk \<Rightarrow> 's IoRing Ring" where
  "io_ring sdk = \<lparr>ring_active = io_active sdk, ring_current = io_current sdk, ring_peek = io_peek sdk,
     ring_read = io_read sdk, ring_complete = io_complete sdk\<rparr>"

lemma io_ring_simps [simp]:
  "ring_active (io_ring sdk) = io_active sdk" "ring_current (io_ring sdk) = io_current sdk"
  "ring_peek (io_ring sdk) = io_peek sdk" "ring_read (io_ring sdk) = io_read sdk"
  "ring_complete (io_ring sdk) = io_complete sdk"
  by (simp_all add: io_ring_def)

section \<open>Memory lemmas\<close>

lemma length_slice [simp]: "length (slice mem at len) = len"
  by (simp add: slice_def)

lemma slice_copy_to:
  assumes "length data \<le> 2 ^ 64"
  shows "slice (copy_to mem at data) at (length data) = data"
proof (rule nth_equalityI)
  fix i
  assume "i < length (slice (copy_to mem at data) at (length data))"
  then have i: "i < length data" by simp
  then have "unat (of_nat i :: u64) = i" using assms by (simp add: unat_of_nat)
  then show "slice (copy_to mem at data) at (length data) ! i = data ! i"
    using i by (simp add: slice_def copy_to_def)
qed simp

lemma copy_to_other: "length data \<le> unat (a - at) \<Longrightarrow> copy_to mem at data a = mem a"
  by (simp add: copy_to_def)

section \<open>The layout of a ring\<close>

text \<open>
  A ring at an address, as a list of its messages' addresses: a message is valid and is not a
  link, the next one follows in the array, and up to three links may lead to it.
\<close>

inductive ring_at :: "'s RingSdk \<Rightarrow> memory \<Rightarrow> nat \<Rightarrow> u64 \<Rightarrow> u64 list \<Rightarrow> bool" for sdk mem where
  the_end: "\<not> is_valid (sdk_message sdk mem ptr) \<Longrightarrow> ring_at sdk mem links ptr []"
| message: "\<lbrakk>is_valid (sdk_message sdk mem ptr); message_type (sdk_message sdk mem ptr) \<noteq> MT_LINK;
    ring_at sdk mem 3 (ptr + sdk_message_size sdk) ptrs\<rbrakk> \<Longrightarrow> ring_at sdk mem links ptr (ptr # ptrs)"
| link: "\<lbrakk>is_valid (sdk_message sdk mem ptr); message_type (sdk_message sdk mem ptr) = MT_LINK;
    data1 (sdk_message sdk mem ptr) \<noteq> 0; ring_at sdk mem links (data1 (sdk_message sdk mem ptr)) ptrs\<rbrakk>
    \<Longrightarrow> ring_at sdk mem (Suc links) ptr ptrs"

lemma walk_finds:
  "ring_at sdk mem links ptr ptrs \<Longrightarrow> links + 1 + 4 * k \<le> n \<Longrightarrow>
     message_walk sdk mem n ptr k = (if k < length ptrs then Some (ptrs ! k) else None)"
proof (induction arbitrary: k n rule: ring_at.induct)
  case (the_end ptr links)
  then show ?case by (cases n) (auto simp: Let_def)
next
  case (message ptr ptrs links)
  then obtain n' where n: "n = Suc n'" by (cases n) auto
  show ?case
  proof (cases k)
    case 0
    then show ?thesis using message by (simp add: n Let_def)
  next
    case (Suc k')
    then have "3 + 1 + 4 * k' \<le> n'" using message.prems by (simp add: n)
    from message.IH [OF this] show ?thesis using message.hyps by (simp add: n Let_def Suc)
  qed
next
  case (link ptr links ptrs)
  then obtain n' where n: "n = Suc n'" by (cases n) auto
  then have "links + 1 + 4 * k \<le> n'" using link.prems by simp
  from link.IH [OF this] show ?case using link.hyps by (simp add: n Let_def)
qed

lemma ring_at_valid:
  "ring_at sdk mem links ptr ptrs \<Longrightarrow> p \<in> set ptrs \<Longrightarrow>
     is_valid (sdk_message sdk mem p) \<and> message_type (sdk_message sdk mem p) \<noteq> MT_LINK"
  by (induction rule: ring_at.induct) auto

lemma message_at_ring:
  assumes "ring_at sdk (io_memory r) 3 (sdk_current sdk (io_machine r)) ptrs"
  shows "message_at sdk r k = (if k < length ptrs then Some (ptrs ! k) else None)"
  unfolding message_at_def using walk_finds [OF assms, of k "(k + 1) * 4"] by simp

section \<open>Requests for a ring\<close>

lemma io_peek_decode:
  "io_peek sdk r k = Some (p, t) \<longleftrightarrow>
     message_at sdk r k = Some p \<and> Transfer_decode (sdk_message sdk (io_memory r) p) = Some t"
  by (auto simp: io_peek_def bind_eq_Some_conv)

lemma decode_length:
  "Transfer_decode m = Some (TNormal len) \<Longrightarrow> len = transfer_length m"
  "Transfer_decode m = Some (TIsochronous len frame) \<Longrightarrow> len = transfer_length m"
  by (auto simp: Transfer_decode_def split: if_splits)

lemma length_io_read:
  "message_at sdk r k = Some p \<Longrightarrow>
     length (io_read sdk r k n) = min n (unat (transfer_length (sdk_message sdk (io_memory r) p)))"
  by (simp add: io_read_def Let_def)

lemma io_read_full:
  assumes "io_peek sdk r k = Some (p, TNormal len) \<or> (\<exists>frame. io_peek sdk r k = Some (p, TIsochronous len frame))"
  shows "length (io_read sdk r k (unat len)) = unat len"
proof -
  have "message_at sdk r k = Some p" "len = transfer_length (sdk_message sdk (io_memory r) p)"
    using assms decode_length by (auto simp: io_peek_decode)
  then show ?thesis by (simp add: length_io_read)
qed

text \<open>The message at the head, unless it is a link, is the first one found.\<close>

lemma current_peek:
  assumes "io_current sdk r = (p, Some t)" "\<And>b. t \<noteq> TLink b"
  shows "io_peek sdk r 0 = Some (p, t)"
proof -
  have p: "p = sdk_current sdk (io_machine r)" and d: "Transfer_decode (sdk_message sdk (io_memory r) p) = Some t"
    using assms(1) by (auto simp: io_current_def Let_def)
  have "is_valid (sdk_message sdk (io_memory r) p)" "message_type (sdk_message sdk (io_memory r) p) \<noteq> MT_LINK"
    using d assms(2) by (auto simp: Transfer_decode_def transfer_types split: if_splits)
  then show ?thesis using d by (simp add: io_peek_decode message_at_def numeral_eq_Suc Let_def flip: p)
qed

text \<open>The address that the server computes is the endpoint's, when it is one of a USB endpoint.\<close>

lemma address_of_endpoint:
  fixes e :: u8
  assumes "e AND 0x70 = 0"
  shows "(ucast (ucast (e AND 0x0f) :: u32) OR (if Direction_of_endpoint e = In then 0x80 else 0) :: u8) = e"
proof (rule bit_word_eqI)
  fix n
  assume n: "n < LENGTH(8)"
  have b: "\<not> bit e i" if "i \<in> {4, 5, 6}" for i
  proof -
    have "\<not> bit (e AND 0x70) i" using assms by simp
    moreover have "bit (0x70 :: u8) i" using that by auto
    ultimately show ?thesis by (simp add: bit_and_iff)
  qed
  have d: "Direction_of_endpoint e = In \<longleftrightarrow> bit e 7"
    using and_exp_eq_0 [of 7 e] by (auto simp: Direction_of_endpoint_def)
  have lo: "bit (0x0f :: u8) n \<longleftrightarrow> n < 4" and hi: "bit (0x80 :: u8) n \<longleftrightarrow> n = 7"
    using n by (auto simp: less_Suc_eq numeral_eq_Suc)
  consider "n < 4" | "n \<in> {4, 5, 6}" | "n = 7" using n by (auto simp: less_Suc_eq numeral_eq_Suc)
  then show "bit (ucast (ucast (e AND 0x0f) :: u32) OR (if Direction_of_endpoint e = In then 0x80 else 0) :: u8) n = bit e n"
    using b d lo hi n by cases (auto simp: bit_simps)
qed


text \<open>The server knows the endpoint by the attributes that macOS passed on, if it knows it.\<close>

definition known_as :: "(u8 \<times> u8) list \<Rightarrow> u8 \<Rightarrow> EndpointInfo \<Rightarrow> bool" where
  "known_as eps address info \<longleftrightarrow>
     (\<forall>attributes. map_of eps address = Some attributes \<longrightarrow> endpoint_kind attributes = kind info)"

lemma endpoint_kind_periodic:
  "attributes AND 3 = 1 \<Longrightarrow> endpoint_kind attributes = Isochronous"
  "attributes AND 3 = 3 \<Longrightarrow> endpoint_kind attributes = Interrupt"
  by (simp_all add: endpoint_kind_def)

lemma request_accepted:
  assumes "sr_ep req = snd key" "sr_direction req = Direction_of_endpoint (snd key)" "snd key AND 0x70 = 0"
    and "known_as eps (snd key) info"
    and "kind info \<in> {Isochronous, Interrupt} \<Longrightarrow> sr_interval req \<noteq> 0"
    and "kind info = Isochronous \<Longrightarrow> sr_iso_packets req \<noteq> []"
  shows "endpoint_violation eps (requested_urb 0 0 req) = None"
proof -
  let ?u = "requested_urb 0 0 req"
  have "is_in ?u \<longleftrightarrow> Direction_of_endpoint (snd key) = In"
    by (simp add: is_in_def requested_urb_def assms(2) split: Direction.split)
  then have "urb_address ?u = (ucast (ucast (snd key AND 0x0f) :: u32) OR
      (if Direction_of_endpoint (snd key) = In then 0x80 else 0))"
    by (simp add: urb_address_def requested_urb_def assms(1))
  then have a: "urb_address ?u = snd key" using address_of_endpoint [OF assms(3)] by simp
  have u: "u_interval ?u = sr_interval req" "u_iso ?u = sr_iso_packets req"
    by (simp_all add: requested_urb_def)
  show ?thesis
  proof (cases "map_of eps (snd key)")
    case (Some attributes)
    then have "endpoint_kind attributes = kind info" using assms(4) by (simp add: known_as_def)
    then show ?thesis
      unfolding endpoint_violation_def a u Some option.case
      using assms(5,6) endpoint_kind_periodic [of attributes] by auto
  qed (simp add: endpoint_violation_def a)
qed

lemma data_request_accepted:
  assumes "data_request (io_ring sdk) sp ep key k t = Some (req, stage)" "io_peek sdk (ep_ring ep) k = Some (p, t)"
    and "snd key AND 0x70 = 0" "known_as eps (snd key) (ep_info ep)"
    and "kind (ep_info ep) = Isochronous \<longleftrightarrow> (\<exists>len frame. t = TIsochronous len frame)"
    and "message_length t \<le> MAX_TRANSFER_LENGTH"
  shows "wf_request eps req"
proof -
  note pos = urb_interval_range [of "ep_info ep" sp]
  from assms(1) show ?thesis
  proof (cases rule: data_request_fields)
    case (normal len)
    then have "endpoint_violation eps (requested_urb 0 0 req) = None"
      using assms(3-5) pos by (intro request_accepted [where info = "ep_info ep"]) auto
    then show ?thesis
      using normal assms(2,6) io_read_full [of sdk "ep_ring ep" k p len]
      by (auto simp: wf_request_def Direction_of_endpoint_def message_length_def)
  next
    case (isochronous len frame)
    have "max (urb_interval (ep_info ep) sp) 1 \<noteq> 0" by (auto simp: max_def word_le_nat_alt)
    then have "endpoint_violation eps (requested_urb 0 0 req) = None"
      using isochronous assms(3-5) by (intro request_accepted [where info = "ep_info ep"]) auto
    then show ?thesis
      using isochronous assms(2,6) io_read_full [of sdk "ep_ring ep" k p len]
      by (auto simp: wf_request_def Direction_of_endpoint_def message_length_def)
  qed
qed

lemma control_request_accepted:
  assumes "message_at sdk (ep_ring ep) 0 = Some p" "len \<le> transfer_length (sdk_message sdk (io_memory (ep_ring ep)) p) \<or> len = 0"
    and "length bs = 8" "len \<le> MAX_TRANSFER_LENGTH" "map_of eps 0 = None" "map_of eps 0x80 = None"
  shows "wf_request eps (control_request (io_ring sdk) ep bs len)"
proof -
  let ?req = "control_request (io_ring sdk) ep bs len"
  have "urb_address (requested_urb 0 0 ?req) \<in> {0, 0x80}"
    by (simp add: urb_address_def requested_urb_def is_in_def control_request_fields)
  then have "endpoint_violation eps (requested_urb 0 0 ?req) = None"
    using assms(5,6) by (auto simp: endpoint_violation_def)
  moreover have "length (io_read sdk (ep_ring ep) 0 (unat len)) = unat len"
    using assms(1,2) by (auto simp: length_io_read word_le_nat_alt)
  ultimately show ?thesis using assms(3,4) by (simp add: wf_request_def control_request_fields)
qed

lemma wf_request_parsed:
  assumes "wf_request eps req" "q \<notin> pend"
  shows "serve_command eps dev pend \<lparr>avail = CmdSubmit_encode (cmd_of q dev req) [] @ rest, ending = e\<rparr> =
    (Some (SubmitCmd (requested_urb q dev req), \<lparr>avail = rest, ending = e\<rparr>), [])"
  using serve_submit_encode [OF wf_cmd_of [OF assms(1)] cmd_of_accepted [OF assms(1)], where dev = dev and pend = pend] assms(2)
  by (simp add: cmd_of_violations [OF assms(1)])

section \<open>Properties\<close>

text \<open>C33. What the engine sends for a macOS ring is what a server accepts, the stages of control transfers
  included. For the message at the head of the ring, and for a message further on, the command that is sent
  is read by the server as the URB of the request, and none of its checks fails, after which Linux drops the connection:
  the data has the announced length, a periodic endpoint has an interval and an isochronous one its
  packet. This rests on what the host and the device do: messages are of at most 16 MiB, which
  the engine does not check (control transfers stay below it by their length field), isochronous messages are for isochronous
  endpoints, the kind of an endpoint is the one the server knows, an endpoint address has no reserved
  bits, and endpoint 0 is in no descriptor. The setup that a control endpoint keeps has its eight bytes.\<close>

theorem ring_requests_accepted:
  assumes "io_peek sdk (ep_ring ep) k = Some (p, t) \<and> data_request (io_ring sdk) sp ep key k t = Some (req, stage) \<or>
      io_current sdk (ep_ring ep) = (p, Some t) \<and> head_request (io_ring sdk) sp ep key t = (NSubmit req stage, ep')"
    and "message_length t \<le> MAX_TRANSFER_LENGTH"
    and "kind (ep_info ep) = Isochronous \<longleftrightarrow> (\<exists>len frame. t = TIsochronous len frame)"
    and "snd key AND 0x70 = 0" "known_as eps (snd key) (ep_info ep)" "map_of eps 0 = None" "map_of eps 0x80 = None"
    and "\<forall>s. ep_setup ep = Some s \<longrightarrow> length (su_bytes s) = 8"
  shows "wf_request eps req \<and>
    (\<forall>q dev pend rest e. q \<notin> pend \<longrightarrow>
       serve_command eps dev pend \<lparr>avail = CmdSubmit_encode (cmd_of q dev req) [] @ rest, ending = e\<rparr> =
         (Some (SubmitCmd (requested_urb q dev req), \<lparr>avail = rest, ending = e\<rparr>), []))"
proof -
  note data = data_request_accepted [OF _ _ assms(4,5,3,2)]
  have "wf_request eps req"
    using assms(1)
  proof (elim disjE conjE)
    assume c: "io_current sdk (ep_ring ep) = (p, Some t)" and h: "head_request (io_ring sdk) sp ep key t = (NSubmit req stage, ep')"
    have "t \<noteq> TLink b" for b using h by (auto simp: head_request_def Let_def continue_if_def split: if_splits)
    from current_peek [OF c this] have pk: "io_peek sdk (ep_ring ep) 0 = Some (p, t)" .
    then have at: "message_at sdk (ep_ring ep) 0 = Some p"
      and dec: "Transfer_decode (sdk_message sdk (io_memory (ep_ring ep)) p) = Some t" by (simp_all add: io_peek_decode)
    from h show ?thesis
    proof (cases rule: head_request_submits)
      case data
      from data_request_accepted [OF data(2) pk assms(4,5,3,2)] show ?thesis .
    next
      case (control_data s len)
      let ?w = "ucast (from_le [su_bytes s ! 6, su_bytes s ! 7] :: u16) :: u32"
      have "unat ?w < 2 ^ 16"
        using unsigned_less [of "from_le [su_bytes s ! 6, su_bytes s ! 7] :: u16", where ?'a = nat]
        by (simp add: unsigned_ucast_eq take_bit_nat_eq_self)
      then have "min len ?w \<le> MAX_TRANSFER_LENGTH"
        by (auto simp: MAX_TRANSFER_LENGTH_def min_def word_le_nat_alt)
      moreover have "min len ?w \<le> transfer_length (sdk_message sdk (io_memory (ep_ring ep)) p)"
        using decode_length(1) [OF dec [unfolded control_data(2)]] by simp
      ultimately show ?thesis using control_data(3,5) assms(6-8) by (auto intro!: control_request_accepted [OF at])
    next
      case (control_status s)
      then show ?thesis using assms(6-8) by (auto intro!: control_request_accepted [OF at])
    qed
  qed (rule data)
  then show ?thesis using wf_request_parsed by blast
qed

text \<open>C34. Looking ahead follows the layout of the ring: the \<open>k\<close>th message after the head is found across
  links, whatever lies between them, nothing is found beyond the last one, and reading a
  message gives its buffer, cut to the length asked for.\<close>

theorem io_ring_follows_layout:
  assumes "ring_at sdk (io_memory r) 3 (sdk_current sdk (io_machine r)) ptrs"
  shows "map_option fst (io_peek sdk r k) = (if k < length ptrs then Some (ptrs ! k) else None) \<and>
    (k < length ptrs \<longrightarrow> (let m = sdk_message sdk (io_memory r) (ptrs ! k) in
       io_read sdk r k len = slice (io_memory r) (buffer m) (min len (unat (transfer_length m)))))"
proof (cases "k < length ptrs")
  case True
  then have "is_valid (sdk_message sdk (io_memory r) (ptrs ! k))" using ring_at_valid [OF assms] by simp
  then show ?thesis
    using True message_at_ring [OF assms, of k]
    by (auto simp: io_peek_def io_read_def Transfer_decode_def Let_def slice_def)
next
  case False
  then show ?thesis using message_at_ring [OF assms, of k] by (simp add: io_peek_def)
qed

text \<open>C35. Completing the head message writes at most the bytes of its buffer: the memory handed to the
  framework has the data at the start of the buffer and is unchanged outside it, and
  the length reported is at most the one of the message.\<close>

theorem io_complete_in_bounds:
  "let ptr = sdk_current sdk (io_machine r); m = sdk_message sdk (io_memory r) ptr;
       n = unat (transfer_length m) in
   \<exists>mem len'. slice mem (buffer m) (min (length data) n) = take n data \<and>
     (\<forall>a. n \<le> unat (a - buffer m) \<longrightarrow> mem a = io_memory r a) \<and> len' \<le> transfer_length m \<and> len' \<le> len \<and>
     (case sdk_enqueue sdk (io_machine r) mem ptr (ci_status status) len' of
        (res, machine, mem') \<Rightarrow>
          io_complete sdk r status data len = (\<not> isl res, r\<lparr>io_machine := machine, io_memory := mem'\<rparr>))"
proof -
  define ptr where "ptr = sdk_current sdk (io_machine r)"
  define m where "m = sdk_message sdk (io_memory r) ptr"
  define n where "n = unat (transfer_length m)"
  define mem where "mem = (if 0 < min (length data) n then copy_to (io_memory r) (buffer m) (take (min (length data) n) data)
    else io_memory r)"
  have n: "n < 2 ^ 32" using unsigned_less [of "transfer_length m"] by (simp add: n_def)
  have "slice mem (buffer m) (min (length data) n) = take n data"
  proof (cases "0 < min (length data) n")
    case True
    let ?d = "take (min (length data) n) data"
    have "slice (copy_to (io_memory r) (buffer m) ?d) (buffer m) (length ?d) = ?d"
      using n by (intro slice_copy_to) simp
    moreover have "length ?d = min (length data) n" "?d = take n data" by (auto simp: min_def)
    ultimately show ?thesis using True by (simp add: mem_def)
  next
    case False
    then have "min (length data) n = 0" "take n data = []" by auto
    then show ?thesis by (simp add: slice_def)
  qed
  moreover have "mem a = io_memory r a" if "n \<le> unat (a - buffer m)" for a
    using that by (auto simp: mem_def intro: copy_to_other)
  moreover have "io_complete sdk r status data len =
      (case sdk_enqueue sdk (io_machine r) mem ptr (ci_status status) (min len (transfer_length m)) of
        (res, machine, mem') \<Rightarrow> (\<not> isl res, r\<lparr>io_machine := machine, io_memory := mem'\<rparr>))"
    by (auto simp: io_complete_def Let_def mem_def ptr_def m_def n_def split: prod.split sum.split)
  ultimately show ?thesis
    unfolding Let_def ptr_def [symmetric] m_def [symmetric] n_def [symmetric]
    by (intro exI [of _ mem] exI [of _ "min len (transfer_length m)"]) (auto split: prod.split)
qed

section \<open>Witnesses\<close>

text \<open>
  A framework whose messages are 16 little-endian bytes and whose state machine is the number of
  messages left and the address of the current one.
\<close>

definition le_message :: "memory \<Rightarrow> u64 \<Rightarrow> RawMessage" where
  "le_message mem p = \<lparr>control = from_le (slice mem p 4), data0 = from_le (slice mem (p + 4) 4),
     data1 = from_le (slice mem (p + 8) 8)\<rparr>"

definition sample_ring_sdk :: "(nat \<times> u64) RingSdk" where
  "sample_ring_sdk = \<lparr>sdk_message = le_message, sdk_message_size = 16, sdk_active = (\<lambda>s. True),
     sdk_current = snd,
     sdk_enqueue = (\<lambda>s mem ptr status len.
       if fst s = 0 then (Inl ''no message'', s, mem) else (Inr (), (fst s - 1, snd s + 16), mem))\<rparr>"

text \<open>A link at 0x100 to one normal message at 0x200 with 8 bytes at 0x300.\<close>

definition sample_memory :: memory where
  "sample_memory = (\<lambda>a. 0)(0x100 := 0x3c, 0x101 := 0x80, 0x109 := 2,
     0x200 := 0x39, 0x201 := 0x80, 0x204 := 8, 0x209 := 3)"

definition sample_io_ring :: "(nat \<times> u64) IoRing" where
  "sample_io_ring = \<lparr>io_machine = (1, 0x100), io_memory = sample_memory\<rparr>"

lemma sample_messages:
  "le_message sample_memory 0x100 = \<lparr>control = 0x803c, data0 = 0, data1 = 0x200\<rparr>"
  "le_message sample_memory 0x200 = \<lparr>control = 0x8039, data0 = 8, data1 = 0x300\<rparr>"
  "le_message sample_memory 0x210 = \<lparr>control = 0, data0 = 0, data1 = 0\<rparr>"
proof -
  have u: "[0..<4] = [0, 1, 2, 3]" "[0..<8] = [0, 1, 2, 3, 4, 5, 6, 7]" by (simp_all add: upt_rec)
  show "le_message sample_memory 0x100 = \<lparr>control = 0x803c, data0 = 0, data1 = 0x200\<rparr>"
    "le_message sample_memory 0x200 = \<lparr>control = 0x8039, data0 = 8, data1 = 0x300\<rparr>"
    "le_message sample_memory 0x210 = \<lparr>control = 0, data0 = 0, data1 = 0\<rparr>"
    by (simp_all add: le_message_def slice_def u sample_memory_def from_le_def from_be_def)
qed

lemma sample_ring_simps [simp]:
  "sdk_message sample_ring_sdk = le_message" "sdk_message_size sample_ring_sdk = 16"
  "sdk_current sample_ring_sdk = snd" "sdk_active sample_ring_sdk s" "io_memory sample_io_ring = sample_memory"
  "io_machine sample_io_ring = (1, 0x100)"
  by (simp_all add: sample_ring_sdk_def sample_io_ring_def)

lemma sample_layout: "ring_at sample_ring_sdk sample_memory 3 0x100 [0x200]"
proof -
  have "ring_at sample_ring_sdk sample_memory 3 0x210 []"
    by (rule ring_at.the_end) (simp add: sample_messages is_valid_def control_masks)
  then have "ring_at sample_ring_sdk sample_memory 2 0x200 [0x200]"
    by (intro ring_at.message)
      (simp_all add: sample_messages is_valid_def message_type_def control_masks transfer_types)
  then have "ring_at sample_ring_sdk sample_memory (Suc 2) 0x100 [0x200]"
    by (intro ring_at.link)
      (simp_all add: sample_messages is_valid_def message_type_def control_masks transfer_types)
  then show ?thesis by (simp add: numeral_3_eq_3)
qed

lemma sample_decode: "Transfer_decode (le_message sample_memory 0x200) = Some (TNormal 8)"
  by (simp add: sample_messages Transfer_decode_def is_valid_def message_type_def transfer_length_def
      control_masks transfer_types)

theorem io_ring_follows_layout_witness:
  "io_peek sample_ring_sdk sample_io_ring 0 = Some (0x200, TNormal 8) \<and>
   io_read sample_ring_sdk sample_io_ring 0 4 = [0, 0, 0, 0] \<and> io_peek sample_ring_sdk sample_io_ring 1 = None"
proof -
  have l: "ring_at sample_ring_sdk (io_memory sample_io_ring) 3
      (sdk_current sample_ring_sdk (io_machine sample_io_ring)) [0x200]" using sample_layout by simp
  have "map_option fst (io_peek sample_ring_sdk sample_io_ring 0) = Some 0x200"
    "io_read sample_ring_sdk sample_io_ring 0 4 = slice sample_memory 0x300 4"
    using io_ring_follows_layout [OF l, of 0 4]
    by (simp_all add: sample_messages buffer_def transfer_length_def control_masks)
  moreover have "io_peek sample_ring_sdk sample_io_ring 1 = None"
    using io_ring_follows_layout [OF l, of 1] by simp
  moreover have "slice sample_memory 0x300 4 = [0, 0, 0, 0]"
    by (simp add: slice_def sample_memory_def upt_rec)
  ultimately show ?thesis by (auto simp: io_peek_decode sample_decode)
qed

theorem ring_requests_accepted_witness:
  "wf_request [(0x02, 2)] ((SubmitRequest_new 0x02 Out 8)\<lparr>sr_data := replicate 8 0\<rparr>)"
proof -
  let ?ep = "\<lparr>ep_ring = sample_io_ring, ep_info = \<lparr>kind = Bulk, max_packet_size = 512, b_interval = 0\<rparr>,
     ep_in_flight = [], ep_setup = None, ep_hidden_config = None\<rparr>"
  have at: "message_at sample_ring_sdk sample_io_ring 0 = Some 0x200"
    using message_at_ring [of sample_ring_sdk sample_io_ring "[0x200]" 0] sample_layout by simp
  have pk: "io_peek sample_ring_sdk (ep_ring ?ep) 0 = Some (0x200, TNormal 8)"
    by (simp add: io_peek_decode at sample_decode)
  have "replicate 8 (0 :: u8) = [0, 0, 0, 0, 0, 0, 0, 0]" by (simp add: numeral_eq_Suc)
  then have "slice sample_memory 0x300 8 = replicate 8 0"
    by (simp add: slice_def sample_memory_def upt_rec)
  then have rd: "io_read sample_ring_sdk sample_io_ring 0 8 = replicate 8 0"
    by (simp add: io_read_def at sample_messages buffer_def transfer_length_def control_masks)
  have dr: "data_request (io_ring sample_ring_sdk) SpHigh ?ep (1, 0x02) 0 (TNormal 8) =
      Some ((SubmitRequest_new 0x02 Out 8)\<lparr>sr_data := replicate 8 0\<rparr>, NormalStage)"
    by (simp add: data_request_def Let_def Direction_of_endpoint_def urb_interval_def rd SubmitRequest_new_def)
  show ?thesis
    using ring_requests_accepted [of sample_ring_sdk ?ep 0 "0x200" "TNormal 8" SpHigh "(1, 0x02)"
        "(SubmitRequest_new 0x02 Out 8)\<lparr>sr_data := replicate 8 0\<rparr>" NormalStage ?ep "[(0x02, 2)]"] dr pk
    by (simp add: known_as_def endpoint_kind_def message_length_def MAX_TRANSFER_LENGTH_def)
qed

text \<open>Ten bytes for the eight of the message at 0x200: eight arrive, and the byte after the buffer stays.\<close>

theorem io_complete_in_bounds_witness:
  "\<exists>r. io_complete sample_ring_sdk (sample_io_ring\<lparr>io_machine := (1, 0x200)\<rparr>) StSuccess (replicate 10 7) 10 = (True, r) \<and>
     slice (io_memory r) 0x300 8 = replicate 8 7 \<and> io_memory r 0x308 = 0"
proof -
  define r0 where "r0 = sample_io_ring\<lparr>io_machine := (1, 0x200)\<rparr>"
  have r: "sdk_current sample_ring_sdk (1, 0x200) = 0x200"
    "sdk_message sample_ring_sdk sample_memory 0x200 = \<lparr>control = 0x8039, data0 = 8, data1 = 0x300\<rparr>"
    "buffer \<lparr>control = 0x8039, data0 = 8, data1 = 0x300\<rparr> = 0x300"
    "unat (transfer_length \<lparr>control = 0x8039, data0 = 8, data1 = 0x300\<rparr>) = 8"
    "io_memory r0 = sample_memory" "io_machine r0 = (1, 0x200)"
    by (simp_all add: r0_def sample_messages buffer_def transfer_length_def control_masks)
  obtain mem len' where mem: "slice mem 0x300 8 = take 8 (replicate 10 7)"
    "\<forall>a. 8 \<le> unat (a - 0x300) \<longrightarrow> mem a = sample_memory a"
    "io_complete sample_ring_sdk r0 StSuccess (replicate 10 7) 10 = (True, r0\<lparr>io_machine := (0, 0x210), io_memory := mem\<rparr>)"
    using io_complete_in_bounds [of sample_ring_sdk r0 "replicate 10 7" 10 StSuccess, unfolded Let_def r]
    by (auto simp: sample_ring_sdk_def)
  have "mem 0x308 = sample_memory 0x308" using mem(2) by simp
  then have "mem 0x308 = 0" by (simp add: sample_memory_def)
  moreover have "take 8 (replicate 10 (7 :: u8)) = replicate 8 7" by simp
  ultimately show ?thesis using mem(1,3) unfolding r0_def by simp
qed

end
