(* ===== verification/Frame_Clock.thy ===== *)
theory Frame_Clock
  imports Hci
begin

text \<open>
  The frame clock of \<open>src/src/host.rs\<close>: it maps \<open>mach_absolute_time\<close> onto USB frames of one
  millisecond. The readings of the system clock are an argument, the sequence that one call of
  \<open>next\<close> obtains; the wait for a new frame is a loop that may not end and returns nothing then.
  Arithmetic is on 64 and 128 bits as in the source, and a division by zero is nothing as well.
\<close>

section \<open>The clock\<close>

record FrameClock =
  fc_epoch :: u64
  fc_numer :: u128
  fc_denom :: u128
  fc_last :: "u64 option"

definition FrameClock_new :: "u32 \<Rightarrow> u32 \<Rightarrow> u64 \<Rightarrow> FrameClock" where
  "FrameClock_new numer denom now =
     \<lparr>fc_epoch = now, fc_numer = ucast numer, fc_denom = ucast denom, fc_last = None\<rparr>"

text \<open>The difference to the epoch wraps around, as in a build without overflow checks; a build with them panics
  on a reading before the epoch, which a monotonic clock does not give.\<close>

definition frame_at :: "FrameClock \<Rightarrow> u64 \<Rightarrow> u64 option" where
  "frame_at c ticks =
     (if fc_denom c * 1000000 = 0 then None
      else Some (ucast ((ucast (ticks - fc_epoch c) * fc_numer c) div (fc_denom c * 1000000))))"

definition start_of :: "FrameClock \<Rightarrow> u64 \<Rightarrow> u64 option" where
  "start_of c frame =
     (if fc_numer c = 0 then None
      else Some (fc_epoch c + ucast ((ucast frame * fc_denom c * 1000000) div fc_numer c)))"

partial_function (option) frame_wait :: "FrameClock \<Rightarrow> (nat \<Rightarrow> u64) \<Rightarrow> nat \<Rightarrow> u64 option" where
  "frame_wait c ticks i =
     Option.bind (frame_at c (ticks i)) (\<lambda>frame.
       if (\<exists>l. fc_last c = Some l \<and> frame \<le> l) then frame_wait c ticks (i + 1)
       else Some frame)"

definition FrameClock_next :: "(nat \<Rightarrow> u64) \<Rightarrow> FrameClock \<Rightarrow> ((u64 \<times> u64) \<times> FrameClock) option" where
  "FrameClock_next ticks c = do {
     frame \<leftarrow> frame_wait c ticks 0;
     start \<leftarrow> start_of c frame;
     Some ((frame, start), c\<lparr>fc_last := Some frame\<rparr>)
   }"

section \<open>Its arithmetic\<close>

text \<open>
  The system's timebase is a fraction of two 32-bit numbers, and a tick is not longer than a
  frame.
\<close>

definition clock_ok :: "FrameClock \<Rightarrow> bool" where
  "clock_ok c \<longleftrightarrow> 0 < unat (fc_numer c) \<and> unat (fc_numer c) < 2 ^ 32 \<and>
     0 < unat (fc_denom c) \<and> unat (fc_denom c) < 2 ^ 32 \<and>
     unat (fc_numer c) \<le> unat (fc_denom c) * 1000000"

lemma unat_mult_bound:
  fixes a b :: "'a::len word"
  assumes "unat a < m" "unat b < n" "m * n \<le> 2 ^ LENGTH('a)"
  shows "unat (a * b) = unat a * unat b"
proof -
  have "unat a * unat b < m * n" using assms(1,2) by (intro mult_strict_mono) auto
  then show ?thesis using assms(3) by (simp add: unat_word_ariths)
qed

lemma unat_u64_lt: "unat x < 2 ^ 64" for x :: u64
  using unsigned_less [of x] by simp

lemma unat_u64_128: "unat (ucast x :: u128) = unat x" for x :: u64
  using unat_u64_lt [of x] by (simp add: unsigned_ucast_eq take_bit_nat_eq_self)

lemma unat_128_u64: "unat x < 2 ^ 64 \<Longrightarrow> unat (ucast x :: u64) = unat x" for x :: u128
  by (simp add: unsigned_ucast_eq take_bit_nat_eq_self)

lemma frame_ticks: "clock_ok c \<Longrightarrow> unat (fc_denom c * 1000000) = unat (fc_denom c) * 1000000"
  unfolding clock_ok_def by (subst unat_mult_bound [where m = "2 ^ 32" and n = "2 ^ 32"]) simp_all

lemma frame_at_nat:
  assumes "clock_ok c" "fc_epoch c \<le> t"
  shows "\<exists>f. frame_at c t = Some f \<and>
    unat f = (unat t - unat (fc_epoch c)) * unat (fc_numer c) div (unat (fc_denom c) * 1000000)"
proof -
  let ?d = "unat t - unat (fc_epoch c)" and ?N = "unat (fc_numer c)" and ?D = "unat (fc_denom c) * 1000000"
  let ?q = "(ucast (t - fc_epoch c) * fc_numer c) div (fc_denom c * 1000000)"
  have d: "unat (ucast (t - fc_epoch c) :: u128) = ?d"
    using assms(2) by (simp add: unat_u64_128 unat_sub)
  have lt: "unat t < 2 ^ 64" by (rule unat_u64_lt)
  have "unat (ucast (t - fc_epoch c) * fc_numer c) = ?d * ?N"
    using assms(1) lt d by (subst unat_mult_bound [where m = "2 ^ 64" and n = "2 ^ 32"]) (auto simp: clock_ok_def)
  then have q: "unat ?q = ?d * ?N div ?D" by (simp add: unat_div_distrib frame_ticks [OF assms(1)])
  have pos: "0 < ?D" using assms(1) by (simp add: clock_ok_def)
  have "?d * ?N div ?D \<le> ?d * ?D div ?D"
    using assms(1) by (intro div_le_mono mult_le_mono2) (simp add: clock_ok_def)
  also have "\<dots> = ?d" using pos by simp
  also have "\<dots> < 2 ^ 64" using lt by simp
  finally have "unat (ucast ?q :: u64) = ?d * ?N div ?D" using q by (simp add: unat_128_u64)
  moreover have "fc_denom c * 1000000 \<noteq> 0"
    using pos frame_ticks [OF assms(1)] by (metis less_numeral_extra(3) unat_0)
  ultimately show ?thesis by (simp add: frame_at_def)
qed

lemma start_of_nat:
  assumes "clock_ok c" "unat (fc_epoch c) + unat f * (unat (fc_denom c) * 1000000) div unat (fc_numer c) < 2 ^ 64"
  shows "\<exists>s. start_of c f = Some s \<and>
    unat s = unat (fc_epoch c) + unat f * (unat (fc_denom c) * 1000000) div unat (fc_numer c)"
proof -
  let ?p = "ucast f * fc_denom c * 1000000" and ?N = "unat (fc_numer c)"
  have f: "unat f < 2 ^ 64" by (rule unat_u64_lt)
  have fd: "unat (ucast f * fc_denom c) = unat f * unat (fc_denom c)"
    using assms(1) f by (subst unat_mult_bound [where m = "2 ^ 64" and n = "2 ^ 32"]) (auto simp: clock_ok_def unat_u64_128)
  have "unat f * unat (fc_denom c) < 2 ^ 64 * 2 ^ 32"
    using assms(1) f by (intro mult_strict_mono) (auto simp: clock_ok_def)
  then have p: "unat ?p = unat f * (unat (fc_denom c) * 1000000)"
    by (subst unat_mult_bound [where m = "2 ^ 96" and n = "2 ^ 32"]) (auto simp: fd)
  have q: "unat (?p div fc_numer c) = unat f * (unat (fc_denom c) * 1000000) div ?N"
    by (simp add: unat_div_distrib p)
  then have u: "unat (ucast (?p div fc_numer c) :: u64) = unat f * (unat (fc_denom c) * 1000000) div ?N"
    using assms(2) by (subst unat_128_u64) simp_all
  have "unat (fc_epoch c + ucast (?p div fc_numer c)) =
      unat (fc_epoch c) + unat f * (unat (fc_denom c) * 1000000) div ?N"
    using assms(2) u by (subst unat_add_lem [THEN iffD1]) simp_all
  moreover have "fc_numer c \<noteq> 0" using assms(1) by (auto simp: clock_ok_def)
  ultimately show ?thesis by (simp add: start_of_def)
qed

text \<open>A frame begins at most at the tick it was read from, and less than a frame before it.\<close>

lemma div_mult_div_le: "(x * n div d) * d div n \<le> x" if "0 < n" for x n d :: nat
proof -
  have "(x * n div d) * d \<le> x * n" by simp
  then have "(x * n div d) * d div n \<le> x * n div n" by (rule div_le_mono)
  then show ?thesis using that by simp
qed

lemma div_mult_div_gt:
  fixes x n d :: nat
  assumes "0 < n" "0 < d"
  shows "(x - (x * n div d) * d div n) * n < d + n"
proof -
  define q where "q = x * n div d"
  define s where "s = q * d div n"
  have 1: "x * n < q * d + d"
    using mod_less_divisor [OF assms(2), of "x * n"] div_mult_mod_eq [of "x * n" d] unfolding q_def by linarith
  have 2: "q * d < s * n + n"
    using mod_less_divisor [OF assms(1), of "q * d"] div_mult_mod_eq [of "q * d" n] unfolding s_def by linarith
  have "s \<le> x" using div_mult_div_le [OF assms(1)] by (simp add: s_def q_def)
  then have "(x - s) * n + s * n = x * n" by (simp flip: add_mult_distrib)
  with 1 2 show ?thesis by (simp add: q_def s_def)
qed

lemma start_of_frame:
  assumes "clock_ok c" "fc_epoch c \<le> t" "frame_at c t = Some f"
  shows "\<exists>s. start_of c f = Some s \<and> fc_epoch c \<le> s \<and> s \<le> t \<and>
    (unat t - unat s) * unat (fc_numer c) < unat (fc_denom c) * 1000000 + unat (fc_numer c)"
proof -
  let ?d = "unat t - unat (fc_epoch c)" and ?N = "unat (fc_numer c)" and ?D = "unat (fc_denom c) * 1000000"
  have pos: "0 < ?N" "0 < ?D" using assms(1) by (auto simp: clock_ok_def)
  have f: "unat f = ?d * ?N div ?D" using frame_at_nat [OF assms(1,2)] assms(3) by auto
  have et: "unat (fc_epoch c) \<le> unat t" using assms(2) by (simp add: word_le_nat_alt)
  have le: "unat f * ?D div ?N \<le> ?d" unfolding f using div_mult_div_le [OF pos(1)] .
  have "unat t < 2 ^ 64" by (rule unat_u64_lt)
  then have "unat (fc_epoch c) + unat f * ?D div ?N < 2 ^ 64" using le et by linarith
  from start_of_nat [OF assms(1) this] obtain s where
    s: "start_of c f = Some s" "unat s = unat (fc_epoch c) + unat f * ?D div ?N" by blast
  have "unat t - unat s = ?d - unat f * ?D div ?N" using s(2) by simp
  then have "(unat t - unat s) * ?N < ?D + ?N" using div_mult_div_gt [OF pos, of ?d] by (simp add: f)
  then show ?thesis using s le et by (auto simp: word_le_nat_alt)
qed

section \<open>The wait\<close>

lemma frame_wait_Some:
  "frame_wait c ticks i = Some f \<Longrightarrow>
     \<exists>j\<ge>i. frame_at c (ticks j) = Some f \<and> (\<forall>l. fc_last c = Some l \<longrightarrow> l < f)"
proof (rule frame_wait.raw_induct [rotated])
  fix w :: "FrameClock \<Rightarrow> (nat \<Rightarrow> u64) \<Rightarrow> nat \<Rightarrow> u64 option" and c ticks i f
  assume IH: "\<And>c ticks i f. w c ticks i = Some f \<Longrightarrow>
      \<exists>j\<ge>i. frame_at c (ticks j) = Some f \<and> (\<forall>l. fc_last c = Some l \<longrightarrow> l < f)"
    and "Option.bind (frame_at c (ticks i)) (\<lambda>frame.
      if \<exists>l. fc_last c = Some l \<and> frame \<le> l then w c ticks (i + 1) else Some frame) = Some f"
  then obtain g where g: "frame_at c (ticks i) = Some g"
    and r: "(if \<exists>l. fc_last c = Some l \<and> g \<le> l then w c ticks (i + 1) else Some g) = Some f"
    by (auto simp: bind_eq_Some_conv)
  show "\<exists>j\<ge>i. frame_at c (ticks j) = Some f \<and> (\<forall>l. fc_last c = Some l \<longrightarrow> l < f)"
  proof (cases "\<exists>l. fc_last c = Some l \<and> g \<le> l")
    case True
    then have "w c ticks (i + 1) = Some f" using r by (simp only: if_True)
    then have "\<exists>j\<ge>i + 1. frame_at c (ticks j) = Some f \<and> (\<forall>l. fc_last c = Some l \<longrightarrow> l < f)"
      by (rule IH)
    then obtain j where "i + 1 \<le> j" "frame_at c (ticks j) = Some f" "\<forall>l. fc_last c = Some l \<longrightarrow> l < f" by blast
    then show ?thesis by (intro exI [of _ j] conjI) simp_all
  next
    case False
    then have "g = f" using r by (simp only: if_False option.inject)
    with False g show ?thesis by (intro exI [of _ i]) (auto simp: not_le)
  qed
qed

lemma frame_wait_total:
  assumes "\<And>j. frame_at c (ticks j) \<noteq> None"
    and "frame_at c (ticks n) = Some g" "\<forall>l. fc_last c = Some l \<longrightarrow> l < g" "i \<le> n"
  shows "\<exists>f. frame_wait c ticks i = Some f"
  using assms(4)
proof (induction "n - i" arbitrary: i)
  case 0
  then have "i = n" by simp
  with assms(2,3) show ?case by (subst frame_wait.simps) (auto simp: not_le)
next
  case (Suc k)
  obtain h where h: "frame_at c (ticks i) = Some h" using assms(1) by blast
  have "\<exists>f. frame_wait c ticks (i + 1) = Some f" using Suc by (intro Suc.hyps(1)) auto
  then show ?case by (subst frame_wait.simps) (auto simp: h)
qed

lemma FrameClock_next_Some:
  assumes "FrameClock_next ticks c = Some ((f, s), c')"
  shows "c' = c\<lparr>fc_last := Some f\<rparr>" "\<forall>l. fc_last c = Some l \<longrightarrow> l < f"
    "\<exists>j. frame_at c (ticks j) = Some f" "start_of c f = Some s"
  using assms frame_wait_Some [of c ticks 0 f] by (auto simp: FrameClock_next_def bind_eq_Some_conv)

lemma clock_ok_last [simp]: "clock_ok (c\<lparr>fc_last := l\<rparr>) = clock_ok c"
  by (simp add: clock_ok_def)

section \<open>Properties\<close>

text \<open>C32. The clock gives out a new frame as soon as the system clock has reached one: the wait ends, the
  frame is later than any given out before, and its time stamp lies between the start of
  the clock and the reading the frame was computed from, at most a frame and a tick before
  it, so that on 64-bit ticks nothing wraps around. The readings are not before the epoch, as those of a
  monotonic clock.\<close>

theorem frame_clock_advances:
  assumes "clock_ok c" "\<And>i. fc_epoch c \<le> ticks i"
    and "frame_at c (ticks n) = Some g" "\<forall>l. fc_last c = Some l \<longrightarrow> l < g"
  shows "\<exists>f s i. FrameClock_next ticks c = Some ((f, s), c\<lparr>fc_last := Some f\<rparr>) \<and>
    (\<forall>l. fc_last c = Some l \<longrightarrow> l < f) \<and> frame_at c (ticks i) = Some f \<and> fc_epoch c \<le> s \<and> s \<le> ticks i \<and>
    (unat (ticks i) - unat s) * unat (fc_numer c) < unat (fc_denom c) * 1000000 + unat (fc_numer c)"
proof -
  have "\<exists>f. frame_wait c ticks 0 = Some f"
    using frame_at_nat [OF assms(1,2)] assms(3,4) by (intro frame_wait_total [of _ _ n]) fastforce+
  then obtain f where f: "frame_wait c ticks 0 = Some f" by blast
  obtain j where j: "frame_at c (ticks j) = Some f" "\<forall>l. fc_last c = Some l \<longrightarrow> l < f" using frame_wait_Some [OF f] by blast
  from start_of_frame [OF assms(1,2) j(1)] f j show ?thesis by (auto simp: FrameClock_next_def)
qed

text \<open>The timebase of current hardware, 125/3 nanoseconds per tick, 24 million ticks a second.\<close>

definition sample_clock :: FrameClock where
  "sample_clock = (FrameClock_new 125 3 1000)\<lparr>fc_last := Some 0\<rparr>"

definition sample_ticks :: "nat \<Rightarrow> u64" where
  "sample_ticks i = (if i = 0 then 24000 else 49100)"

lemma sample_clock_facts:
  "clock_ok sample_clock" "fc_epoch sample_clock \<le> sample_ticks i"
  "frame_at sample_clock (sample_ticks 0) = Some 0" "frame_at sample_clock (sample_ticks 1) = Some 2"
  "fc_last sample_clock = Some 0" "start_of sample_clock 2 = Some 49000"
  by (simp_all add: clock_ok_def sample_clock_def FrameClock_new_def sample_ticks_def frame_at_def start_of_def)

lemma sample_next: "FrameClock_next sample_ticks sample_clock =
    Some ((2, 49000), sample_clock\<lparr>fc_last := Some 2\<rparr>)"
  unfolding FrameClock_next_def
  by (subst frame_wait.simps, subst frame_wait.simps) (simp add: sample_clock_facts [simplified])

theorem frame_clock_advances_witness:
  "\<exists>f s. FrameClock_next sample_ticks sample_clock = Some ((f, s), sample_clock\<lparr>fc_last := Some f\<rparr>) \<and> 0 < f"
proof -
  have "\<forall>l. fc_last sample_clock = Some l \<longrightarrow> l < 2" by (simp add: sample_clock_facts)
  from frame_clock_advances [where n = 1 and ticks = sample_ticks, OF sample_clock_facts(1,2,4) this] show ?thesis
    by (auto simp: sample_clock_facts)
qed

end
