(* ===== verification/Host.thy ===== *)
theory Host
  imports Io_Ring Frame_Clock
begin

text \<open>
  The virtual host controller of \<open>src/src/host.rs\<close>: the state shared by the handlers, the command
  dispatcher, doorbells and frame updates. The IOUSBHost framework is an argument, a record of the
  calls that the code makes; an endpoint state machine is one object that the endpoint map and the
  engine's ring both hold, so its state is kept once, in the ring. What the controller tells
  the host is recorded in order: the answers to commands and the frames reported.
\<close>

section \<open>The framework and the shared state\<close>

type_synonym ns_result = "string + unit"

record ('c, 'p, 'd, 's) Sdk =
  sdk_ring :: "'s RingSdk"
  sdk_controller_active :: "'c \<Rightarrow> bool"
  sdk_controller_inspect :: "RawMessage \<Rightarrow> 'c \<Rightarrow> ns_result \<times> 'c"
  sdk_controller_respond :: "RawMessage \<Rightarrow> CiStatus \<Rightarrow> 'c \<Rightarrow> ns_result \<times> 'c"
  sdk_controller_respond_frame :: "RawMessage \<Rightarrow> CiStatus \<Rightarrow> u64 \<Rightarrow> u64 \<Rightarrow> 'c \<Rightarrow> ns_result \<times> 'c"
  sdk_controller_frame :: "u64 \<Rightarrow> u64 \<Rightarrow> 'c \<Rightarrow> ns_result \<times> 'c"
  sdk_port_for :: "RawMessage \<Rightarrow> 'c \<Rightarrow> string + 'p"
  sdk_port_inspect :: "'p \<Rightarrow> RawMessage \<Rightarrow> 'c \<Rightarrow> ns_result \<times> 'c"
  sdk_port_respond :: "'p \<Rightarrow> RawMessage \<Rightarrow> CiStatus \<Rightarrow> 'c \<Rightarrow> ns_result \<times> 'c"
  sdk_root_port :: "'c \<Rightarrow> string + 'p"
  sdk_port_connect :: "'p \<Rightarrow> bool \<Rightarrow> 'c \<Rightarrow> 'c"
  sdk_destroy :: "'c \<Rightarrow> 'c"
  sdk_port_link_up :: "'p \<Rightarrow> CiSpeed \<Rightarrow> 'c \<Rightarrow> ns_result \<times> 'c"
  sdk_device_init :: "RawMessage \<Rightarrow> 'c \<Rightarrow> string + 'd"
  sdk_device_inspect :: "RawMessage \<Rightarrow> 'd \<Rightarrow> ns_result \<times> 'd"
  sdk_device_respond :: "RawMessage \<Rightarrow> CiStatus \<Rightarrow> 'd \<Rightarrow> ns_result \<times> 'd"
  sdk_device_respond_address :: "RawMessage \<Rightarrow> CiStatus \<Rightarrow> u8 \<Rightarrow> 'd \<Rightarrow> ns_result \<times> 'd"
  sdk_endpoint_init :: "RawMessage \<Rightarrow> 'c \<Rightarrow> string + 's"
  sdk_endpoint_inspect :: "RawMessage \<Rightarrow> 's \<Rightarrow> ns_result \<times> 's"
  sdk_endpoint_respond :: "RawMessage \<Rightarrow> CiStatus \<Rightarrow> 's \<Rightarrow> ns_result \<times> 's"
  sdk_endpoint_key :: "'s \<Rightarrow> EndpointKey"
  sdk_process_doorbell :: "u32 \<Rightarrow> 's \<Rightarrow> ns_result \<times> 's"

record ('c, 'd, 's) Host =
  ho_controller :: 'c
  ho_engine :: "'s IoRing Engine"
  ho_speed :: CiSpeed
  ho_clock :: FrameClock
  ho_devices :: "(u8, 'd) amap"
  ho_endpoints :: "EndpointKey list"
  ho_addresses :: AddressPool
  ho_powered :: bool
  ho_enumerated :: bool
  ho_answers :: "(RawMessage \<times> CiStatus) list"
  ho_frames :: "(u64 \<times> u64) list"

definition Host_new :: "'c \<Rightarrow> Shared \<Rightarrow> ExportedDevice \<Rightarrow> FrameClock \<Rightarrow> ('c, 'd, 's) Host" where
  "Host_new controller session device clock =
     \<lparr>ho_controller = controller, ho_engine = Engine_new session device,
      ho_speed = ci_speed (speed device), ho_clock = clock, ho_devices = [], ho_endpoints = [],
      ho_addresses = AddressPool_default, ho_powered = False, ho_enumerated = False,
      ho_answers = [], ho_frames = []\<rparr>"

text \<open>Dropping the controller ends the frame updates and destroys the framework's controller.\<close>

definition Controller_drop :: "('c, 'p, 'd, 's) Sdk \<Rightarrow> ('c, 'd, 's) Host \<Rightarrow> ('c, 'd, 's) Host" where
  "Controller_drop sdk h = h\<lparr>ho_controller := sdk_destroy sdk (ho_controller h)\<rparr>"

text \<open>
  Connecting and disconnecting the root port; an unavailable port is only logged. The first component
  is what the port was told.
\<close>

definition with_port ::
  "('c, 'p, 'd, 's) Sdk \<Rightarrow> ('p \<Rightarrow> 'c \<Rightarrow> 'c) \<Rightarrow> ('c, 'd, 's) Host \<Rightarrow> bool \<times> ('c, 'd, 's) Host" where
  "with_port sdk f h =
     (case sdk_root_port sdk (ho_controller h) of
        Inr port \<Rightarrow> (True, h\<lparr>ho_controller := f port (ho_controller h)\<rparr>)
      | Inl _ \<Rightarrow> (False, h))"

definition set_connected ::
  "('c, 'p, 'd, 's) Sdk \<Rightarrow> bool \<Rightarrow> ('c, 'd, 's) Host \<Rightarrow> bool list \<times> ('c, 'd, 's) Host" where
  "set_connected sdk connected h =
     (case with_port sdk (\<lambda>port. sdk_port_connect sdk port connected) h of
        (told, h) \<Rightarrow> (if told then [connected] else [], h))"

datatype HostError = Rejected string | SdkError string | OutOfAddresses | UnknownDevice u8
  | UnknownEndpoint EndpointKey

type_synonym 'x command_result = "((HostError + unit) \<times> 'x) option"

text \<open>
  What surrounds a handler: the readings of the system clock, the memory that the command points
  into, and what the session does while the handler waits for a device reset.
\<close>

record Env =
  env_ticks :: "nat \<Rightarrow> u64"
  env_memory :: memory
  env_await :: "chan \<Rightarrow> Shared \<Rightarrow> TransferResult option \<times> Shared"

section \<open>Answering commands\<close>

definition answer ::
  "('x \<Rightarrow> ns_result \<times> 'x) \<Rightarrow> (CiStatus \<Rightarrow> 'x \<Rightarrow> ns_result \<times> 'x) \<Rightarrow>
    ('x \<Rightarrow> 'x command_result) \<Rightarrow> 'x \<Rightarrow> 'x command_result" where
  "answer inspect respond act x =
     (case inspect x of
        (Inl e, x) \<Rightarrow> Some (Inl (Rejected e), snd (respond CiError x))
      | (Inr _, x) \<Rightarrow> do {
          (result, x) \<leftarrow> act x;
          let status = (case result of Inr _ \<Rightarrow> CiSuccess | Inl _ \<Rightarrow> CiError);
          (case respond status x of
             (Inl e, x) \<Rightarrow> Some (Inl (SdkError e), x)
           | (Inr _, x) \<Rightarrow> Some (result, x))
        })"

definition note_answer :: "RawMessage \<Rightarrow> CiStatus \<Rightarrow> ('c, 'd, 's) Host \<Rightarrow> ('c, 'd, 's) Host" where
  "note_answer msg status h = h\<lparr>ho_answers := ho_answers h @ [(msg, status)]\<rparr>"

text \<open>Calls on the controller and its ports change the controller.\<close>

definition on_controller ::
  "('c \<Rightarrow> ns_result \<times> 'c) \<Rightarrow> ('c, 'd, 's) Host \<Rightarrow> ns_result \<times> ('c, 'd, 's) Host" where
  "on_controller f h = (let (r, c) = f (ho_controller h) in (r, h\<lparr>ho_controller := c\<rparr>))"

text \<open>
  A handler holds its own reference to a device or endpoint state machine: its state is in the
  map while the map has it, and only there with the handler once the command has removed it.
\<close>

definition device_machine :: "u8 \<Rightarrow> ('c, 'd, 's) Host \<Rightarrow> 'd option" where
  "device_machine address h = map_of (ho_devices h) address"

definition endpoint_machine :: "EndpointKey \<Rightarrow> ('c, 'd, 's) Host \<Rightarrow> 's option" where
  "endpoint_machine key h =
     (if key \<in> set (ho_endpoints h)
      then map_option (\<lambda>ep. io_machine (ep_ring ep)) (get_ep (ho_engine h) key) else None)"

definition put_machine :: "EndpointKey \<Rightarrow> 's \<Rightarrow> ('c, 'd, 's) Host \<Rightarrow> ('c, 'd, 's) Host" where
  "put_machine key s h =
     (case get_ep (ho_engine h) key of
        Some ep \<Rightarrow> h\<lparr>ho_engine :=
          put_ep key (ep\<lparr>ep_ring := (ep_ring ep)\<lparr>io_machine := s\<rparr>\<rparr>) (ho_engine h)\<rparr>
      | None \<Rightarrow> h)"

definition on_device ::
  "u8 \<Rightarrow> ('d \<Rightarrow> ns_result \<times> 'd) \<Rightarrow> 'd \<times> ('c, 'd, 's) Host \<Rightarrow> ns_result \<times> 'd \<times> ('c, 'd, 's) Host" where
  "on_device address f x =
     (case x of (own, h) \<Rightarrow>
        case device_machine address h of
          Some d \<Rightarrow>
            let (r, d) = f d in (r, d, h\<lparr>ho_devices := AList.update address d (ho_devices h)\<rparr>)
        | None \<Rightarrow> let (r, d) = f own in (r, d, h))"

definition on_endpoint ::
  "EndpointKey \<Rightarrow> ('s \<Rightarrow> ns_result \<times> 's) \<Rightarrow> 's \<times> ('c, 'd, 's) Host \<Rightarrow> ns_result \<times> 's \<times> ('c, 'd, 's) Host" where
  "on_endpoint key f x =
     (case x of (own, h) \<Rightarrow>
        case endpoint_machine key h of
          Some s \<Rightarrow> let (r, s) = f s in (r, s, put_machine key s h)
        | None \<Rightarrow> let (r, s) = f own in (r, s, h))"

definition answered :: "RawMessage \<Rightarrow> CiStatus \<Rightarrow> ns_result \<times> ('c, 'd, 's) Host \<Rightarrow> ns_result \<times> ('c, 'd, 's) Host" where
  "answered msg status x = (fst x, note_answer msg status (snd x))"

definition answered_own ::
  "RawMessage \<Rightarrow> CiStatus \<Rightarrow> ns_result \<times> 'm \<times> ('c, 'd, 's) Host \<Rightarrow> ns_result \<times> 'm \<times> ('c, 'd, 's) Host" where
  "answered_own msg status x = (fst x, fst (snd x), note_answer msg status (snd (snd x)))"

text \<open>The engine is one of the fields that an action changes.\<close>

definition on_engine ::
  "('s IoRing Engine \<Rightarrow> 's IoRing Engine option) \<Rightarrow> ('c, 'd, 's) Host \<Rightarrow> ('c, 'd, 's) Host option" where
  "on_engine f h = do { en \<leftarrow> f (ho_engine h); Some (h\<lparr>ho_engine := en\<rparr>) }"

section \<open>Capabilities\<close>

text \<open>
  The messages that announce the controller and its one port. Message types, masks and bit positions
  are constants of the framework.
\<close>

definition COMMAND_TIMEOUT_THRESHOLD :: u32 where "COMMAND_TIMEOUT_THRESHOLD = 1"

definition CONNECTION_LATENCY :: u32 where "CONNECTION_LATENCY = 2"

definition MAX_POWER_MA :: u32 where "MAX_POWER_MA = 900"

definition ROOT_PORT :: u32 where "ROOT_PORT = 1"

record SdkBits =
  bits_type_phase :: nat
  bits_no_response :: u32
  bits_valid :: u32
  bits_controller_capabilities :: u32
  bits_port_count_phase :: nat
  bits_timeout_phase :: nat
  bits_latency_phase :: nat
  bits_port_capabilities :: u32
  bits_port_number_phase :: nat
  bits_max_power_phase :: nat

definition capabilities :: "SdkBits \<Rightarrow> RawMessage list" where
  "capabilities b =
     [\<lparr>control = push_bit (bits_type_phase b) (bits_controller_capabilities b) OR bits_no_response b
         OR bits_valid b OR push_bit (bits_port_count_phase b) 1,
       data0 = push_bit (bits_timeout_phase b) COMMAND_TIMEOUT_THRESHOLD
         OR push_bit (bits_latency_phase b) CONNECTION_LATENCY,
       data1 = 0\<rparr>,
      \<lparr>control = push_bit (bits_type_phase b) (bits_port_capabilities b) OR bits_no_response b
         OR bits_valid b OR push_bit (bits_port_number_phase b) ROOT_PORT,
       data0 = push_bit (bits_max_power_phase b) (MAX_POWER_MA div 8),
       data1 = 0\<rparr>]"

text \<open>
  Creating the controller: the framework makes its object from the capabilities, or fails, with or
  without a description. \<open>wait_powered\<close> returns once the port has been powered.
\<close>

definition Controller_new ::
  "(RawMessage list \<Rightarrow> string option + 'c) \<Rightarrow> SdkBits \<Rightarrow> Shared \<Rightarrow> ExportedDevice \<Rightarrow> FrameClock \<Rightarrow>
    string + ('c, 'd, 's) Host" where
  "Controller_new init bits session device clock =
     (case init (capabilities bits) of
        Inr c \<Rightarrow> Inr (Host_new c session device clock)
      | Inl (Some e) \<Rightarrow> Inl (''failed to create controller interface: '' @ e)
      | Inl None \<Rightarrow> Inl ''failed to create controller interface'')"

definition wait_powered :: "('c, 'd, 's) Host \<Rightarrow> bool" where
  "wait_powered h \<longleftrightarrow> ho_powered h"

section \<open>Commands\<close>

definition endpoint_descriptor :: "memory \<Rightarrow> RawMessage \<Rightarrow> EndpointInfo" where
  "endpoint_descriptor mem msg =
     (if data1 msg = 0 then EndpointInfo_CONTROL
      else let head = slice mem (data1 msg) 4;
               len = (if head ! 1 = 2
                      then unat (max 4 (min 512 (from_le [head ! 2, head ! 3] :: u16))) else 7)
           in case EndpointInfo_parse (slice mem (data1 msg) len) of
                Some info \<Rightarrow> info
              | None \<Rightarrow> EndpointInfo_CONTROL)"

definition controller_command ::
  "('c, 'p, 'd, 's) Sdk \<Rightarrow> RawMessage \<Rightarrow> ('c, 'd, 's) Host \<Rightarrow> ('c, 'd, 's) Host command_result" where
  "controller_command sdk msg =
     answer (on_controller (sdk_controller_inspect sdk msg))
       (\<lambda>s h. answered msg s (on_controller (sdk_controller_respond sdk msg s) h))
       (\<lambda>h. Some (Inr (), h))"

definition frame_number_command ::
  "('c, 'p, 'd, 's) Sdk \<Rightarrow> Env \<Rightarrow> RawMessage \<Rightarrow> ('c, 'd, 's) Host \<Rightarrow> ('c, 'd, 's) Host command_result" where
  "frame_number_command sdk env msg h = do {
     ((frame, now), clock) \<leftarrow> FrameClock_next (env_ticks env) (ho_clock h);
     answer (on_controller (sdk_controller_inspect sdk msg))
       (\<lambda>s h. answered msg s (on_controller (sdk_controller_respond_frame sdk msg s frame now)
          (h\<lparr>ho_frames := ho_frames h @ [(frame, now)]\<rparr>)))
       (\<lambda>h. Some (Inr (), h))
       (h\<lparr>ho_clock := clock\<rparr>)
   }"

definition port_reset ::
  "('c, 'p, 'd, 's) Sdk \<Rightarrow> Env \<Rightarrow> 'p \<Rightarrow> ('c, 'd, 's) Host \<Rightarrow> ('c, 'd, 's) Host command_result" where
  "port_reset sdk env port h = do {
     h \<leftarrow> (if ho_enumerated h
           then on_engine (\<lambda>en. map_option snd (reset_device (env_await env) en)) h
           else Some h);
     (case on_controller (sdk_port_link_up sdk port (ho_speed h)) h of
        (Inl e, h) \<Rightarrow> Some (Inl (SdkError e), h)
      | (Inr _, h) \<Rightarrow> Some (Inr (), h))
   }"

definition port_command ::
  "('c, 'p, 'd, 's) Sdk \<Rightarrow> Env \<Rightarrow> RawMessage \<Rightarrow> ('c, 'd, 's) Host \<Rightarrow> ('c, 'd, 's) Host command_result" where
  "port_command sdk env msg h =
     (case sdk_port_for sdk msg (ho_controller h) of
        Inl e \<Rightarrow> Some (Inl (SdkError e), h)
      | Inr port \<Rightarrow> do {
          (result, h) \<leftarrow> answer (on_controller (sdk_port_inspect sdk port msg))
            (\<lambda>s h. answered msg s (on_controller (sdk_port_respond sdk port msg s) h))
            (\<lambda>h. if message_type msg = MT_PORT_RESET then port_reset sdk env port h
                 else Some (Inr (), h)) h;
          (case result of
             Inl e \<Rightarrow> Some (Inl e, h)
           | Inr _ \<Rightarrow> Some (Inr (),
               if message_type msg = MT_PORT_POWER_ON then h\<lparr>ho_powered := True\<rparr> else h))
        })"

definition device_create ::
  "('c, 'p, 'd, 's) Sdk \<Rightarrow> RawMessage \<Rightarrow> ('c, 'd, 's) Host \<Rightarrow> ('c, 'd, 's) Host command_result" where
  "device_create sdk msg h =
     (case sdk_device_init sdk msg (ho_controller h) of
        Inl e \<Rightarrow> Some (Inl (SdkError e), h)
      | Inr d \<Rightarrow>
          (case allocate (ho_addresses h) of
             None \<Rightarrow> Some (Inl OutOfAddresses, note_answer msg CiNoResources h)
           | Some (address, pool) \<Rightarrow>
               let h = note_answer msg CiSuccess (h\<lparr>ho_addresses := pool\<rparr>)
               in (case sdk_device_respond_address sdk msg CiSuccess address d of
                     (Inl e, d) \<Rightarrow> Some (Inl (SdkError e), h\<lparr>ho_addresses := release pool address\<rparr>)
                   | (Inr _, d) \<Rightarrow> Some (Inr (), h\<lparr>ho_enumerated := True,
                       ho_devices := AList.update address d (ho_devices h)\<rparr>))))"

fun pause_each :: "EndpointKey list \<Rightarrow> 's IoRing Engine \<Rightarrow> 's IoRing Engine option" where
  "pause_each [] en = Some en"
| "pause_each (key # ks) en = do { en \<leftarrow> pause_endpoint key en; pause_each ks en }"

definition device_action ::
  "u8 \<Rightarrow> u32 \<Rightarrow> ('c, 'd, 's) Host \<Rightarrow> ('c, 'd, 's) Host option" where
  "device_action address mtype h =
     (if mtype = MT_DEVICE_DESTROY then do {
        h \<leftarrow> on_engine (remove_device address) h;
        Some (h\<lparr>ho_endpoints := filter (\<lambda>k. fst k \<noteq> address) (ho_endpoints h),
                ho_devices := AList.delete address (ho_devices h),
                ho_addresses := release (ho_addresses h) address\<rparr>)
      }
      else if mtype = MT_DEVICE_PAUSE then
        on_engine (pause_each (filter (\<lambda>k. fst k = address) (ho_endpoints h))) h
      else Some h)"

definition device_command ::
  "('c, 'p, 'd, 's) Sdk \<Rightarrow> RawMessage \<Rightarrow> ('c, 'd, 's) Host \<Rightarrow> ('c, 'd, 's) Host command_result" where
  "device_command sdk msg h =
     (let address = device_address msg in
      case device_machine address h of
        None \<Rightarrow> Some (Inl (UnknownDevice address), h)
      | Some d \<Rightarrow>
          map_option (\<lambda>(r, _, h). (r, h))
            (answer (on_device address (sdk_device_inspect sdk msg))
               (\<lambda>s x. answered_own msg s (on_device address (sdk_device_respond sdk msg s) x))
               (\<lambda>(d, h). do { h \<leftarrow> device_action address (message_type msg) h; Some (Inr (), d, h) })
               (d, h)))"

definition endpoint_create ::
  "('c, 'p, 'd, 's) Sdk \<Rightarrow> Env \<Rightarrow> RawMessage \<Rightarrow> ('c, 'd, 's) Host \<Rightarrow> ('c, 'd, 's) Host command_result" where
  "endpoint_create sdk env msg h =
     (case sdk_endpoint_init sdk msg (ho_controller h) of
        Inl e \<Rightarrow> Some (Inl (SdkError e), h)
      | Inr s \<Rightarrow>
          let h = note_answer msg CiSuccess h
          in (case sdk_endpoint_respond sdk msg CiSuccess s of
                (Inl e, s) \<Rightarrow> Some (Inl (SdkError e), h)
              | (Inr _, s) \<Rightarrow> do {
                  let key = sdk_endpoint_key sdk s;
                  let info = endpoint_descriptor (env_memory env) msg;
                  h \<leftarrow> on_engine (add_endpoint key info \<lparr>io_machine = s, io_memory = env_memory env\<rparr>)
                        (h\<lparr>ho_endpoints := List.insert key (ho_endpoints h)\<rparr>);
                  Some (Inr (), h)
                }))"

definition endpoint_action ::
  "Env \<Rightarrow> RawMessage \<Rightarrow> EndpointKey \<Rightarrow> ('c, 'd, 's) Host \<Rightarrow> ('c, 'd, 's) Host option" where
  "endpoint_action env msg key h =
     (let kind = message_type msg in
      if kind = MT_ENDPOINT_DESTROY then do {
        h \<leftarrow> on_engine (remove_endpoint key) h;
        Some (h\<lparr>ho_endpoints := removeAll key (ho_endpoints h)\<rparr>)
      }
      else if kind = MT_ENDPOINT_PAUSE then on_engine (pause_endpoint key) h
      else if kind = MT_ENDPOINT_UPDATE then
        on_engine (\<lambda>en. Some (update_endpoint key (endpoint_descriptor (env_memory env) msg) en)) h
      else if kind = MT_ENDPOINT_RESET then on_engine (reset_endpoint key) h
      else Some h)"

definition endpoint_command ::
  "('c, 'p, 'd, 's) Sdk \<Rightarrow> Env \<Rightarrow> RawMessage \<Rightarrow> ('c, 'd, 's) Host \<Rightarrow> ('c, 'd, 's) Host command_result" where
  "endpoint_command sdk env msg h =
     (let key = (device_address msg, endpoint_address msg) in
      case endpoint_machine key h of
        None \<Rightarrow> Some (Inl (UnknownEndpoint key), h)
      | Some s \<Rightarrow> do {
          (result, _, h) \<leftarrow> answer (on_endpoint key (sdk_endpoint_inspect sdk msg))
            (\<lambda>st x. answered_own msg st (on_endpoint key (sdk_endpoint_respond sdk msg st) x))
            (\<lambda>(s, h). do { h \<leftarrow> endpoint_action env msg key h; Some (Inr (), s, h) })
            (s, h);
          (case result of
             Inl e \<Rightarrow> Some (Inl e, h)
           | Inr _ \<Rightarrow>
               if message_type msg = MT_ENDPOINT_SET_NEXT_TRANSFER then do {
                 h \<leftarrow> on_engine (sync_endpoint (io_ring (sdk_ring sdk)) key) h;
                 Some (Inr (), h)
               }
               else Some (Inr (), h))
        })"

definition command ::
  "('c, 'p, 'd, 's) Sdk \<Rightarrow> Env \<Rightarrow> RawMessage \<Rightarrow> ('c, 'd, 's) Host \<Rightarrow> ('c, 'd, 's) Host command_result" where
  "command sdk env msg h =
     (let kind = message_type msg in
      if MT_CONTROLLER_POWER_ON \<le> kind \<and> kind \<le> MT_CONTROLLER_PAUSE then controller_command sdk msg h
      else if kind = MT_CONTROLLER_FRAME_NUMBER then frame_number_command sdk env msg h
      else if MT_PORT_POWER_ON \<le> kind \<and> kind \<le> MT_PORT_STATUS then port_command sdk env msg h
      else if kind = MT_DEVICE_CREATE then device_create sdk msg h
      else if MT_DEVICE_DESTROY \<le> kind \<and> kind \<le> MT_DEVICE_UPDATE then device_command sdk msg h
      else if kind = MT_ENDPOINT_CREATE then endpoint_create sdk env msg h
      else if MT_ENDPOINT_DESTROY \<le> kind \<and> kind \<le> MT_ENDPOINT_SET_NEXT_TRANSFER
        then endpoint_command sdk env msg h
      else Some (Inr (), h))"

section \<open>Doorbells and frame updates\<close>

definition host_doorbell ::
  "('c, 'p, 'd, 's) Sdk \<Rightarrow> u32 \<Rightarrow> ('c, 'd, 's) Host \<Rightarrow> ('c, 'd, 's) Host option" where
  "host_doorbell sdk bell h =
     (let (device, endpoint, stream) = decode_doorbell bell;
          key = (device, endpoint)
      in case endpoint_machine key h of
           None \<Rightarrow> Some h
         | Some s \<Rightarrow>
             (case sdk_process_doorbell sdk bell s of
                (Inl e, s) \<Rightarrow> Some (put_machine key s h)
              | (Inr _, s) \<Rightarrow>
                  on_engine (doorbell (io_ring (sdk_ring sdk)) key) (put_machine key s h)))"

fun doorbells ::
  "('c, 'p, 'd, 's) Sdk \<Rightarrow> u32 list \<Rightarrow> ('c, 'd, 's) Host \<Rightarrow> ('c, 'd, 's) Host option" where
  "doorbells sdk [] h = Some h"
| "doorbells sdk (bell # bells) h = do { h \<leftarrow> host_doorbell sdk bell h; doorbells sdk bells h }"

definition frame_update ::
  "('c, 'p, 'd, 's) Sdk \<Rightarrow> (nat \<Rightarrow> u64) \<Rightarrow> ('c, 'd, 's) Host \<Rightarrow> ('c, 'd, 's) Host option" where
  "frame_update sdk ticks h =
     (if \<not> sdk_controller_active sdk (ho_controller h) then Some h
      else do {
        ((frame, time), clock) \<leftarrow> FrameClock_next ticks (ho_clock h);
        Some (snd (on_controller (sdk_controller_frame sdk frame time)
          (h\<lparr>ho_clock := clock, ho_frames := ho_frames h @ [(frame, time)]\<rparr>)))
      })"

end
