(* ===== verification/Host_System.thy ===== *)
theory Host_System
  imports Host
begin

text \<open>
  The controller in its environment: every handler is steps of the engine, keeps the endpoint and
  address tables consistent, reports frames in increasing order and answers its command once;
  commands return while sequence numbers are left; and the step relation that interleaves
  commands, doorbells, frame updates, replies, the session and the host's memory.
\<close>

section \<open>What every handler keeps\<close>

text \<open>
  The endpoint map and the engine have the same endpoints, and the addresses in use are those of
  the devices.
\<close>

definition maps_ok :: "('c, 'd, 's) Host \<Rightarrow> bool" where
  "maps_ok h \<longleftrightarrow> wf_amap (ho_devices h) \<and> in_use (ho_addresses h) = keys (ho_devices h) \<and>
     distinct (ho_endpoints h) \<and> set (ho_endpoints h) = keys (en_endpoints (ho_engine h))"

abbreviation engine_goes :: "('c, 'p, 'd, 's) Sdk \<Rightarrow> 's IoRing Engine \<Rightarrow> 's IoRing Engine \<Rightarrow> bool" where
  "engine_goes sdk \<equiv> (engine_step (io_ring (sdk_ring sdk)))\<^sup>*\<^sup>*"

text \<open>A part of a handler: steps of the engine, and what it tells the host.\<close>

definition goes ::
  "('c, 'p, 'd, 's) Sdk \<Rightarrow> (RawMessage \<times> CiStatus) list \<Rightarrow> (u64 \<times> u64) list \<Rightarrow>
    ('c, 'd, 's) Host \<Rightarrow> ('c, 'd, 's) Host \<Rightarrow> bool" where
  "goes sdk as fs h h' \<longleftrightarrow> engine_goes sdk (ho_engine h) (ho_engine h') \<and>
     (maps_ok h \<longrightarrow> maps_ok h') \<and> ho_answers h' = ho_answers h @ as \<and>
     ho_frames h' = ho_frames h @ fs \<and> ho_clock h' = ho_clock h"

lemma goes_refl [simp, intro]: "goes sdk [] [] h h"
  by (simp add: goes_def)

lemma goes_trans: "\<lbrakk>goes sdk as fs h1 h2; goes sdk bs gs h2 h3\<rbrakk> \<Longrightarrow> goes sdk (as @ bs) (fs @ gs) h1 h3"
  unfolding goes_def by (auto intro: rtranclp_trans)

lemma on_controller_goes: "on_controller f h = (r, h') \<Longrightarrow> goes sdk [] [] h h'"
  by (auto simp: on_controller_def goes_def maps_ok_def split: prod.splits)

lemma note_answer_goes: "goes sdk [(msg, s)] [] h (note_answer msg s h)"
  by (simp add: goes_def note_answer_def maps_ok_def)

lemma put_machine_goes: "goes sdk [] [] h (put_machine key s h)"
proof (cases "get_ep (ho_engine h) key")
  case (Some ep)
  let ?en = "put_ep key (ep\<lparr>ep_ring := (ep_ring ep)\<lparr>io_machine := s\<rparr>\<rparr>) (ho_engine h)"
  have "key \<in> keys (en_endpoints (ho_engine h))" using map_of_SomeD [OF Some] by force
  then have "keys (en_endpoints ?en) = keys (en_endpoints (ho_engine h))"
    by (auto simp: put_ep_def keys_update)
  then show ?thesis using engine_step.host [OF Some]
    by (auto simp: put_machine_def Some goes_def maps_ok_def)
qed (simp add: put_machine_def)

lemma keys_update_same: "map_of m k = Some v \<Longrightarrow> keys (AList.update k w m) = keys m"
  using map_of_SomeD [of m k v] by (simp only: keys_update) force

lemma on_device_goes:
  assumes "on_device a f (own, h) = (r, own', h')"
  shows "goes sdk [] [] h h'"
proof (cases "device_machine a h")
  case (Some d)
  then have h': "h' = h\<lparr>ho_devices := AList.update a own' (ho_devices h)\<rparr>"
    using assms by (simp add: on_device_def split: prod.splits)
  have "keys (AList.update a own' (ho_devices h)) = keys (ho_devices h)"
    using Some unfolding device_machine_def by (rule keys_update_same)
  then show ?thesis by (simp add: h' goes_def maps_ok_def wf_update)
next
  case None
  then show ?thesis using assms by (simp add: on_device_def split: prod.splits)
qed

lemma on_endpoint_goes:
  assumes "on_endpoint key f (own, h) = (r, own', h')"
  shows "goes sdk [] [] h h'"
proof (cases "endpoint_machine key h")
  case (Some s)
  then have "h' = put_machine key own' h" using assms by (simp add: on_endpoint_def split: prod.splits)
  then show ?thesis by (simp only: put_machine_goes)
next
  case None
  then show ?thesis using assms by (simp add: on_endpoint_def split: prod.splits)
qed

lemma on_engine_Some: "on_engine f h = Some h' \<longleftrightarrow> (\<exists>en. f (ho_engine h) = Some en \<and> h' = h\<lparr>ho_engine := en\<rparr>)"
  by (auto simp: on_engine_def bind_eq_Some_conv)

lemma on_engine_goes:
  assumes "on_engine f h = Some h'"
    and "\<And>en. f (ho_engine h) = Some en \<Longrightarrow> engine_goes sdk (ho_engine h) en"
    and "\<And>en. f (ho_engine h) = Some en \<Longrightarrow> keys (en_endpoints en) = keys (en_endpoints (ho_engine h))"
  shows "goes sdk [] [] h h'"
proof -
  obtain en where "f (ho_engine h) = Some en" "h' = h\<lparr>ho_engine := en\<rparr>"
    using assms(1) by (auto simp: on_engine_Some)
  with assms(2,3) [of en] show ?thesis by (simp add: goes_def maps_ok_def)
qed

lemma answer_cases:
  assumes "answer inspect respond act x = Some (r, x')"
  obtains (rejected) e x1 where "inspect x = (Inl e, x1)" "r = Inl (Rejected e)" "x' = snd (respond CiError x1)"
  | (acted) x1 res x2 where "inspect x = (Inr (), x1)" "act x1 = Some (res, x2)"
      "x' = snd (respond (case res of Inr _ \<Rightarrow> CiSuccess | Inl _ \<Rightarrow> CiError) x2)"
      "r = (case fst (respond (case res of Inr _ \<Rightarrow> CiSuccess | Inl _ \<Rightarrow> CiError) x2) of
              Inl e \<Rightarrow> Inl (SdkError e) | Inr _ \<Rightarrow> res)"
proof (cases "inspect x")
  case (Pair i x1)
  show thesis
  proof (cases i)
    case (Inl e)
    then show thesis using assms Pair by (intro rejected) (auto simp: answer_def)
  next
    case (Inr u)
    then obtain res x2 where a: "act x1 = Some (res, x2)"
      and r: "(case respond (case res of Inr _ \<Rightarrow> CiSuccess | Inl _ \<Rightarrow> CiError) x2 of
             (Inl e, x) \<Rightarrow> Some (Inl (SdkError e), x) | (Inr _, x) \<Rightarrow> Some (res, x)) = Some (r, x')"
      using assms Pair by (auto simp: answer_def bind_eq_Some_conv Let_def)
    show thesis
      by (rule acted [of x1 res x2]) (use Pair Inr a r in \<open>auto split: prod.splits sum.splits\<close>)
  qed
qed

text \<open>The one answer that a command gets, and what it says.\<close>

lemma answer_goes:
  assumes run: "answer inspect respond act x = Some (r, x')"
    and inspect: "\<And>i x1. inspect x = (i, x1) \<Longrightarrow> goes sdk [] [] (host x) (host x1)"
    and act: "\<And>x1 res x2. act x1 = Some (res, x2) \<Longrightarrow> goes sdk [] [] (host x1) (host x2)"
    and respond: "\<And>s x1. goes sdk [(msg, s)] fs (host x1) (host (snd (respond s x1)))"
  shows "\<exists>s. goes sdk [(msg, s)] fs (host x) (host x') \<and> (r = Inr () \<longrightarrow> s = CiSuccess)"
  using run
proof (cases rule: answer_cases)
  case (rejected e x1)
  have "goes sdk ([] @ [(msg, CiError)]) ([] @ fs) (host x) (host x')"
    unfolding rejected(3) by (rule goes_trans [OF inspect [OF rejected(1)] respond])
  then show ?thesis using rejected(2) by auto
next
  case (acted x1 res x2)
  let ?s = "case res of Inr _ \<Rightarrow> CiSuccess | Inl _ \<Rightarrow> CiError"
  have "goes sdk (([] @ []) @ [(msg, ?s)]) (([] @ []) @ fs) (host x) (host x')"
    unfolding acted(3)
    by (rule goes_trans [OF goes_trans [OF inspect [OF acted(1)] act [OF acted(2)]] respond])
  moreover have "r = Inr () \<longrightarrow> ?s = CiSuccess" using acted(4) by (auto split: sum.splits)
  ultimately show ?thesis by auto
qed

section \<open>The engine's operations keep its endpoints\<close>

lemma unlink_all_endpoints: "unlink_all fs en = Some en' \<Longrightarrow> en_endpoints en' = en_endpoints en"
  by (auto simp: unlink_all_Some)

lemma unlink_each_endpoints: "unlink_each eps en = Some en' \<Longrightarrow> en_endpoints en' = en_endpoints en"
  by (induction eps arbitrary: en) (auto simp: bind_eq_Some_conv dest: unlink_all_endpoints)

lemma keys_put_ep: "get_ep en key = Some ep \<Longrightarrow> keys (en_endpoints (put_ep key ep' en)) = keys (en_endpoints en)"
  unfolding put_ep_def by (simp add: keys_update_same)

lemma unlink_put_keys:
  assumes "unlink_all fs (put_ep key ep' en) = Some en'" "get_ep en key = Some ep"
  shows "keys (en_endpoints en') = keys (en_endpoints en)"
  unfolding unlink_all_endpoints [OF assms(1)] using assms(2) by (rule keys_put_ep)

lemma pause_endpoint_keys:
  assumes "pause_endpoint key en = Some en'"
  shows "keys (en_endpoints en') = keys (en_endpoints en)"
proof (cases "(snd key AND 0x80 = 0 \<or> snd key AND 0x7f = 0) \<or> get_ep en key = None")
  case True
  then have "en' = en"
  proof
    assume "snd key AND 0x80 = 0 \<or> snd key AND 0x7f = 0"
    then show ?thesis using assms by (simp add: pause_endpoint_def)
  next
    assume "get_ep en key = None"
    then show ?thesis using assms by (simp add: pause_endpoint_def split: if_splits)
  qed
  then show ?thesis by simp
next
  case False
  then obtain ep where ep: "get_ep en key = Some ep" by blast
  with False assms obtain fs st where "en' = (put_ep key (ep\<lparr>ep_in_flight := fs\<rparr>) en)\<lparr>en_session := st\<rparr>"
    by (auto simp: pause_endpoint_def bind_eq_Some_conv)
  then show ?thesis using keys_put_ep [OF ep] by simp
qed

lemma pause_each_steps:
  "pause_each ks en = Some en' \<Longrightarrow>
     (engine_step ring)\<^sup>*\<^sup>* en en' \<and> keys (en_endpoints en') = keys (en_endpoints en)"
proof (induction ks arbitrary: en)
  case (Cons k ks)
  then obtain en1 where p: "pause_endpoint k en = Some en1" and r: "pause_each ks en1 = Some en'"
    by (auto simp: bind_eq_Some_conv)
  from Cons.IH [OF r] engine_step.pause [OF p, of ring] pause_endpoint_keys [OF p]
  show ?case by (simp add: converse_rtranclp_into_rtranclp)
qed simp

lemma reset_endpoint_keys:
  assumes "reset_endpoint key en = Some en'"
  shows "keys (en_endpoints en') = keys (en_endpoints en)"
proof (cases "get_ep en key")
  case None
  then show ?thesis using assms by (simp add: reset_endpoint_def)
next
  case (Some ep)
  then have "unlink_all (ep_in_flight ep) (put_ep key (ep\<lparr>ep_setup := None, ep_in_flight := []\<rparr>) en) = Some en'"
    using assms by (simp add: reset_endpoint_def)
  then show ?thesis using Some by (rule unlink_put_keys)
qed

lemma sync_endpoint_keys:
  assumes "sync_endpoint ring key en = Some en'"
  shows "keys (en_endpoints en') = keys (en_endpoints en)"
proof (cases "get_ep en key")
  case None
  then show ?thesis using assms by (simp add: sync_endpoint_def)
next
  case (Some ep)
  then have "en' = en \<or> unlink_all (ep_in_flight ep) (put_ep key (ep\<lparr>ep_in_flight := []\<rparr>) en) = Some en'"
    using assms by (simp add: sync_endpoint_def Let_def split: if_splits)
  then show ?thesis using unlink_put_keys [OF _ Some] by (elim disjE) simp_all
qed

lemma update_endpoint_keys: "keys (en_endpoints (update_endpoint key info en)) = keys (en_endpoints en)"
  by (cases "get_ep en key") (simp_all add: update_endpoint_def keys_put_ep)

lemma add_endpoint_keys:
  assumes "add_endpoint key info r en = Some en'"
  shows "keys (en_endpoints en') = insert key (keys (en_endpoints en))"
proof -
  obtain ep where "en_endpoints en' = AList.update key ep (en_endpoints en)"
    using assms by (cases "get_ep en key")
      (auto simp: add_endpoint_def Let_def put_ep_def dest!: unlink_all_endpoints)
  then show ?thesis by (simp only: keys_update)
qed

lemma remove_endpoint_keys:
  assumes "remove_endpoint key en = Some en'"
  shows "keys (en_endpoints en') = keys (en_endpoints en) - {key}"
proof (cases "get_ep en key")
  case None
  then have "en' = en" using assms by (simp add: remove_endpoint_def)
  moreover have "key \<notin> keys (en_endpoints en)" using None by (simp only: map_of_eq_None_iff not_False_eq_True)
  ultimately show ?thesis by simp
next
  case (Some ep)
  then have "en_endpoints en' = AList.delete key (en_endpoints en)"
    using assms by (auto simp: remove_endpoint_def dest: unlink_all_endpoints)
  then show ?thesis by (simp only: keys_delete)
qed

lemma remove_device_keys:
  assumes "remove_device d en = Some en'"
  shows "keys (en_endpoints en') = {k \<in> keys (en_endpoints en). fst k \<noteq> d}"
proof -
  have "en_endpoints en' = filter (\<lambda>p. fst (fst p) \<noteq> d) (en_endpoints en)"
    using assms unlink_each_endpoints by (fastforce simp: remove_device_def Let_def)
  then show ?thesis by auto
qed

lemma moves_keys:
  assumes "moves ring key en en'"
  shows "keys (en_endpoints en') = keys (en_endpoints en)"
proof -
  have "get_ep en' k = None \<longleftrightarrow> get_ep en k = None" for k
  proof (cases "k = key")
    case True
    then show ?thesis using assms unfolding moves_def by (cases "get_ep en key") auto
  next
    case False
    then show ?thesis using assms unfolding moves_def by metis
  qed
  then show ?thesis unfolding map_of_eq_None_iff by blast
qed

section \<open>The handlers\<close>

text \<open>While a handler waits, the session moves on its own.\<close>

definition env_ok :: "Env \<Rightarrow> bool" where
  "env_ok env \<longleftrightarrow> (\<forall>ch st. session_move\<^sup>*\<^sup>* st (snd (env_await env ch st)))"

lemma network_steps:
  "session_move\<^sup>*\<^sup>* st st' \<Longrightarrow> (engine_step ring)\<^sup>*\<^sup>* (en\<lparr>en_session := st\<rparr>) (en\<lparr>en_session := st'\<rparr>)"
proof (induction rule: rtranclp_induct)
  case (step y z)
  have "engine_step ring (en\<lparr>en_session := y\<rparr>) (en\<lparr>en_session := y, en_session := z\<rparr>)"
    using step(2) by (intro engine_step.network) simp
  with step(3) show ?case by simp
qed simp

lemma reset_device_steps:
  assumes "reset_device await en = Some (res, en')" "\<And>ch st. session_move\<^sup>*\<^sup>* st (snd (await ch st))"
  shows "(engine_step ring)\<^sup>*\<^sup>* en en' \<and> en_endpoints en' = en_endpoints en"
proof -
  obtain r st where s: "submit reset_request (en_session en) = Some (r, st)"
    and k: "(case r of Inl e \<Rightarrow> Some (Inl e, en\<lparr>en_session := st\<rparr>)
      | Inr (q, ch) \<Rightarrow> let (a, st) = await ch st in Some (reset_outcome a, en\<lparr>en_session := st\<rparr>)) = Some (res, en')"
    using assms(1) by (auto simp: reset_device_def bind_eq_Some_conv)
  have step: "engine_step ring en (en\<lparr>en_session := st\<rparr>)" using s by (rule engine_step.reset_dev)
  show ?thesis
  proof (cases r)
    case (Inl e)
    then show ?thesis using k step by auto
  next
    case (Inr qc)
    then have en': "en' = en\<lparr>en_session := snd (await (snd qc) st)\<rparr>"
      using k by (auto simp: Let_def split: prod.splits)
    have "(engine_step ring)\<^sup>*\<^sup>* (en\<lparr>en_session := st\<rparr>) en'" unfolding en' by (rule network_steps [OF assms(2)])
    with step show ?thesis by (auto simp: en' intro: converse_rtranclp_into_rtranclp)
  qed
qed

lemma on_controller_answered_goes:
  "goes sdk [(msg, s)] [] h (snd (answered msg s (on_controller f h)))"
proof -
  have "goes sdk ([] @ [(msg, s)]) ([] @ []) h (note_answer msg s (snd (on_controller f h)))"
    by (rule goes_trans [OF on_controller_goes [of f h "fst (on_controller f h)"] note_answer_goes]) simp
  then show ?thesis by (simp add: answered_def)
qed

lemma on_device_answered_goes:
  "goes sdk [(msg, s)] [] (snd x) (snd (snd (answered_own msg s (on_device a f x))))"
proof -
  obtain own h r own' h' where x: "x = (own, h)" "on_device a f (own, h) = (r, own', h')"
    by (metis prod.collapse)
  from goes_trans [OF on_device_goes [OF x(2)] note_answer_goes] show ?thesis
    by (simp add: answered_own_def x)
qed

lemma on_endpoint_answered_goes:
  "goes sdk [(msg, s)] [] (snd x) (snd (snd (answered_own msg s (on_endpoint key f x))))"
proof -
  obtain own h r own' h' where x: "x = (own, h)" "on_endpoint key f (own, h) = (r, own', h')"
    by (metis prod.collapse)
  from goes_trans [OF on_endpoint_goes [OF x(2)] note_answer_goes] show ?thesis
    by (simp add: answered_own_def x)
qed

text \<open>A command with exactly one answer.\<close>

definition one_answer ::
  "('c, 'p, 'd, 's) Sdk \<Rightarrow> RawMessage \<Rightarrow> HostError + unit \<Rightarrow> (u64 \<times> u64) list \<Rightarrow>
    ('c, 'd, 's) Host \<Rightarrow> ('c, 'd, 's) Host \<Rightarrow> bool" where
  "one_answer sdk msg r fs h h' \<longleftrightarrow> (\<exists>s. goes sdk [(msg, s)] fs h h' \<and> (r = Inr () \<longrightarrow> s = CiSuccess))"

lemma one_answer_then: "\<lbrakk>one_answer sdk msg r fs h h1; goes sdk [] [] h1 h2\<rbrakk> \<Longrightarrow> one_answer sdk msg r fs h h2"
  unfolding one_answer_def using goes_trans [where bs = "[]" and gs = "[]"] by fastforce

lemma controller_command_goes:
  assumes "controller_command sdk msg h = Some (r, h')"
  shows "one_answer sdk msg r [] h h'"
  unfolding one_answer_def
proof (rule answer_goes [where host = "\<lambda>h. h"])
  show "answer (on_controller (sdk_controller_inspect sdk msg))
      (\<lambda>s h. answered msg s (on_controller (sdk_controller_respond sdk msg s) h)) (\<lambda>h. Some (Inr (), h)) h = Some (r, h')"
    using assms by (simp add: controller_command_def)
qed (auto intro: on_controller_goes on_controller_answered_goes)

lemma port_reset_goes:
  assumes "port_reset sdk env port h = Some (r, h')" "env_ok env"
  shows "goes sdk [] [] h h'"
proof -
  obtain h1 where 1: "(if ho_enumerated h then on_engine (\<lambda>en. map_option snd (reset_device (env_await env) en)) h
      else Some h) = Some h1"
    and 2: "(case on_controller (sdk_port_link_up sdk port (ho_speed h1)) h1 of
        (Inl e, h) \<Rightarrow> Some (Inl (SdkError e), h) | (Inr _, h) \<Rightarrow> Some (Inr (), h)) = Some (r, h')"
    using assms(1) unfolding port_reset_def bind_eq_Some_conv by blast
  have "goes sdk [] [] h h1"
  proof (cases "ho_enumerated h")
    case True
    then have run: "on_engine (\<lambda>en. map_option snd (reset_device (env_await env) en)) h = Some h1" using 1 by simp
    have steps: "engine_goes sdk (ho_engine h) en \<and> en_endpoints en = en_endpoints (ho_engine h)"
      if "map_option snd (reset_device (env_await env) (ho_engine h)) = Some en" for en
    proof -
      from that obtain res where "reset_device (env_await env) (ho_engine h) = Some (res, en)" by auto
      then show ?thesis using assms(2) by (intro reset_device_steps) (auto simp: env_ok_def)
    qed
    show ?thesis
    proof (rule on_engine_goes [OF run])
      fix en
      assume "map_option snd (reset_device (env_await env) (ho_engine h)) = Some en"
      note steps [OF this]
      then show "engine_goes sdk (ho_engine h) en" "keys (en_endpoints en) = keys (en_endpoints (ho_engine h))"
        by simp_all
    qed
  qed (use 1 in simp)
  moreover have "goes sdk [] [] h1 h'"
  proof (rule on_controller_goes)
    show "on_controller (sdk_port_link_up sdk port (ho_speed h1)) h1 =
        (fst (on_controller (sdk_port_link_up sdk port (ho_speed h1)) h1), h')"
      using 2 by (auto split: prod.splits sum.splits)
  qed
  ultimately show ?thesis by (rule goes_trans [where as = "[]" and bs = "[]" and fs = "[]" and gs = "[]", simplified])
qed

lemma port_command_goes:
  assumes "port_command sdk env msg h = Some (r, h')" "env_ok env"
    and "sdk_port_for sdk msg (ho_controller h) = Inr port"
  shows "one_answer sdk msg r [] h h'"
proof -
  obtain r1 h1 where a: "answer (on_controller (sdk_port_inspect sdk port msg))
       (\<lambda>s h. answered msg s (on_controller (sdk_port_respond sdk port msg s) h))
       (\<lambda>h. if message_type msg = MT_PORT_RESET then port_reset sdk env port h else Some (Inr (), h)) h
       = Some (r1, h1)" and k: "(case r1 of Inl e \<Rightarrow> Some (Inl e, h1)
         | Inr _ \<Rightarrow> Some (Inr (), if message_type msg = MT_PORT_POWER_ON then h1\<lparr>ho_powered := True\<rparr> else h1))
         = Some (r, h')"
    using assms(1,3) by (auto simp: port_command_def bind_eq_Some_conv)
  have r: "r = r1" and h': "h' = h1 \<or> h' = h1\<lparr>ho_powered := True\<rparr>"
    using k by (auto split: sum.splits if_splits)
  have "one_answer sdk msg r [] h h1"
    unfolding one_answer_def r using a
    by (rule answer_goes [where host = "\<lambda>h. h"])
      (auto intro: on_controller_goes on_controller_answered_goes dest: port_reset_goes [OF _ assms(2)] split: if_splits)
  then show ?thesis
    by (rule one_answer_then) (use h' in \<open>auto simp: goes_def maps_ok_def\<close>)
qed

declare in_use_release [simp]

lemma device_create_goes:
  assumes "device_create sdk msg h = Some (r, h')" "sdk_device_init sdk msg (ho_controller h) = Inr d"
  shows "one_answer sdk msg r [] h h'"
proof (cases "allocate (ho_addresses h)")
  case None
  then have "r = Inl OutOfAddresses" "h' = note_answer msg CiNoResources h"
    using assms by (auto simp: device_create_def)
  then show ?thesis unfolding one_answer_def using note_answer_goes by (intro exI [of _ CiNoResources]) simp
next
  case (Some ap)
  then obtain a pool where al: "allocate (ho_addresses h) = Some (a, pool)" by (cases ap) auto
  note al' = pool.alloc_Some [OF al]
  let ?h = "note_answer msg CiSuccess (h\<lparr>ho_addresses := pool\<rparr>)"
  obtain e d' where resp: "sdk_device_respond_address sdk msg CiSuccess a d = (e, d')" by fastforce
  have "goes sdk [(msg, CiSuccess)] [] h h'"
  proof (cases e)
    case (Inl x)
    then have h': "h' = ?h\<lparr>ho_addresses := release pool a\<rparr>"
      using assms al resp by (auto simp: device_create_def Let_def)
    have "keys (ho_devices h) - {a} = keys (ho_devices h)" if "in_use (ho_addresses h) = keys (ho_devices h)"
      using al' that by (simp only:) blast
    then show ?thesis using al' by (simp add: h' goes_def note_answer_def maps_ok_def)
  next
    case (Inr u)
    then have h': "h' = ?h\<lparr>ho_enumerated := True, ho_devices := AList.update a d' (ho_devices ?h)\<rparr>"
      using assms al resp by (auto simp: device_create_def Let_def)
    show ?thesis
      unfolding h' using al' by (simp add: goes_def note_answer_def maps_ok_def wf_update keys_update)
  qed
  then show ?thesis unfolding one_answer_def by blast
qed

lemma device_action_goes:
  assumes "device_action a t h = Some h'"
  shows "goes sdk [] [] h h'"
proof (cases "t = MT_DEVICE_DESTROY")
  case True
  then obtain en where en: "remove_device a (ho_engine h) = Some en"
    and h': "h' = h\<lparr>ho_engine := en, ho_endpoints := filter (\<lambda>k. fst k \<noteq> a) (ho_endpoints h),
      ho_devices := AList.delete a (ho_devices h), ho_addresses := release (ho_addresses h) a\<rparr>"
    using assms by (auto simp: device_action_def bind_eq_Some_conv on_engine_Some)
  have "engine_goes sdk (ho_engine h) en" using engine_step.remove_dev [OF en] by blast
  moreover have "maps_ok h'" if "maps_ok h"
    using that remove_device_keys [OF en] by (simp add: h' maps_ok_def keys_delete wf_delete)
  ultimately show ?thesis by (simp add: goes_def h')
next
  case False
  show ?thesis
  proof (cases "t = MT_DEVICE_PAUSE")
    case True
    then have p: "on_engine (pause_each (filter (\<lambda>k. fst k = a) (ho_endpoints h))) h = Some h'"
      using assms False by (simp add: device_action_def)
    show ?thesis by (rule on_engine_goes [OF p]) (use pause_each_steps in blast)+
  qed (use assms False in \<open>simp add: device_action_def\<close>)
qed

lemma device_command_goes:
  assumes "device_command sdk msg h = Some (r, h')" "device_machine (device_address msg) h = Some d"
  shows "one_answer sdk msg r [] h h'"
proof -
  let ?a = "device_address msg"
  let ?act = "\<lambda>(d, h). do { h \<leftarrow> device_action ?a (message_type msg) h; Some (Inr (), d, h) }"
  obtain d' where a: "answer (on_device ?a (sdk_device_inspect sdk msg))
      (\<lambda>s x. answered_own msg s (on_device ?a (sdk_device_respond sdk msg s) x)) ?act (d, h) = Some (r, d', h')"
    using assms by (auto simp: device_command_def Let_def)
  have "\<exists>s. goes sdk [(msg, s)] [] (snd (d, h)) (snd (d', h')) \<and> (r = Inr () \<longrightarrow> s = CiSuccess)"
    using a
  proof (rule answer_goes [where host = snd])
    show "goes sdk [] [] (snd (d, h)) (snd x1)" if "on_device ?a (sdk_device_inspect sdk msg) (d, h) = (i, x1)" for i x1
      using that on_device_goes by (cases x1) fastforce
    show "goes sdk [] [] (snd x1) (snd x2)" if "?act x1 = Some (res, x2)" for x1 res x2
      using that device_action_goes by (cases x1) (fastforce simp: bind_eq_Some_conv)
  qed (rule on_device_answered_goes)
  then show ?thesis by (simp add: one_answer_def)
qed

lemma set_insert_list: "distinct xs \<Longrightarrow> distinct (List.insert x xs)" "set (List.insert x xs) = insert x (set xs)"
  by (simp_all add: distinct_insert)

lemma endpoint_create_goes:
  assumes "endpoint_create sdk env msg h = Some (r, h')" "sdk_endpoint_init sdk msg (ho_controller h) = Inr s"
  shows "one_answer sdk msg r [] h h'"
proof -
  let ?h = "note_answer msg CiSuccess h"
  obtain e s' where resp: "sdk_endpoint_respond sdk msg CiSuccess s = (e, s')" by fastforce
  have "goes sdk [(msg, CiSuccess)] [] h h'"
  proof (cases e)
    case (Inl x)
    then have "h' = ?h" using assms resp by (auto simp: endpoint_create_def Let_def)
    then show ?thesis by (simp only: note_answer_goes)
  next
    case (Inr u)
    let ?k = "sdk_endpoint_key sdk s'"
    obtain en where en: "add_endpoint ?k (endpoint_descriptor (env_memory env) msg)
        \<lparr>io_machine = s', io_memory = env_memory env\<rparr> (ho_engine h) = Some en"
      and h': "h' = ?h\<lparr>ho_endpoints := List.insert ?k (ho_endpoints h), ho_engine := en\<rparr>"
      using assms resp Inr by (auto simp: endpoint_create_def Let_def bind_eq_Some_conv on_engine_Some note_answer_def)
    have "engine_goes sdk (ho_engine h) en" using engine_step.add [OF en] by blast
    moreover have "maps_ok h'" if "maps_ok h"
      using that add_endpoint_keys [OF en] by (simp add: h' maps_ok_def note_answer_def set_insert_list del: List.insert_def)
    ultimately show ?thesis by (simp add: goes_def h' note_answer_def)
  qed
  then show ?thesis unfolding one_answer_def by blast
qed

lemma endpoint_action_goes:
  assumes "endpoint_action env msg key h = Some h'"
  shows "goes sdk [] [] h h'"
proof -
  let ?t = "message_type msg"
  consider (destroy) "?t = MT_ENDPOINT_DESTROY"
    | (pause) "?t \<noteq> MT_ENDPOINT_DESTROY" "?t = MT_ENDPOINT_PAUSE"
    | (update) "?t \<noteq> MT_ENDPOINT_DESTROY" "?t \<noteq> MT_ENDPOINT_PAUSE" "?t = MT_ENDPOINT_UPDATE"
    | (reset) "?t \<noteq> MT_ENDPOINT_DESTROY" "?t \<noteq> MT_ENDPOINT_PAUSE" "?t \<noteq> MT_ENDPOINT_UPDATE"
        "?t = MT_ENDPOINT_RESET"
    | (other) "?t \<noteq> MT_ENDPOINT_DESTROY" "?t \<noteq> MT_ENDPOINT_PAUSE" "?t \<noteq> MT_ENDPOINT_UPDATE"
        "?t \<noteq> MT_ENDPOINT_RESET"
    by argo
  then show ?thesis
  proof cases
    case destroy
    then obtain en where en: "remove_endpoint key (ho_engine h) = Some en"
      and h': "h' = h\<lparr>ho_engine := en, ho_endpoints := removeAll key (ho_endpoints h)\<rparr>"
      using assms by (auto simp: endpoint_action_def bind_eq_Some_conv on_engine_Some)
    have "engine_goes sdk (ho_engine h) en" using engine_step.remove [OF en] by blast
    moreover have "maps_ok h'" if "maps_ok h"
      using that remove_endpoint_keys [OF en] by (simp add: h' maps_ok_def distinct_removeAll)
    ultimately show ?thesis by (simp add: goes_def h')
  next
    case pause
    then have "on_engine (pause_endpoint key) h = Some h'"
      using assms unfolding endpoint_action_def Let_def by (simp only: if_False if_True refl)
    then show ?thesis
      by (rule on_engine_goes) (use engine_step.pause pause_endpoint_keys in blast)+
  next
    case update
    then have "on_engine (\<lambda>en. Some (update_endpoint key (endpoint_descriptor (env_memory env) msg) en)) h = Some h'"
      using assms unfolding endpoint_action_def Let_def by (simp only: if_False if_True refl)
    then have "h' = h\<lparr>ho_engine := update_endpoint key (endpoint_descriptor (env_memory env) msg) (ho_engine h)\<rparr>"
      by (simp only: on_engine_Some option.inject) blast
    moreover have "engine_goes sdk (ho_engine h) (update_endpoint key (endpoint_descriptor (env_memory env) msg) (ho_engine h))"
      by (rule r_into_rtranclp) (rule engine_step.update)
    ultimately show ?thesis by (simp add: goes_def maps_ok_def update_endpoint_keys)
  next
    case reset
    then have "on_engine (reset_endpoint key) h = Some h'"
      using assms unfolding endpoint_action_def Let_def by (simp only: if_False if_True refl)
    then show ?thesis
      by (rule on_engine_goes) (use engine_step.reset reset_endpoint_keys in blast)+
  next
    case other
    then have "h' = h" using assms unfolding endpoint_action_def Let_def by (simp only: if_False option.inject)
    then show ?thesis by simp
  qed
qed

lemma endpoint_command_goes:
  assumes "endpoint_command sdk env msg h = Some (r, h')"
    and "endpoint_machine (device_address msg, endpoint_address msg) h = Some s"
  shows "one_answer sdk msg r [] h h'"
proof -
  let ?k = "(device_address msg, endpoint_address msg)"
  let ?act = "\<lambda>(s, h). do { h \<leftarrow> endpoint_action env msg ?k h; Some (Inr (), s, h) }"
  obtain r1 s1 h1 where a: "answer (on_endpoint ?k (sdk_endpoint_inspect sdk msg))
      (\<lambda>s x. answered_own msg s (on_endpoint ?k (sdk_endpoint_respond sdk msg s) x)) ?act (s, h) = Some (r1, s1, h1)"
    and k: "(case r1 of Inl e \<Rightarrow> Some (Inl e, h1)
        | Inr _ \<Rightarrow> if message_type msg = MT_ENDPOINT_SET_NEXT_TRANSFER then do {
              h \<leftarrow> on_engine (sync_endpoint (io_ring (sdk_ring sdk)) ?k) h1; Some (Inr (), h) }
            else Some (Inr (), h1)) = Some (r, h')"
    using assms unfolding endpoint_command_def Let_def by (auto simp: bind_eq_Some_conv)
  have "\<exists>st. goes sdk [(msg, st)] [] (snd (s, h)) (snd (s1, h1)) \<and> (r1 = Inr () \<longrightarrow> st = CiSuccess)"
    using a
  proof (rule answer_goes [where host = snd])
    show "goes sdk [] [] (snd (s, h)) (snd x1)" if "on_endpoint ?k (sdk_endpoint_inspect sdk msg) (s, h) = (i, x1)" for i x1
      using that on_endpoint_goes by (cases x1) fastforce
    show "goes sdk [] [] (snd x1) (snd x2)" if "?act x1 = Some (res, x2)" for x1 res x2
      using that endpoint_action_goes by (cases x1) (fastforce simp: bind_eq_Some_conv)
  qed (rule on_endpoint_answered_goes)
  then have one: "one_answer sdk msg r1 [] h h1" by (simp add: one_answer_def)
  consider "r = r1" "h' = h1" | "r = r1" "on_engine (sync_endpoint (io_ring (sdk_ring sdk)) ?k) h1 = Some h'"
    using k by (auto simp: bind_eq_Some_conv split: sum.splits if_splits)
  then show ?thesis
  proof cases
    case 1
    then show ?thesis using one by simp
  next
    case 2
    have "goes sdk [] [] h1 h'"
      by (rule on_engine_goes [OF 2(2)]) (use engine_step.sync sync_endpoint_keys in blast)+
    then show ?thesis using one one_answer_then 2(1) by blast
  qed
qed

section \<open>Whole commands, doorbells and frame updates\<close>

text \<open>The frames reported increase, up to the last one the clock has given out.\<close>

definition frames_ok :: "('c, 'd, 's) Host \<Rightarrow> bool" where
  "frames_ok h \<longleftrightarrow> sorted_wrt (<) (map fst (ho_frames h)) \<and>
     (\<forall>f\<in>set (map fst (ho_frames h)). \<exists>l. fc_last (ho_clock h) = Some l \<and> f \<le> l)"

definition host_goes ::
  "('c, 'p, 'd, 's) Sdk \<Rightarrow> (RawMessage \<times> CiStatus) list \<Rightarrow> ('c, 'd, 's) Host \<Rightarrow> ('c, 'd, 's) Host \<Rightarrow> bool" where
  "host_goes sdk as h h' \<longleftrightarrow> engine_goes sdk (ho_engine h) (ho_engine h') \<and>
     (maps_ok h \<longrightarrow> maps_ok h') \<and> (frames_ok h \<longrightarrow> frames_ok h') \<and> ho_answers h' = ho_answers h @ as"

lemma host_goes_refl [simp]: "host_goes sdk [] h h"
  by (simp add: host_goes_def)

lemma host_goes_trans: "\<lbrakk>host_goes sdk as h1 h2; host_goes sdk bs h2 h3\<rbrakk> \<Longrightarrow> host_goes sdk (as @ bs) h1 h3"
  unfolding host_goes_def by (auto intro: rtranclp_trans)

lemma goes_host_goes: "goes sdk as [] h h' \<Longrightarrow> host_goes sdk as h h'"
  by (simp add: goes_def host_goes_def frames_ok_def)

lemma goes_with_frame:
  assumes "FrameClock_next ticks (ho_clock h) = Some ((f, t), clock)"
    and "goes sdk as [(f, t)] (h\<lparr>ho_clock := clock\<rparr>) h'"
  shows "host_goes sdk as h h'"
proof -
  note n = FrameClock_next_Some [OF assms(1)]
  have c: "fc_last (ho_clock h') = Some f" using assms(2) n(1) by (simp add: goes_def)
  have fr: "ho_frames h' = ho_frames h @ [(f, t)]" using assms(2) by (simp add: goes_def)
  have "frames_ok h'" if ok: "frames_ok h"
  proof -
    have less: "g < f" if "g \<in> set (map fst (ho_frames h))" for g
      using ok that n(2) unfolding frames_ok_def by (meson le_less_trans)
    then show ?thesis using ok by (auto simp: frames_ok_def c fr sorted_wrt_append less_imp_le)
  qed
  then show ?thesis using assms(2) by (simp add: goes_def host_goes_def maps_ok_def)
qed

lemma frame_number_goes:
  assumes "frame_number_command sdk env msg h = Some (r, h')"
  shows "\<exists>s. host_goes sdk [(msg, s)] h h' \<and> (r = Inr () \<longrightarrow> s = CiSuccess)"
proof -
  let ?resp = "\<lambda>f t s h. answered msg s (on_controller (sdk_controller_respond_frame sdk msg s f t)
      (h\<lparr>ho_frames := ho_frames h @ [(f, t)]\<rparr>))"
  obtain f t clock where n: "FrameClock_next (env_ticks env) (ho_clock h) = Some ((f, t), clock)"
    and a: "answer (on_controller (sdk_controller_inspect sdk msg)) (?resp f t) (\<lambda>h. Some (Inr (), h))
        (h\<lparr>ho_clock := clock\<rparr>) = Some (r, h')"
    using assms by (auto simp: frame_number_command_def bind_eq_Some_conv)
  have frame: "goes sdk [] [(f, t)] g (g\<lparr>ho_frames := ho_frames g @ [(f, t)]\<rparr>)" for g
    by (simp add: goes_def maps_ok_def)
  have "\<exists>s. goes sdk [(msg, s)] [(f, t)] (h\<lparr>ho_clock := clock\<rparr>) h' \<and> (r = Inr () \<longrightarrow> s = CiSuccess)"
    using a
  proof (rule answer_goes [where host = "\<lambda>h. h"])
    show "goes sdk [(msg, s)] [(f, t)] g (snd (?resp f t s g))" for s g
      using goes_trans [OF frame on_controller_answered_goes] by simp
  qed (auto intro: on_controller_goes)
  then show ?thesis using goes_with_frame [OF n] by blast
qed

text \<open>
  The commands that get an answer: those with an object that can give it. Without one (an
  unknown device or endpoint, a state machine that the framework refuses to create, an unsupported
  command) there is nothing to answer with.
\<close>

definition answerable :: "('c, 'p, 'd, 's) Sdk \<Rightarrow> RawMessage \<Rightarrow> ('c, 'd, 's) Host \<Rightarrow> bool" where
  "answerable sdk msg h \<longleftrightarrow>
     (let t = message_type msg in
      if MT_CONTROLLER_POWER_ON \<le> t \<and> t \<le> MT_CONTROLLER_PAUSE then True
      else if t = MT_CONTROLLER_FRAME_NUMBER then True
      else if MT_PORT_POWER_ON \<le> t \<and> t \<le> MT_PORT_STATUS
        then isl (sdk_port_for sdk msg (ho_controller h)) = False
      else if t = MT_DEVICE_CREATE then isl (sdk_device_init sdk msg (ho_controller h)) = False
      else if MT_DEVICE_DESTROY \<le> t \<and> t \<le> MT_DEVICE_UPDATE
        then device_machine (device_address msg) h \<noteq> None
      else if t = MT_ENDPOINT_CREATE then isl (sdk_endpoint_init sdk msg (ho_controller h)) = False
      else if MT_ENDPOINT_DESTROY \<le> t \<and> t \<le> MT_ENDPOINT_SET_NEXT_TRANSFER
        then endpoint_machine (device_address msg, endpoint_address msg) h \<noteq> None
      else False)"

text \<open>The dispatcher's branches, one predicate each.\<close>

lemma command_kinds:
  obtains (controller) "command sdk env msg h = controller_command sdk msg h" "answerable sdk msg h"
  | (frame) "command sdk env msg h = frame_number_command sdk env msg h" "answerable sdk msg h"
      "message_type msg = MT_CONTROLLER_FRAME_NUMBER"
  | (port) "command sdk env msg h = port_command sdk env msg h"
      "answerable sdk msg h \<longleftrightarrow> \<not> isl (sdk_port_for sdk msg (ho_controller h))"
  | (create) "command sdk env msg h = device_create sdk msg h"
      "answerable sdk msg h \<longleftrightarrow> \<not> isl (sdk_device_init sdk msg (ho_controller h))"
  | (device) "command sdk env msg h = device_command sdk msg h"
      "answerable sdk msg h \<longleftrightarrow> device_machine (device_address msg) h \<noteq> None"
  | (endpoint_create) "command sdk env msg h = endpoint_create sdk env msg h"
      "answerable sdk msg h \<longleftrightarrow> \<not> isl (sdk_endpoint_init sdk msg (ho_controller h))"
  | (endpoint) "command sdk env msg h = endpoint_command sdk env msg h"
      "answerable sdk msg h \<longleftrightarrow> endpoint_machine (device_address msg, endpoint_address msg) h \<noteq> None"
  | (other) "command sdk env msg h = Some (Inr (), h)" "\<not> answerable sdk msg h"
proof -
  let ?t = "message_type msg"
  note d = command_def answerable_def Let_def if_True if_False simp_thms
  consider (1) "MT_CONTROLLER_POWER_ON \<le> ?t \<and> ?t \<le> MT_CONTROLLER_PAUSE"
    | (2) "\<not> (MT_CONTROLLER_POWER_ON \<le> ?t \<and> ?t \<le> MT_CONTROLLER_PAUSE)"
    by argo
  then show thesis
  proof cases
    case 1
    show thesis by (rule controller) (use 1 in \<open>simp_all only: d\<close>)
  next
    case 2
    consider (3) "?t = MT_CONTROLLER_FRAME_NUMBER" | (4) "?t \<noteq> MT_CONTROLLER_FRAME_NUMBER"
        "MT_PORT_POWER_ON \<le> ?t \<and> ?t \<le> MT_PORT_STATUS"
      | (5) "?t \<noteq> MT_CONTROLLER_FRAME_NUMBER" "\<not> (MT_PORT_POWER_ON \<le> ?t \<and> ?t \<le> MT_PORT_STATUS)"
      by argo
    then show thesis
    proof cases
      case 3
      show thesis by (rule frame) (use 2 3 in \<open>simp_all only: d\<close>)
    next
      case 4
      show thesis by (rule port) (use 2 4 in \<open>simp_all only: d\<close>)
    next
      case 5
      consider (6) "?t = MT_DEVICE_CREATE"
        | (7) "?t \<noteq> MT_DEVICE_CREATE" "MT_DEVICE_DESTROY \<le> ?t \<and> ?t \<le> MT_DEVICE_UPDATE"
        | (8) "?t \<noteq> MT_DEVICE_CREATE" "\<not> (MT_DEVICE_DESTROY \<le> ?t \<and> ?t \<le> MT_DEVICE_UPDATE)"
            "?t = MT_ENDPOINT_CREATE"
        | (9) "?t \<noteq> MT_DEVICE_CREATE" "\<not> (MT_DEVICE_DESTROY \<le> ?t \<and> ?t \<le> MT_DEVICE_UPDATE)"
            "?t \<noteq> MT_ENDPOINT_CREATE" "MT_ENDPOINT_DESTROY \<le> ?t \<and> ?t \<le> MT_ENDPOINT_SET_NEXT_TRANSFER"
        | (10) "?t \<noteq> MT_DEVICE_CREATE" "\<not> (MT_DEVICE_DESTROY \<le> ?t \<and> ?t \<le> MT_DEVICE_UPDATE)"
            "?t \<noteq> MT_ENDPOINT_CREATE" "\<not> (MT_ENDPOINT_DESTROY \<le> ?t \<and> ?t \<le> MT_ENDPOINT_SET_NEXT_TRANSFER)"
        by argo
      then show thesis
      proof cases
        case 6
        show thesis by (rule create) (use 2 5 6 in \<open>simp_all only: d\<close>)
      next
        case 7
        show thesis by (rule device) (use 2 5 7 in \<open>simp_all only: d\<close>)
      next
        case 8
        show thesis by (rule endpoint_create) (use 2 5 8 in \<open>simp_all only: d\<close>)
      next
        case 9
        show thesis by (rule endpoint) (use 2 5 9 in \<open>simp_all only: d\<close>)
      next
        case 10
        show thesis by (rule other) (use 2 5 10 in \<open>simp_all only: d\<close>)
      qed
    qed
  qed
qed

lemma one_answer_host: "one_answer sdk msg r [] h h' \<Longrightarrow>
    \<exists>s. host_goes sdk [(msg, s)] h h' \<and> (r = Inr () \<longrightarrow> s = CiSuccess)"
  unfolding one_answer_def using goes_host_goes by blast

lemma not_isl: "\<not> isl x \<Longrightarrow> \<exists>y. x = Inr y" "isl x \<Longrightarrow> \<exists>e. x = Inl e"
  by (cases x; simp)+

lemma command_answers:
  assumes run: "command sdk env msg h = Some (r, h')" and env: "env_ok env" and able: "answerable sdk msg h"
  shows "\<exists>s. host_goes sdk [(msg, s)] h h' \<and> (r = Inr () \<longrightarrow> s = CiSuccess)"
proof (cases rule: command_kinds [of sdk env msg h])
  case controller
  show ?thesis using run unfolding controller(1) by (intro one_answer_host controller_command_goes)
next
  case frame
  show ?thesis using run unfolding frame(1) by (rule frame_number_goes)
next
  case port
  obtain p where "sdk_port_for sdk msg (ho_controller h) = Inr p" using able [unfolded port(2)] by (elim not_isl(1) [THEN exE])
  then show ?thesis using run env unfolding port(1) by (intro one_answer_host port_command_goes)
next
  case create
  obtain d where "sdk_device_init sdk msg (ho_controller h) = Inr d" using able [unfolded create(2)] by (elim not_isl(1) [THEN exE])
  then show ?thesis using run unfolding create(1) by (intro one_answer_host device_create_goes)
next
  case device
  obtain d where "device_machine (device_address msg) h = Some d" using able [unfolded device(2)] by blast
  then show ?thesis using run unfolding device(1) by (intro one_answer_host device_command_goes)
next
  case endpoint_create
  obtain s where "sdk_endpoint_init sdk msg (ho_controller h) = Inr s" using able [unfolded endpoint_create(2)] by (elim not_isl(1) [THEN exE])
  then show ?thesis using run unfolding endpoint_create(1) by (intro one_answer_host endpoint_create_goes)
next
  case endpoint
  obtain s where "endpoint_machine (device_address msg, endpoint_address msg) h = Some s" using able [unfolded endpoint(2)] by blast
  then show ?thesis using run unfolding endpoint(1) by (intro one_answer_host endpoint_command_goes)
next
  case other
  show ?thesis using able other(2) by contradiction
qed

lemma command_unanswerable:
  assumes able: "\<not> answerable sdk msg h"
  shows "\<exists>r. command sdk env msg h = Some (r, h)"
proof (cases rule: command_kinds [of sdk env msg h])
  case port
  obtain e where "sdk_port_for sdk msg (ho_controller h) = Inl e" using able [unfolded port(2) not_not] by (elim not_isl(2) [THEN exE])
  then show ?thesis unfolding port(1) by (simp add: port_command_def)
next
  case create
  obtain e where "sdk_device_init sdk msg (ho_controller h) = Inl e" using able [unfolded create(2) not_not] by (elim not_isl(2) [THEN exE])
  then show ?thesis unfolding create(1) by (simp add: device_create_def)
next
  case device
  have "device_machine (device_address msg) h = None" using able [unfolded device(2)] by blast
  then show ?thesis unfolding device(1) by (simp add: device_command_def)
next
  case endpoint_create
  obtain e where "sdk_endpoint_init sdk msg (ho_controller h) = Inl e" using able [unfolded endpoint_create(2) not_not] by (elim not_isl(2) [THEN exE])
  then show ?thesis unfolding endpoint_create(1) by (simp add: endpoint_create_def)
next
  case endpoint
  have "endpoint_machine (device_address msg, endpoint_address msg) h = None" using able [unfolded endpoint(2)] by blast
  then show ?thesis unfolding endpoint(1) by (simp add: endpoint_command_def Let_def)
next
  case other
  show ?thesis unfolding other(1) by simp
next
  case controller
  show ?thesis using able controller(2) by contradiction
next
  case frame
  show ?thesis using able frame(2) by contradiction
qed

lemma command_ranges:
  "\<lbrakk>MT_DEVICE_DESTROY \<le> message_type msg; message_type msg \<le> MT_DEVICE_UPDATE\<rbrakk> \<Longrightarrow>
     command sdk env msg h = device_command sdk msg h"
  "\<lbrakk>MT_ENDPOINT_DESTROY \<le> message_type msg; message_type msg \<le> MT_ENDPOINT_SET_NEXT_TRANSFER\<rbrakk> \<Longrightarrow>
     command sdk env msg h = endpoint_command sdk env msg h"
  by (auto simp: command_def Let_def command_types word_le_nat_alt word_unat_eq_iff)

lemma host_doorbell_goes:
  assumes "host_doorbell sdk bell h = Some h'"
  shows "goes sdk [] [] h h'"
proof -
  let ?key = "(fst (decode_doorbell bell), fst (snd (decode_doorbell bell)))"
  have d: "host_doorbell sdk bell h = (case endpoint_machine ?key h of None \<Rightarrow> Some h
      | Some s \<Rightarrow> (case sdk_process_doorbell sdk bell s of
          (Inl e, s) \<Rightarrow> Some (put_machine ?key s h)
        | (Inr _, s) \<Rightarrow> on_engine (doorbell (io_ring (sdk_ring sdk)) ?key) (put_machine ?key s h)))"
    unfolding host_doorbell_def decode_doorbell_def Let_def prod.case fst_conv snd_conv ..
  show ?thesis
  proof (cases "endpoint_machine ?key h")
    case None
    then show ?thesis using assms unfolding d by simp
  next
    case (Some s)
    obtain e s' where p: "sdk_process_doorbell sdk bell s = (e, s')" by fastforce
    show ?thesis
    proof (cases e)
      case (Inl x)
      then have "h' = put_machine ?key s' h" using assms Some p unfolding d by simp
      then show ?thesis by (simp only: put_machine_goes)
    next
      case (Inr u)
      then have on: "on_engine (doorbell (io_ring (sdk_ring sdk)) ?key) (put_machine ?key s' h) = Some h'"
        using assms Some p unfolding d by simp
      have "goes sdk [] [] (put_machine ?key s' h) h'"
      proof (rule on_engine_goes [OF on])
        fix en
        assume d: "doorbell (io_ring (sdk_ring sdk)) ?key (ho_engine (put_machine ?key s' h)) = Some en"
        show "engine_goes sdk (ho_engine (put_machine ?key s' h)) en"
          by (rule r_into_rtranclp) (rule engine_step.bell [OF d])
        show "keys (en_endpoints en) = keys (en_endpoints (ho_engine (put_machine ?key s' h)))"
          using d unfolding doorbell_def by (intro moves_keys) (rule pump_moves)
      qed
      from goes_trans [OF put_machine_goes this] show ?thesis by simp
    qed
  qed
qed

lemma doorbells_goes: "doorbells sdk bells h = Some h' \<Longrightarrow> goes sdk [] [] h h'"
proof (induction bells arbitrary: h)
  case (Cons b bs)
  then obtain h1 where "host_doorbell sdk b h = Some h1" "doorbells sdk bs h1 = Some h'"
    by (auto simp: bind_eq_Some_conv)
  from goes_trans [OF host_doorbell_goes [OF this(1)] Cons.IH [OF this(2)]] show ?case by simp
qed simp

lemma frame_update_goes:
  assumes "frame_update sdk ticks h = Some h'"
  shows "host_goes sdk [] h h'"
proof (cases "sdk_controller_active sdk (ho_controller h)")
  case True
  then obtain f t clock where n: "FrameClock_next ticks (ho_clock h) = Some ((f, t), clock)"
    and h': "h' = snd (on_controller (sdk_controller_frame sdk f t)
      (h\<lparr>ho_clock := clock, ho_frames := ho_frames h @ [(f, t)]\<rparr>))"
    using assms by (auto simp: frame_update_def bind_eq_Some_conv)
  have "goes sdk [] [(f, t)] (h\<lparr>ho_clock := clock\<rparr>) h'"
    unfolding h' on_controller_def by (simp add: goes_def maps_ok_def split: prod.split)
  then show ?thesis using goes_with_frame [OF n] by blast
qed (use assms in \<open>simp add: frame_update_def\<close>)

section \<open>The controller in its environment\<close>

inductive host_step :: "('c, 'p, 'd, 's) Sdk \<Rightarrow> ('c, 'd, 's) Host \<Rightarrow> ('c, 'd, 's) Host \<Rightarrow> bool" for sdk where
  handled: "\<lbrakk>command sdk env msg h = Some (r, h'); env_ok env\<rbrakk> \<Longrightarrow> host_step sdk h h'"
| rung: "doorbells sdk bells h = Some h' \<Longrightarrow> host_step sdk h h'"
| ticked: "frame_update sdk ticks h = Some h' \<Longrightarrow> host_step sdk h h'"
| finished: "\<lbrakk>(ch, key, token) \<in> set (en_waiters (ho_engine h)); (ch, res) \<in> set (replies (en_session (ho_engine h)));
    finish (io_ring (sdk_ring sdk)) key token res
      ((ho_engine h)\<lparr>en_waiters := remove1 (ch, key, token) (en_waiters (ho_engine h))\<rparr>) = Some en\<rbrakk> \<Longrightarrow>
    host_step sdk h (h\<lparr>ho_engine := en\<rparr>)"
| connected: "host_step sdk h (snd (set_connected sdk connected h))"
| network: "session_move (en_session (ho_engine h)) st \<Longrightarrow>
    host_step sdk h (h\<lparr>ho_engine := (ho_engine h)\<lparr>en_session := st\<rparr>\<rparr>)"
| memory: "get_ep (ho_engine h) key = Some ep \<Longrightarrow>
    host_step sdk h (h\<lparr>ho_engine := put_ep key (ep\<lparr>ep_ring := (ep_ring ep)\<lparr>io_memory := mem\<rparr>\<rparr>) (ho_engine h)\<rparr>)"

lemma finish_keys:
  assumes "finish ring key token res en = Some en'"
  shows "keys (en_endpoints en') = keys (en_endpoints en)"
proof (cases "get_ep en key")
  case None
  then show ?thesis using assms by (simp add: finish_def)
next
  case (Some ep)
  from assms Some show ?thesis
  proof (cases rule: finish_shape)
    case (retry before f later st)
    show ?thesis using moves_keys [OF pump_moves [OF retry(7)]] keys_put_ep [OF Some] by simp
  next
    case (answer before f later)
    show ?thesis using moves_keys [OF pump_moves [OF answer(5)]] keys_put_ep [OF Some] by simp
  qed simp
qed

lemma engine_move_goes:
  assumes "engine_step (io_ring (sdk_ring sdk)) (ho_engine h) en" "keys (en_endpoints en) = keys (en_endpoints (ho_engine h))"
  shows "goes sdk [] [] h (h\<lparr>ho_engine := en\<rparr>)"
  using assms by (simp add: goes_def maps_ok_def r_into_rtranclp)

lemma set_connected_goes: "goes sdk [] [] h (snd (set_connected sdk connected h))"
  by (auto simp: set_connected_def with_port_def goes_def maps_ok_def split: sum.split prod.split)

lemma set_connected_engine [simp]: "ho_engine (snd (set_connected sdk connected h)) = ho_engine h"
  by (auto simp: set_connected_def with_port_def split: sum.split prod.split)

lemma host_step_goes: "host_step sdk h h' \<Longrightarrow> \<exists>as. host_goes sdk as h h'"
proof (induction rule: host_step.induct)
  case (handled env msg h r h')
  show ?case
  proof (cases "answerable sdk msg h")
    case True
    then show ?thesis using command_answers [OF handled(1,2)] by blast
  next
    case False
    then have "h' = h" using command_unanswerable [OF False, of env] handled(1) by simp
    then show ?thesis using host_goes_refl by blast
  qed
next
  case (rung bells h h')
  then show ?case using doorbells_goes goes_host_goes by blast
next
  case (ticked ticks h h')
  then show ?case using frame_update_goes by blast
next
  case (finished ch key token h res en)
  have "goes sdk [] [] h (h\<lparr>ho_engine := en\<rparr>)"
    using engine_step.finished [OF finished] finish_keys [OF finished(3)] by (intro engine_move_goes) simp_all
  then show ?case using goes_host_goes by blast
next
  case (connected h b)
  then show ?case using set_connected_goes goes_host_goes by blast
next
  case (network h st)
  have "goes sdk [] [] h (h\<lparr>ho_engine := (ho_engine h)\<lparr>en_session := st\<rparr>\<rparr>)"
    using engine_step.network [OF network] by (intro engine_move_goes) simp_all
  then show ?case using goes_host_goes by blast
next
  case (memory h key ep mem)
  have "goes sdk [] [] h (h\<lparr>ho_engine := put_ep key (ep\<lparr>ep_ring := (ep_ring ep)\<lparr>io_memory := mem\<rparr>\<rparr>) (ho_engine h)\<rparr>)"
    using engine_step.host [OF memory] keys_put_ep [OF memory] by (intro engine_move_goes) simp_all
  then show ?case using goes_host_goes by blast
qed

lemma maps_ok_new: "maps_ok (Host_new c st d clock)"
  using pool.taken_empty by (simp add: maps_ok_def Host_new_def Engine_new_def)

lemma host_reachable:
  assumes "(host_step sdk)\<^sup>*\<^sup>* (Host_new c st d clock) h"
  shows "maps_ok h \<and> frames_ok h \<and> engine_goes sdk (Engine_new st d) (ho_engine h)"
  using assms
proof (induction rule: rtranclp_induct)
  case base
  show ?case using maps_ok_new by (simp add: frames_ok_def Host_new_def)
next
  case (step h h')
  from host_step_goes [OF step(2)] step(3) show ?case
    by (auto simp: host_goes_def intro: rtranclp_trans)
qed

section \<open>Commands return\<close>

text \<open>URBs in flight on all endpoints, and the sequence numbers that cancelling them may need.\<close>

definition flights :: "'r Engine \<Rightarrow> nat" where
  "flights en = sum_list (map (\<lambda>p. length (ep_in_flight (snd p))) (en_endpoints en))"

abbreviation room :: "'r Engine \<Rightarrow> bool" where
  "room en \<equiv> card (seqs_used (en_session en)) + flights en + 1 < 2 ^ 32 - 1"

lemma alist_lookup_le: "map_of m k = Some v \<Longrightarrow> (f v :: nat) \<le> sum_list (map (\<lambda>p. f (snd p)) m)"
  by (induction m) (auto split: if_splits)

lemma alist_update_same:
  "map_of m k = Some v \<Longrightarrow> f w = f v \<Longrightarrow>
     sum_list (map (\<lambda>p. f (snd p)) (AList.update k w m)) = (sum_list (map (\<lambda>p. f (snd p)) m) :: nat)"
  by (induction m) (auto split: if_splits)

lemma in_flight_count_le: "in_flight_count key en \<le> flights en"
proof (cases "get_ep en key")
  case (Some ep)
  then show ?thesis
    using alist_lookup_le [OF Some, of "\<lambda>ep. length (ep_in_flight ep)"] by (simp add: in_flight_count_def flights_def)
qed (simp add: in_flight_count_def)

lemma flights_put_machine [simp]:
  "flights (ho_engine (put_machine key s h)) = flights (ho_engine h)"
  "en_session (ho_engine (put_machine key s h)) = en_session (ho_engine h)"
proof -
  show "flights (ho_engine (put_machine key s h)) = flights (ho_engine h)"
  proof (cases "get_ep (ho_engine h) key")
    case (Some ep)
    then show ?thesis
      using alist_update_same [OF Some, of "\<lambda>ep. length (ep_in_flight ep)"]
      by (simp add: put_machine_def flights_def put_ep_def)
  qed (simp add: put_machine_def)
  show "en_session (ho_engine (put_machine key s h)) = en_session (ho_engine h)"
    by (simp add: put_machine_def split: option.split)
qed

lemma unlink_flights_total:
  assumes "card (seqs_used st) + length fs < 2 ^ 32 - 1"
  shows "\<exists>st'. unlink_flights fs st = Some st'"
proof -
  have "length (filter (\<lambda>f. fl_result f = None) fs) \<le> length fs" by (rule length_filter_le)
  then have "card (seqs_used st) + length (map fl_seqnum (filter (\<lambda>f. fl_result f = None) fs)) < 2 ^ 32 - 1"
    using assms unfolding length_map by linarith
  then show ?thesis unfolding unlink_flights_seqs by (rule unlink_seqs_total)
qed

lemma unlink_flights_card: "unlink_flights fs st = Some st' \<Longrightarrow> card (seqs_used st') \<le> card (seqs_used st) + length fs"
proof (induction fs arbitrary: st)
  case (Cons f fs)
  show ?case
  proof (cases "fl_result f = None")
    case True
    then obtain st1 where 1: "unlink (fl_seqnum f) st = Some st1" "unlink_flights fs st1 = Some st'"
      using Cons.prems by (auto simp: bind_eq_Some_conv)
    from Cons.IH [OF 1(2)] conjunct1 [OF unlink_card [OF 1(1)]] show ?thesis by simp
  next
    case False
    then show ?thesis using Cons by fastforce
  qed
qed simp

lemma unlink_each_total:
  "card (seqs_used (en_session en)) + sum_list (map (\<lambda>ep. length (ep_in_flight ep)) eps) < 2 ^ 32 - 1 \<Longrightarrow>
     \<exists>en'. unlink_each eps en = Some en'"
proof (induction eps arbitrary: en)
  case (Cons ep eps)
  then obtain st where st: "unlink_flights (ep_in_flight ep) (en_session en) = Some st"
    using unlink_flights_total [of "en_session en" "ep_in_flight ep"] by auto
  have "\<exists>en'. unlink_each eps (en\<lparr>en_session := st\<rparr>) = Some en'"
    using Cons.prems unlink_flights_card [OF st] by (intro Cons.IH) simp
  then show ?case using st by (simp add: unlink_all_def)
qed simp

lemma sum_list_filter_le: "sum_list (map f (filter P xs)) \<le> (sum_list (map f xs) :: nat)"
  by (induction xs) auto

lemma remove_device_total:
  assumes "room en"
  shows "\<exists>en'. remove_device d en = Some en'"
proof -
  let ?eps = "map snd (filter (\<lambda>p. fst (fst p) = d) (en_endpoints en))"
  have "sum_list (map (\<lambda>ep. length (ep_in_flight ep)) ?eps) \<le> flights en"
    using sum_list_filter_le [of "\<lambda>p. length (ep_in_flight (snd p))"] by (simp add: flights_def comp_def)
  then show ?thesis
    unfolding remove_device_def Let_def using assms by (intro unlink_each_total) simp
qed

lemma unlink_all_total:
  assumes "card (seqs_used (en_session en)) + length fs < 2 ^ 32 - 1"
  shows "\<exists>en'. unlink_all fs en = Some en'"
  using unlink_flights_total [OF assms] by (auto simp: unlink_all_def)

lemma engine_ops_total:
  assumes "room en"
  shows "\<exists>en'. add_endpoint key info r en = Some en'" "\<exists>en'. remove_endpoint key en = Some en'"
    "\<exists>en'. reset_endpoint key en = Some en'" "\<exists>en'. sync_endpoint ring key en = Some en'"
proof -
  have c: "card (seqs_used (en_session en)) + length (ep_in_flight ep) < 2 ^ 32 - 1" if "get_ep en key = Some ep" for ep
    using that assms in_flight_count_le [of key en] by (simp add: in_flight_count_def)
  have u: "\<exists>en'. unlink_all (ep_in_flight ep) e = Some en'" if "get_ep en key = Some ep" "en_session e = en_session en" for ep and e :: "'a Engine"
    using c [OF that(1)] that(2) by (intro unlink_all_total) simp
  show "\<exists>en'. add_endpoint key info r en = Some en'"
    by (cases "get_ep en key") (simp_all add: add_endpoint_def Let_def u)
  show "\<exists>en'. remove_endpoint key en = Some en'"
    by (cases "get_ep en key") (simp_all add: remove_endpoint_def u)
  show "\<exists>en'. reset_endpoint key en = Some en'"
    by (cases "get_ep en key") (simp_all add: reset_endpoint_def u)
  show "\<exists>en'. sync_endpoint ring key en = Some en'"
    by (cases "get_ep en key") (simp_all add: sync_endpoint_def Let_def u)
qed

lemma pause_flights_total:
  "card (seqs_used st) + length fs < 2 ^ 32 - 1 \<Longrightarrow>
     \<exists>fs' st'. pause_flights fs st = Some (fs', st') \<and> length fs' = length fs \<and>
       card (seqs_used st') \<le> card (seqs_used st) + length fs"
proof (induction fs arbitrary: st)
  case (Cons f fs)
  show ?case
  proof (cases "fl_result f = None \<and> \<not> fl_unlinking f")
    case True
    obtain st1 where 1: "unlink (fl_seqnum f) st = Some st1" using Cons.prems unlink_total [of st] by auto
    note le = conjunct1 [OF unlink_card [OF 1]]
    with Cons.prems have "card (seqs_used st1) + length fs < 2 ^ 32 - 1" by simp
    from Cons.IH [OF this] 1 le True show ?thesis by auto
  next
    case False
    have "card (seqs_used st) + length fs < 2 ^ 32 - 1" using Cons.prems by simp
    from Cons.IH [OF this] obtain fs' st' where "pause_flights fs st = Some (fs', st')" "length fs' = length fs"
      "card (seqs_used st') \<le> card (seqs_used st) + length fs" by blast
    then have "pause_flights (f # fs) st = Some (f # fs', st')" "length (f # fs') = length (f # fs)"
      "card (seqs_used st') \<le> card (seqs_used st) + length (f # fs)" using False by auto
    then show ?thesis by blast
  qed
qed simp

lemma pause_endpoint_total:
  assumes "card (seqs_used (en_session en)) + in_flight_count key en < 2 ^ 32 - 1"
  shows "\<exists>en'. pause_endpoint key en = Some en' \<and> (\<forall>k. in_flight_count k en' = in_flight_count k en) \<and>
    card (seqs_used (en_session en')) \<le> card (seqs_used (en_session en)) + in_flight_count key en"
proof (cases "(snd key AND 0x80 = 0 \<or> snd key AND 0x7f = 0) \<or> get_ep en key = None")
  case True
  then have "pause_endpoint key en = Some en" unfolding pause_endpoint_def by (elim disjE) simp_all
  then show ?thesis by simp
next
  case False
  then obtain ep where ep: "get_ep en key = Some ep" by blast
  have "card (seqs_used (en_session en)) + length (ep_in_flight ep) < 2 ^ 32 - 1"
    using assms ep by (simp add: in_flight_count_def)
  from pause_flights_total [OF this] obtain fs st where p: "pause_flights (ep_in_flight ep) (en_session en) = Some (fs, st)"
    "length fs = length (ep_in_flight ep)" "card (seqs_used st) \<le> card (seqs_used (en_session en)) + length (ep_in_flight ep)"
    by blast
  let ?en = "(put_ep key (ep\<lparr>ep_in_flight := fs\<rparr>) en)\<lparr>en_session := st\<rparr>"
  have "pause_endpoint key en = Some ?en" using False ep p(1) by (simp add: pause_endpoint_def)
  moreover have "in_flight_count k ?en = in_flight_count k en" for k
    by (simp add: in_flight_count_def ep p(2))
  moreover have "card (seqs_used (en_session ?en)) \<le> card (seqs_used (en_session en)) + in_flight_count key en"
    using p(3) by (simp add: in_flight_count_def ep)
  ultimately show ?thesis by blast
qed

lemma pause_each_total:
  "card (seqs_used (en_session en)) + sum_list (map (\<lambda>k. in_flight_count k en) ks) < 2 ^ 32 - 1 \<Longrightarrow>
     \<exists>en'. pause_each ks en = Some en'"
proof (induction ks arbitrary: en)
  case (Cons k ks)
  have "card (seqs_used (en_session en)) + in_flight_count k en < 2 ^ 32 - 1" using Cons.prems by simp
  from pause_endpoint_total [OF this] obtain en1 where 1: "pause_endpoint k en = Some en1"
    "\<forall>k. in_flight_count k en1 = in_flight_count k en"
    "card (seqs_used (en_session en1)) \<le> card (seqs_used (en_session en)) + in_flight_count k en" by blast
  have "(\<lambda>k. in_flight_count k en1) = (\<lambda>k. in_flight_count k en)" using 1(2) by blast
  then have "\<exists>en'. pause_each ks en1 = Some en'" using Cons.prems 1(3) by (intro Cons.IH) simp
  then show ?case using 1(1) by simp
qed simp

text \<open>Distinct endpoints have at most all the URBs.\<close>

lemma distinct_lookups_le:
  "distinct ks \<Longrightarrow> sum_list (map (\<lambda>k. case map_of m k of None \<Rightarrow> 0 | Some v \<Rightarrow> f v) ks) \<le>
     (sum_list (map (\<lambda>p. f (snd p)) m) :: nat)"
proof (induction m arbitrary: ks)
  case (Cons p m)
  let ?g = "\<lambda>m k. case map_of m k of None \<Rightarrow> 0 | Some v \<Rightarrow> f v"
  have split: "sum_list (map (?g (p # m)) ks) \<le> sum_list (map (?g m) (filter (\<lambda>k. k \<noteq> fst p) ks)) + f (snd p)"
    if "distinct ks" for ks
    using that
  proof (induction ks)
    case (Cons k ks)
    show ?case
    proof (cases "k = fst p")
      case True
      then have "filter (\<lambda>k. k \<noteq> fst p) ks = ks" "map (?g (p # m)) ks = map (?g m) ks"
        using Cons.prems by (auto simp: filter_id_conv)
      then have "sum_list (map (?g (p # m)) ks) \<le> sum_list (map (?g m) (filter (\<lambda>k. k \<noteq> fst p) ks))"
        by (simp only: order_refl)
      then show ?thesis using True by simp
    qed (use Cons in simp)
  qed simp
  show ?case using split [OF Cons.prems] Cons.IH [of "filter (\<lambda>k. k \<noteq> fst p) ks"] Cons.prems by simp
qed simp

lemma sum_counts_le: "distinct ks \<Longrightarrow> sum_list (map (\<lambda>k. in_flight_count k en) ks) \<le> flights en"
  unfolding in_flight_count_def flights_def by (rule distinct_lookups_le)


text \<open>What the handlers need is kept by everything that comes before the engine is called.\<close>

definition same_load :: "('c, 'd, 's) Host \<Rightarrow> ('c, 'd, 's) Host \<Rightarrow> bool" where
  "same_load h h' \<longleftrightarrow> en_session (ho_engine h') = en_session (ho_engine h) \<and>
     flights (ho_engine h') = flights (ho_engine h) \<and> ho_endpoints h' = ho_endpoints h"

lemma put_machine_endpoints [simp]: "ho_endpoints (put_machine key s h) = ho_endpoints h"
  by (simp add: put_machine_def split: option.split)

lemma same_load_calls:
  "on_controller fc h = (r, h') \<Longrightarrow> same_load h h'"
  "on_device a fd (d, h) = (r, d', h') \<Longrightarrow> same_load h h'"
  "on_endpoint key fe (s, h) = (r, s', h') \<Longrightarrow> same_load h h'"
proof -
  show "on_controller fc h = (r, h') \<Longrightarrow> same_load h h'"
    by (auto simp: on_controller_def same_load_def split: prod.splits)
  show "on_device a fd (d, h) = (r, d', h') \<Longrightarrow> same_load h h'"
    by (auto simp: on_device_def same_load_def split: prod.splits option.splits)
  show "on_endpoint key fe (s, h) = (r, s', h') \<Longrightarrow> same_load h h'"
    by (auto simp: on_endpoint_def same_load_def split: prod.splits option.splits)
qed

lemma answer_total:
  assumes "\<And>x1. inspect x = (Inr (), x1) \<Longrightarrow> \<exists>y. act x1 = Some y"
  shows "\<exists>r x'. answer inspect respond act x = Some (r, x')"
proof (cases "inspect x")
  case (Pair i x1)
  show ?thesis
  proof (cases i)
    case (Inl e)
    then show ?thesis using Pair by (simp add: answer_def)
  next
    case (Inr u)
    then obtain res x2 where "act x1 = Some (res, x2)" using assms Pair by fastforce
    then show ?thesis using Pair Inr
      by (cases "respond (case res of Inr _ \<Rightarrow> CiSuccess | Inl _ \<Rightarrow> CiError) x2")
        (auto simp: answer_def Let_def split: sum.split)
  qed
qed

lemma device_action_total:
  assumes "room (ho_engine h)" "distinct (ho_endpoints h)"
  shows "\<exists>h'. device_action a t h = Some h'"
proof -
  obtain en where "remove_device a (ho_engine h) = Some en" using remove_device_total [OF assms(1)] by blast
  moreover obtain en' where "pause_each (filter (\<lambda>k. fst k = a) (ho_endpoints h)) (ho_engine h) = Some en'"
  proof -
    have "distinct (filter (\<lambda>k. fst k = a) (ho_endpoints h))" using assms(2) by simp
    from sum_counts_le [OF this, of "ho_engine h"]
    have "\<exists>en'. pause_each (filter (\<lambda>k. fst k = a) (ho_endpoints h)) (ho_engine h) = Some en'"
      using assms(1) by (intro pause_each_total) linarith
    then show thesis using that by blast
  qed
  ultimately show ?thesis by (simp add: device_action_def on_engine_def)
qed

lemma endpoint_action_total:
  assumes "room (ho_engine h)"
  shows "\<exists>h'. endpoint_action env msg key h = Some h'"
proof -
  have "card (seqs_used (en_session (ho_engine h))) + in_flight_count key (ho_engine h) < 2 ^ 32 - 1"
    using assms in_flight_count_le [of key "ho_engine h"] by linarith
  from pause_endpoint_total [OF this] engine_ops_total(2,3) [OF assms, of key]
  obtain a b c where "pause_endpoint key (ho_engine h) = Some a" "remove_endpoint key (ho_engine h) = Some b"
    "reset_endpoint key (ho_engine h) = Some c" by blast
  then show ?thesis by (simp add: endpoint_action_def Let_def on_engine_def)
qed

lemma reset_device_total: "room en \<Longrightarrow> \<exists>r. reset_device await en = Some r"
  using submit_total [of "en_session en" reset_request]
  by (auto simp: reset_device_def Let_def split: sum.split prod.split)

lemma port_command_total:
  assumes "room (ho_engine h)"
  shows "\<exists>r h'. port_command sdk env msg h = Some (r, h')"
proof (cases "sdk_port_for sdk msg (ho_controller h)")
  case (Inr port)
  let ?act = "\<lambda>h. if message_type msg = MT_PORT_RESET then port_reset sdk env port h else Some (Inr (), h)"
  have act: "\<exists>y. ?act h1 = Some y" if "same_load h h1" for h1
  proof -
    have "room (ho_engine h1)" using assms that by (simp add: same_load_def)
    then obtain res en where rd: "reset_device (env_await env) (ho_engine h1) = Some (res, en)"
      using reset_device_total by fastforce
    have "\<exists>r h'. port_reset sdk env port h1 = Some (r, h')"
      by (cases "ho_enumerated h1") (auto simp: port_reset_def on_engine_def rd split: prod.split sum.split)
    then show ?thesis by auto
  qed
  have "\<exists>r h'. answer (on_controller (sdk_port_inspect sdk port msg))
      (\<lambda>s h. answered msg s (on_controller (sdk_port_respond sdk port msg s) h)) ?act h = Some (r, h')"
    by (rule answer_total) (rule act, erule same_load_calls(1))
  then show ?thesis using Inr by (auto simp: port_command_def split: sum.split)
qed (simp add: port_command_def)

lemma device_command_total:
  assumes "room (ho_engine h)" "distinct (ho_endpoints h)"
  shows "\<exists>r h'. device_command sdk msg h = Some (r, h')"
proof (cases "device_machine (device_address msg) h")
  case (Some d)
  let ?a = "device_address msg"
  let ?act = "\<lambda>(d, h). do { h \<leftarrow> device_action ?a (message_type msg) h; Some (Inr (), d, h) }"
  have "\<exists>r x'. answer (on_device ?a (sdk_device_inspect sdk msg))
      (\<lambda>s x. answered_own msg s (on_device ?a (sdk_device_respond sdk msg s) x)) ?act (d, h) = Some (r, x')"
  proof (rule answer_total)
    fix x1
    assume i: "on_device ?a (sdk_device_inspect sdk msg) (d, h) = (Inr (), x1)"
    obtain d1 h1 where x1: "x1 = (d1, h1)" by (cases x1)
    have "same_load h h1" using i unfolding x1 by (rule same_load_calls(2))
    then have "room (ho_engine h1)" "distinct (ho_endpoints h1)" using assms by (simp_all add: same_load_def)
    then show "\<exists>y. ?act x1 = Some y" using device_action_total [of h1 ?a "message_type msg"] by (auto simp: x1)
  qed
  then show ?thesis using Some by (auto simp: device_command_def Let_def)
qed (simp add: device_command_def)

lemma sync_load:
  fixes h :: "('c, 'd, 's) Host"
  assumes "answer (on_endpoint key (sdk_endpoint_inspect sdk msg))
      (\<lambda>s x. answered_own msg s (on_endpoint key (sdk_endpoint_respond sdk msg s) x))
      (\<lambda>(s, h). do { h \<leftarrow> endpoint_action env msg key h; Some (Inr (), s, h) }) (s, h) = Some (r, s', h')"
    and "message_type msg = MT_ENDPOINT_SET_NEXT_TRANSFER"
  shows "same_load h h'"
proof -
  have resp: "same_load h2 (snd (snd (answered_own msg st (on_endpoint key (sdk_endpoint_respond sdk msg st) (s2, h2)))))" for st s2 h2
  proof (cases "on_endpoint key (sdk_endpoint_respond sdk msg st) (s2, h2)")
    case (fields e s3 h3)
    then show ?thesis using same_load_calls(3) [OF fields] by (simp add: answered_own_def same_load_def note_answer_def)
  qed
  have no: "endpoint_action env msg key h2 = Some h2" for h2 :: "('c, 'd, 's) Host"
    by (simp add: endpoint_action_def assms(2) command_types)
  from assms(1) show ?thesis
  proof (cases rule: answer_cases)
    case (rejected e x1)
    obtain s1 h1 where x1: "x1 = (s1, h1)" by (cases x1)
    have "same_load h h1" using rejected(1) unfolding x1 by (rule same_load_calls(3))
    moreover have "same_load h1 h'" using resp [of h1 CiError s1] by (simp add: rejected(3) [symmetric, unfolded x1])
    ultimately show ?thesis by (simp add: same_load_def)
  next
    case (acted x1 res x2)
    obtain s1 h1 where x1: "x1 = (s1, h1)" by (cases x1)
    have x2: "x2 = (s1, h1)" using acted(2) by (simp add: x1 no)
    have "same_load h h1" using acted(1) unfolding x1 by (rule same_load_calls(3))
    moreover have "same_load h1 h'" unfolding x2 by (metis acted(3) resp snd_conv x2)
    ultimately show ?thesis by (simp add: same_load_def)
  qed
qed

lemma endpoint_command_total:
  assumes "room (ho_engine h)"
  shows "\<exists>r h'. endpoint_command sdk env msg h = Some (r, h')"
proof (cases "endpoint_machine (device_address msg, endpoint_address msg) h")
  case (Some s)
  let ?k = "(device_address msg, endpoint_address msg)"
  let ?act = "\<lambda>(s, h). do { h \<leftarrow> endpoint_action env msg ?k h; Some (Inr (), s, h) }"
  let ?ans = "answer (on_endpoint ?k (sdk_endpoint_inspect sdk msg))
      (\<lambda>s x. answered_own msg s (on_endpoint ?k (sdk_endpoint_respond sdk msg s) x)) ?act (s, h)"
  have "\<exists>r x'. ?ans = Some (r, x')"
  proof (rule answer_total)
    fix x1
    assume i: "on_endpoint ?k (sdk_endpoint_inspect sdk msg) (s, h) = (Inr (), x1)"
    obtain s1 h1 where x1: "x1 = (s1, h1)" by (cases x1)
    have "same_load h h1" using i unfolding x1 by (rule same_load_calls(3))
    then have "room (ho_engine h1)" using assms by (simp add: same_load_def)
    then show "\<exists>y. ?act x1 = Some y" using endpoint_action_total [of h1 env msg ?k] by (auto simp: x1)
  qed
  then obtain r s' h1 where a: "?ans = Some (r, s', h1)" by auto
  have sync: "\<exists>h2. on_engine (sync_endpoint (io_ring (sdk_ring sdk)) ?k) h1 = Some h2"
    if "message_type msg = MT_ENDPOINT_SET_NEXT_TRANSFER"
  proof -
    have "room (ho_engine h1)" using sync_load [OF a that] assms by (simp add: same_load_def)
    from engine_ops_total(4) [OF this, of "io_ring (sdk_ring sdk)" ?k] show ?thesis by (auto simp: on_engine_def)
  qed
  show ?thesis
    unfolding endpoint_command_def Let_def Some option.case a
    using sync by (cases r) (auto split: if_split)
qed (simp add: endpoint_command_def Let_def)

lemma command_total:
  assumes "room (ho_engine h)" "distinct (ho_endpoints h)"
    and "message_type msg = MT_CONTROLLER_FRAME_NUMBER \<Longrightarrow> FrameClock_next (env_ticks env) (ho_clock h) \<noteq> None"
  shows "\<exists>r h'. command sdk env msg h = Some (r, h')"
proof (cases rule: command_kinds [of sdk env msg h])
  case controller
  show ?thesis unfolding controller(1) controller_command_def by (rule answer_total) simp
next
  case frame
  obtain f t c where "FrameClock_next (env_ticks env) (ho_clock h) = Some ((f, t), c)"
    using assms(3) [OF frame(3)] by auto
  then show ?thesis unfolding frame(1) frame_number_command_def by (simp add: answer_total)
next
  case port
  show ?thesis unfolding port(1) using assms(1) by (rule port_command_total)
next
  case create
  show ?thesis unfolding create(1)
    by (auto simp: device_create_def Let_def split: sum.split option.split prod.split)
next
  case device
  show ?thesis unfolding device(1) using assms(1,2) by (rule device_command_total)
next
  case endpoint_create
  obtain en where "add_endpoint key info r (ho_engine h) = Some (en key info r)" for key info r
    using engine_ops_total(1) [OF assms(1)] by metis
  then show ?thesis unfolding endpoint_create(1)
    by (auto simp: endpoint_create_def Let_def on_engine_def note_answer_def split: sum.split prod.split)
next
  case endpoint
  show ?thesis unfolding endpoint(1) using assms(1) by (rule endpoint_command_total)
next
  case other
  show ?thesis unfolding other(1) by simp
qed

section \<open>Destroying a device\<close>

lemma unlink_seqs_keeps:
  "unlink_seqs ts st = Some st' \<Longrightarrow> waiting_on st' = waiting_on st \<and> (closed st' = None) = (closed st = None)"
proof (induction ts arbitrary: st)
  case (Cons t ts)
  then obtain s where s: "unlink t st = Some s" "unlink_seqs ts s = Some st'" by (auto simp: bind_eq_Some_conv)
  from Cons.IH [OF s(2)] sess.unlink_keeps [OF s(1)] show ?case by simp
qed simp

lemma unlink_flights_marks:
  assumes "closed st = None" "unlink_flights fs st = Some st'"
  shows "vals (unlinks st') = vals (unlinks st) \<union> ({fl_seqnum f |f. f \<in> set fs \<and> fl_result f = None} \<inter> keys (submits st))"
    "closed st' = None" "keys (submits st') = keys (submits st)"
proof -
  let ?qs = "map fl_seqnum (filter (\<lambda>f. fl_result f = None) fs)"
  have u: "unlink_seqs ?qs st = Some st'" using assms(2) by (simp add: unlink_flights_seqs)
  have "set ?qs = {fl_seqnum f |f. f \<in> set fs \<and> fl_result f = None}" by auto
  then show "vals (unlinks st') = vals (unlinks st) \<union> ({fl_seqnum f |f. f \<in> set fs \<and> fl_result f = None} \<inter> keys (submits st))"
    using sess.cancel_list_marks [OF assms(1) u [unfolded unlink_seqs_cancel]] by simp
  have "fst ` waiting_on st' = fst ` waiting_on st" "closed st' = None" using unlink_seqs_keeps [OF u] assms(1) by simp_all
  then show "closed st' = None" "keys (submits st') = keys (submits st)" by simp_all
qed

lemma unlink_each_marks:
  assumes "closed (en_session en) = None" "unlink_each eps en = Some en'"
  shows "vals (unlinks (en_session en)) \<subseteq> vals (unlinks (en_session en')) \<and>
    (\<forall>ep\<in>set eps. \<forall>f\<in>set (ep_in_flight ep). fl_result f = None \<longrightarrow> fl_seqnum f \<in> keys (submits (en_session en)) \<longrightarrow>
      fl_seqnum f \<in> vals (unlinks (en_session en')))"
  using assms
proof (induction eps arbitrary: en)
  case (Cons ep eps)
  then obtain st where st: "unlink_flights (ep_in_flight ep) (en_session en) = Some st"
    and r: "unlink_each eps (en\<lparr>en_session := st\<rparr>) = Some en'"
    by (auto simp: unlink_all_def bind_eq_Some_conv)
  note m = unlink_flights_marks [OF Cons.prems(1) st]
  have "closed (en_session (en\<lparr>en_session := st\<rparr>)) = None" using m(2) by simp
  note IH = conjunct1 [OF Cons.IH [OF this r]] conjunct2 [OF Cons.IH [OF this r]]
  have st': "vals (unlinks st) \<subseteq> vals (unlinks (en_session en'))" using IH(1) by simp
  show ?case
  proof (intro conjI ballI impI)
    show "vals (unlinks (en_session en)) \<subseteq> vals (unlinks (en_session en'))" using st' unfolding m(1) by blast
    fix e f
    assume e: "e \<in> set (ep # eps)" "f \<in> set (ep_in_flight e)" "fl_result f = None" "fl_seqnum f \<in> keys (submits (en_session en))"
    show "fl_seqnum f \<in> vals (unlinks (en_session en'))"
    proof (cases "e \<in> set eps")
      case True
      have "fl_seqnum f \<in> keys (submits (en_session (en\<lparr>en_session := st\<rparr>)))" using e(4) m(3) by simp
      with IH(2) True e(2,3) show ?thesis by blast
    next
      case False
      then have "e = ep" using e(1) by simp
      then have "fl_seqnum f \<in> vals (unlinks st)" unfolding m(1) using e(2,3,4) by blast
      then show ?thesis using st' by blast
    qed
  qed
qed simp

lemma remove_device_effect:
  assumes "remove_device d en = Some en'" "wf_amap (en_endpoints en)"
  shows "get_ep en' k = (if fst k = d then None else get_ep en k)"
proof -
  have e: "en_endpoints en' = filter (\<lambda>p. fst (fst p) \<noteq> d) (en_endpoints en)"
    using assms(1) unlink_each_endpoints by (fastforce simp: remove_device_def Let_def)
  have "map_of (filter (\<lambda>p. fst (fst p) \<noteq> d) m) k = (if fst k = d then None else map_of m k)" for m :: "(EndpointKey, 'a Endpoint) amap"
    by (induction m) auto
  then show ?thesis by (simp only: e)
qed

lemma device_destroy_run:
  assumes "command sdk env msg h = Some (Inr (), h')" "message_type msg = MT_DEVICE_DESTROY"
  obtains en where "remove_device (device_address msg) (ho_engine h) = Some en"
    "ho_engine h' = en" "ho_endpoints h' = filter (\<lambda>k. fst k \<noteq> device_address msg) (ho_endpoints h)"
    "device_machine (device_address msg) h' = None" "device_machine (device_address msg) h \<noteq> None"
    "ho_addresses h' = release (ho_addresses h) (device_address msg)"
proof -
  let ?a = "device_address msg"
  let ?act = "\<lambda>(d, h). do { h \<leftarrow> device_action ?a (message_type msg) h; Some (Inr (), d, h) }"
  have c: "device_command sdk msg h = Some (Inr (), h')"
    using assms by (simp add: command_def command_types)
  then obtain d where d: "device_machine ?a h = Some d" by (auto simp: device_command_def Let_def split: option.splits)
  with c obtain d' where a: "answer (on_device ?a (sdk_device_inspect sdk msg))
      (\<lambda>s x. answered_own msg s (on_device ?a (sdk_device_respond sdk msg s) x)) ?act (d, h) = Some (Inr (), d', h')"
    by (auto simp: device_command_def Let_def)
  from a show thesis
  proof (cases rule: answer_cases)
    case (acted x1 res x2)
    obtain d1 h1 where x1: "x1 = (d1, h1)" by (cases x1)
    have h1: "ho_engine h1 = ho_engine h" "ho_addresses h1 = ho_addresses h" "ho_endpoints h1 = ho_endpoints h"
      using acted(1) by (auto simp: x1 on_device_def split: option.splits prod.splits)
    obtain en where en: "remove_device ?a (ho_engine h) = Some en"
      and x2: "x2 = (d1, h1\<lparr>ho_engine := en, ho_endpoints := filter (\<lambda>k. fst k \<noteq> ?a) (ho_endpoints h1),
          ho_devices := AList.delete ?a (ho_devices h1), ho_addresses := release (ho_addresses h1) ?a\<rparr>)"
      using acted(2) h1(1) by (auto simp: x1 device_action_def assms(2) bind_eq_Some_conv on_engine_Some)
    have gone: "device_machine ?a (snd x2) = None" by (simp add: x2 device_machine_def delete_conv')
    have "\<exists>st. h' = note_answer msg st (snd x2)"
      using acted(3) gone by (auto simp: x2 answered_own_def on_device_def split: prod.splits)
    then show thesis using en gone d h1 by (intro that) (auto simp: x2 note_answer_def device_machine_def)
  qed simp
qed

end
