(* ===== verification/Host_Properties.thy ===== *)
theory Host_Properties
  imports Host_System
begin

text \<open>
  The properties of the virtual controller: commands are answered once and return, unknown targets
  change nothing, frames never repeat, the tables agree with the engine, a destroyed device leaves
  nothing behind, port resets and doorbells; each applied to a framework that accepts
  every call.
\<close>

lemma on_controller_engine [simp]: "ho_engine (snd (on_controller f h)) = ho_engine h"
  by (simp add: on_controller_def split: prod.split)

lemma answerable_device:
  "\<lbrakk>MT_DEVICE_DESTROY \<le> message_type msg; message_type msg \<le> MT_DEVICE_UPDATE\<rbrakk> \<Longrightarrow>
     answerable sdk msg h \<longleftrightarrow> device_machine (device_address msg) h \<noteq> None"
  by (auto simp: answerable_def Let_def command_types word_le_nat_alt word_unat_eq_iff)

lemma answerable_endpoint:
  "\<lbrakk>MT_ENDPOINT_DESTROY \<le> message_type msg; message_type msg \<le> MT_ENDPOINT_SET_NEXT_TRANSFER\<rbrakk> \<Longrightarrow>
     answerable sdk msg h \<longleftrightarrow> endpoint_machine (device_address msg, endpoint_address msg) h \<noteq> None"
  by (auto simp: answerable_def Let_def command_types word_le_nat_alt word_unat_eq_iff)

section \<open>Properties\<close>

text \<open>C21. Every command that can be answered is answered, exactly once, and the handler returns: in
  every state with consistent tables and with sequence numbers left, whatever the framework says
  and whichever command it is, one answer is sent, a success whenever the handler
  succeeds. For a frame number the clock must have reached a new frame.\<close>

theorem every_command_answered:
  assumes "(host_step sdk)\<^sup>*\<^sup>* (Host_new c st d clock) h" "env_ok env" "answerable sdk msg h"
    and "card (seqs_used (en_session (ho_engine h))) + flights (ho_engine h) + 1 < 2 ^ 32 - 1"
    and "message_type msg = MT_CONTROLLER_FRAME_NUMBER \<longrightarrow> FrameClock_next (env_ticks env) (ho_clock h) \<noteq> None"
  shows "\<exists>r h' s. command sdk env msg h = Some (r, h') \<and> ho_answers h' = ho_answers h @ [(msg, s)] \<and>
    (r = Inr () \<longrightarrow> s = CiSuccess)"
proof -
  have "distinct (ho_endpoints h)" using host_reachable [OF assms(1)] by (simp add: maps_ok_def)
  then obtain r h' where run: "command sdk env msg h = Some (r, h')"
    using command_total [OF assms(4), of msg env sdk] assms(5) by blast
  from command_answers [OF run assms(2,3)] run show ?thesis by (auto simp: host_goes_def)
qed

text \<open>C30. A command that nothing can answer (an unknown device or endpoint, a state machine the
  framework refuses to create, an unknown port, an unsupported type) changes nothing and
  fails, except that an unsupported type is ignored; an unknown device or endpoint is named in
  the error.\<close>

theorem unanswerable_command_changes_nothing:
  assumes "\<not> answerable sdk msg h"
  shows "\<exists>r. command sdk env msg h = Some (r, h) \<and>
    (MT_DEVICE_DESTROY \<le> message_type msg \<and> message_type msg \<le> MT_DEVICE_UPDATE \<longrightarrow>
       r = Inl (UnknownDevice (device_address msg))) \<and>
    (MT_ENDPOINT_DESTROY \<le> message_type msg \<and> message_type msg \<le> MT_ENDPOINT_SET_NEXT_TRANSFER \<longrightarrow>
       r = Inl (UnknownEndpoint (device_address msg, endpoint_address msg)))"
proof -
  obtain r where r: "command sdk env msg h = Some (r, h)" using command_unanswerable [OF assms] by blast
  have "r = Inl (UnknownDevice (device_address msg))"
    if "MT_DEVICE_DESTROY \<le> message_type msg \<and> message_type msg \<le> MT_DEVICE_UPDATE"
  proof -
    have c: "command sdk env msg h = device_command sdk msg h" using that command_ranges(1) by blast
    show ?thesis
    proof (cases "device_machine (device_address msg) h")
      case None
      then show ?thesis using r unfolding c by (simp add: device_command_def)
    next
      case (Some m)
      then show ?thesis using answerable_device [of msg sdk h] that assms by simp
    qed
  qed
  moreover have "r = Inl (UnknownEndpoint (device_address msg, endpoint_address msg))"
    if "MT_ENDPOINT_DESTROY \<le> message_type msg \<and> message_type msg \<le> MT_ENDPOINT_SET_NEXT_TRANSFER"
  proof -
    have c: "command sdk env msg h = endpoint_command sdk env msg h" using that command_ranges(2) by blast
    show ?thesis
    proof (cases "endpoint_machine (device_address msg, endpoint_address msg) h")
      case None
      then show ?thesis using r unfolding c by (simp add: endpoint_command_def Let_def)
    next
      case (Some m)
      then show ?thesis using answerable_endpoint [of msg sdk h] that assms by simp
    qed
  qed
  ultimately show ?thesis using r by blast
qed

text \<open>C31. The frames reported to the host, as answers or as updates, strictly increase over the whole
  run: no two reports carry the same frame, after which the kernel would shut the
  controller down.\<close>

theorem frames_never_repeat:
  assumes "(host_step sdk)\<^sup>*\<^sup>* (Host_new c st d clock) h"
  shows "sorted_wrt (<) (map fst (ho_frames h))"
  using host_reachable [OF assms] by (simp add: frames_ok_def)

text \<open>C5. In every reachable state the addresses in use are exactly those of the devices, the
  controller and the engine have the same endpoints, and the engine is in a state it reaches by
  its own operations, so what holds of the reachable engine (no URB lost, at most 32 in
  flight) holds of the controller.\<close>

theorem host_refines_engine:
  assumes "(host_step sdk)\<^sup>*\<^sup>* (Host_new c st d clock) h"
  shows "in_use (ho_addresses h) = keys (ho_devices h) \<and>
    set (ho_endpoints h) = keys (en_endpoints (ho_engine h)) \<and>
    (engine_step (io_ring (sdk_ring sdk)))\<^sup>*\<^sup>* (Engine_new st d) (ho_engine h)"
  using host_reachable [OF assms] by (simp add: maps_ok_def)

text \<open>C29. Destroying a device leaves nothing of it: its address is free again, its endpoints are gone
  from the controller and the engine, every URB of theirs still on the server is being
  unlinked, and the endpoints of other devices are as before.\<close>

theorem device_destroy_clears:
  assumes "command sdk env msg h = Some (Inr (), h')" "message_type msg = MT_DEVICE_DESTROY"
    and "engine_inv (ho_engine h)" "closed (en_session (ho_engine h)) = None"
    and "a = device_address msg"
  shows "a \<notin> in_use (ho_addresses h') \<and> device_machine a h' = None \<and>
    (\<forall>k. k \<in> set (ho_endpoints h') \<longleftrightarrow> k \<in> set (ho_endpoints h) \<and> fst k \<noteq> a) \<and>
    (\<forall>k. get_ep (ho_engine h') k = (if fst k = a then None else get_ep (ho_engine h) k)) \<and>
    (\<forall>k ep f. get_ep (ho_engine h) k = Some ep \<and> fst k = a \<and> f \<in> set (ep_in_flight ep) \<and> fl_result f = None \<and>
       fl_seqnum f \<in> keys (submits (en_session (ho_engine h))) \<longrightarrow>
       fl_seqnum f \<in> vals (unlinks (en_session (ho_engine h'))))"
proof -
  obtain en where en: "remove_device a (ho_engine h) = Some en"
    "ho_engine h' = en" "ho_endpoints h' = filter (\<lambda>k. fst k \<noteq> a) (ho_endpoints h)"
    "device_machine a h' = None" "ho_addresses h' = release (ho_addresses h) a"
    using device_destroy_run [OF assms(1,2)] assms(5) by metis
  let ?rem = "map snd (filter (\<lambda>p. fst (fst p) = a) (en_endpoints (ho_engine h)))"
  have each: "unlink_each ?rem ((ho_engine h)\<lparr>en_endpoints := filter (\<lambda>p. fst (fst p) \<noteq> a) (en_endpoints (ho_engine h))\<rparr>) = Some en"
    using en(1) by (simp add: remove_device_def Let_def)
  have marks: "fl_seqnum f \<in> vals (unlinks (en_session en))"
    if "get_ep (ho_engine h) k = Some ep" "fst k = a" "f \<in> set (ep_in_flight ep)" "fl_result f = None"
      "fl_seqnum f \<in> keys (submits (en_session (ho_engine h)))" for k ep f
  proof -
    have "(k, ep) \<in> set (en_endpoints (ho_engine h))" using that(1) by (rule map_of_SomeD)
    then have "ep \<in> set ?rem" using that(2) by force
    moreover have "closed (en_session ((ho_engine h)\<lparr>en_endpoints :=
        filter (\<lambda>p. fst (fst p) \<noteq> a) (en_endpoints (ho_engine h))\<rparr>)) = None" using assms(4) by simp
    note conjunct2 [OF unlink_each_marks [OF this each]]
    moreover have "fl_seqnum f \<in> keys (submits (en_session ((ho_engine h)\<lparr>en_endpoints :=
        filter (\<lambda>p. fst (fst p) \<noteq> a) (en_endpoints (ho_engine h))\<rparr>)))" using that(5) by simp
    ultimately show ?thesis using that(3,4) by blast
  qed
  have eps: "get_ep en k = (if fst k = a then None else get_ep (ho_engine h) k)" for k
    using remove_device_effect [OF en(1) engine_invD(1) [OF assms(3)]] .
  show ?thesis
    unfolding en(2) en(3) en(5) using en(4) marks eps by (intro conjI allI impI) (simp_all, blast+)
qed

text \<open>
  Resetting the port resets the device on the server only once macOS has created a device; the
  first reset, which is part of connecting, sends nothing.
\<close>

lemma port_reset_before_enumeration:
  assumes "port_reset sdk env port h = Some (r, h')"
  shows "if ho_enumerated h
    then \<exists>res st. submit reset_request (en_session (ho_engine h)) = Some (res, st) \<and>
      en_session (ho_engine h') = (case res of Inl _ \<Rightarrow> st | Inr (q, ch) \<Rightarrow> snd (env_await env ch st))
    else ho_engine h' = ho_engine h"
proof -
  show ?thesis
  proof (cases "ho_enumerated h")
    case True
    then obtain res en where rd: "reset_device (env_await env) (ho_engine h) = Some (res, en)"
      and h': "h' = snd (on_controller (sdk_port_link_up sdk port (ho_speed h)) (h\<lparr>ho_engine := en\<rparr>))"
    proof -
      from True assms obtain en where m: "map_option snd (reset_device (env_await env) (ho_engine h)) = Some en"
        and k: "(case on_controller (sdk_port_link_up sdk port (ho_speed h)) (h\<lparr>ho_engine := en\<rparr>) of
          (Inl e, h) \<Rightarrow> Some (Inl (SdkError e), h) | (Inr _, h) \<Rightarrow> Some (Inr (), h)) = Some (r, h')"
        by (auto simp: port_reset_def on_engine_def bind_eq_Some_conv)
      have "h' = snd (on_controller (sdk_port_link_up sdk port (ho_speed h)) (h\<lparr>ho_engine := en\<rparr>))"
        using k by (auto split: prod.splits sum.splits)
      with m show thesis using that by auto
    qed
    obtain r1 st where sub: "submit reset_request (en_session (ho_engine h)) = Some (r1, st)"
      and k: "(case r1 of Inl e \<Rightarrow> Some (Inl e, (ho_engine h)\<lparr>en_session := st\<rparr>)
        | Inr (q, ch) \<Rightarrow> let (a, st) = env_await env ch st
            in Some (reset_outcome a, (ho_engine h)\<lparr>en_session := st\<rparr>)) = Some (res, en)"
      using rd by (auto simp: reset_device_def bind_eq_Some_conv)
    have "en_session en = (case r1 of Inl _ \<Rightarrow> st | Inr (q, ch) \<Rightarrow> snd (env_await env ch st))"
      using k by (auto simp: Let_def split: sum.splits prod.splits)
    then show ?thesis using sub True by (simp add: h')
  next
    case False
    then have "h' = snd (on_controller (sdk_port_link_up sdk port (ho_speed h)) h)"
      using assms by (auto simp: port_reset_def split: prod.splits sum.splits)
    then show ?thesis using False by simp
  qed
qed

text \<open>A doorbell returns when the framework takes a completed message off the ring (a count of the
  messages left, kept by its state machine, shrinks with every completion it accepts) and there
  are sequence numbers left.\<close>

theorem host_doorbell_returns:
  assumes "\<And>s mem ptr status len s' mem'. sdk_enqueue (sdk_ring sdk) s mem ptr status len = (Inr (), s', mem') \<Longrightarrow>
      queued s' < (queued s :: nat)"
    and "card (seqs_used (en_session (ho_engine h))) + flights (ho_engine h) + 33 < 2 ^ 32 - 1"
  shows "\<exists>h'. host_doorbell sdk bell h = Some h'"
proof -
  let ?ring = "io_ring (sdk_ring sdk)"
  have "transfer_ring ?ring (\<lambda>r. queued (io_machine r))"
    using assms(1)
    by unfold_locales (fastforce simp: io_complete_def Let_def split: prod.splits sum.splits)
  note pump = transfer_ring.pump_terminates [OF this]
  have bell: "\<exists>en. doorbell ?ring key (ho_engine (put_machine key s h)) = Some en" for key s
  proof (cases "get_ep (ho_engine (put_machine key s h)) key")
    case None
    then have "pump_round ?ring key False (ho_engine (put_machine key s h)) = Some (None, ho_engine (put_machine key s h))"
      by (simp add: pump_round_def)
    then show ?thesis unfolding doorbell_def by (subst pump.simps) simp
  next
    case (Some ep)
    have "length (ep_in_flight ep) \<le> flights (ho_engine h)"
      using in_flight_count_le [of key "ho_engine (put_machine key s h)"] Some by (simp add: in_flight_count_def)
    then show ?thesis unfolding doorbell_def using assms(2) by (intro pump [OF Some]) simp
  qed
  have on: "\<exists>h'. on_engine (doorbell ?ring key) (put_machine key s h) = Some h'" for key s
    using bell [of key s] by (auto simp: on_engine_def)
  show ?thesis
    unfolding host_doorbell_def decode_doorbell_def Let_def prod.case
    using on by (auto split: option.split prod.split sum.split simp del: split_paired_All)
qed

text \<open>
  What the controller announces: with the framework's masks those of \<open>hci.rs\<close> (as the tests of
  \<open>host.rs\<close> check) both messages are valid and ask for no response, and types and fields do not
  reach into each other.
\<close>

lemma capabilities_announced:
  assumes "bits_no_response b = CONTROL_NO_RESPONSE" "bits_valid b = CONTROL_VALID"
  shows "length (capabilities b) = 2" "m \<in> set (capabilities b) \<Longrightarrow> is_valid m \<and> \<not> needs_response m"
proof -
  show "length (capabilities b) = 2" by (simp add: capabilities_def)
  have b: "bit (control m) 14" "bit (control m) 15" if "m \<in> set (capabilities b)"
    using that by (auto simp: capabilities_def assms control_masks bit_simps)
  have e: "x AND push_bit n 1 \<noteq> 0" if "bit x n" "n < 32" for x :: u32 and n
  proof
    assume "x AND push_bit n 1 = 0"
    then have "\<not> bit (x AND push_bit n 1) n" by simp
    then show False using that by (simp add: bit_simps)
  qed
  show "m \<in> set (capabilities b) \<Longrightarrow> is_valid m \<and> \<not> needs_response m"
    using e [OF b(1)] e [OF b(2)] by (simp add: is_valid_def needs_response_def control_masks del: push_bit_of_1)
qed

section \<open>Witnesses\<close>

text \<open>A framework that accepts everything; its endpoint machines are those of the sample ring.\<close>

definition sample_sdk :: "(unit, unit, unit, nat \<times> u64) Sdk" where
  "sample_sdk = \<lparr>sdk_ring = sample_ring_sdk, sdk_controller_active = (\<lambda>c. True),
     sdk_controller_inspect = (\<lambda>m c. (Inr (), c)), sdk_controller_respond = (\<lambda>m s c. (Inr (), c)),
     sdk_controller_respond_frame = (\<lambda>m s f t c. (Inr (), c)), sdk_controller_frame = (\<lambda>f t c. (Inr (), c)),
     sdk_port_for = (\<lambda>m c. Inr ()), sdk_port_inspect = (\<lambda>p m c. (Inr (), c)),
     sdk_port_respond = (\<lambda>p m s c. (Inr (), c)), sdk_root_port = (\<lambda>c. Inr ()),
     sdk_port_connect = (\<lambda>p b c. c), sdk_destroy = (\<lambda>c. c), sdk_port_link_up = (\<lambda>p s c. (Inr (), c)),
     sdk_device_init = (\<lambda>m c. Inr ()), sdk_device_inspect = (\<lambda>m d. (Inr (), d)),
     sdk_device_respond = (\<lambda>m s d. (Inr (), d)), sdk_device_respond_address = (\<lambda>m s a d. (Inr (), d)),
     sdk_endpoint_init = (\<lambda>m c. Inr (1, 0x100)), sdk_endpoint_inspect = (\<lambda>m s. (Inr (), s)),
     sdk_endpoint_respond = (\<lambda>m st s. (Inr (), s)), sdk_endpoint_key = (\<lambda>s. (1, 0x02)),
     sdk_process_doorbell = (\<lambda>b s. (Inr (), s))\<rparr>"

definition sample_env :: Env where
  "sample_env = \<lparr>env_ticks = sample_ticks, env_memory = sample_memory, env_await = (\<lambda>ch st. (None, st))\<rparr>"

definition sample_host :: "(unit, unit, nat \<times> u64) Host" where
  "sample_host = Host_new () (Session_start sample_device) sample_device sample_clock"

definition sample_command :: "u32 \<Rightarrow> RawMessage" where
  "sample_command t = \<lparr>control = t, data0 = 1, data1 = 0\<rparr>"

lemma sample_env_ok: "env_ok sample_env"
  by (simp add: env_ok_def sample_env_def)

lemma sample_reachable_host: "(host_step sample_sdk)\<^sup>*\<^sup>*
    (Host_new () (Session_start sample_device) sample_device sample_clock) sample_host"
  by (simp add: sample_host_def)

lemma sample_host_room:
  "card (seqs_used (en_session (ho_engine sample_host))) + flights (ho_engine sample_host) = 0"
  by (simp add: sample_host_def Host_new_def Engine_new_def Session_start_def flights_def)

lemma sample_types:
  "message_type (sample_command t) = t AND 0x3f" "device_address (sample_command t) = 1"
  by (simp_all add: sample_command_def message_type_def control_masks device_address_def)

theorem every_command_answered_witness:
  "\<exists>r h' s. command sample_sdk sample_env (sample_command MT_PORT_POWER_ON) sample_host = Some (r, h') \<and>
     ho_answers h' = [(sample_command MT_PORT_POWER_ON, s)]"
proof -
  have "answerable sample_sdk (sample_command MT_PORT_POWER_ON) sample_host"
    by (simp add: answerable_def Let_def sample_types command_types sample_sdk_def)
  from every_command_answered [OF sample_reachable_host sample_env_ok this] show ?thesis
    using sample_host_room by (fastforce simp: sample_types command_types sample_host_def Host_new_def)
qed

theorem unanswerable_command_changes_nothing_witness:
  "command sample_sdk sample_env (sample_command MT_DEVICE_DESTROY) sample_host =
     Some (Inl (UnknownDevice 1), sample_host)"
proof -
  have "\<not> answerable sample_sdk (sample_command MT_DEVICE_DESTROY) sample_host"
    by (subst answerable_device) (simp_all add: sample_types command_types device_machine_def sample_host_def Host_new_def)
  from unanswerable_command_changes_nothing [OF this, of sample_env] show ?thesis
    by (auto simp: sample_types command_types)
qed

lemma sample_frame: "\<exists>h. frame_update sample_sdk sample_ticks sample_host = Some h \<and> ho_frames h = [(2, 49000)]"
  by (simp add: frame_update_def sample_sdk_def sample_host_def Host_new_def sample_next on_controller_def)

theorem frames_never_repeat_witness:
  "\<exists>h. host_step sample_sdk sample_host h \<and> map fst (ho_frames h) = [2] \<and> sorted_wrt (<) (map fst (ho_frames h))"
proof -
  obtain h where h: "frame_update sample_sdk sample_ticks sample_host = Some h" "ho_frames h = [(2, 49000)]"
    using sample_frame by blast
  then have st: "host_step sample_sdk sample_host h" by (intro host_step.ticked)
  from frames_never_repeat [OF rtranclp.rtrancl_into_rtrancl [OF sample_reachable_host this]] st h(2)
  show ?thesis by (intro exI [of _ h]) simp
qed

definition sample_attached :: "(unit, unit, nat \<times> u64) Host" where
  "sample_attached = snd (the (command sample_sdk sample_env (sample_command MT_DEVICE_CREATE) sample_host))"

lemma sample_allocate: "allocate AddressPool_default = Some (1, \<lparr>used = 2\<rparr>)"
  by (simp add: allocate_def AddressPool_default_def upt_rec)

lemma sample_attach:
  "command sample_sdk sample_env (sample_command MT_DEVICE_CREATE) sample_host = Some (Inr (), sample_attached)"
  "ho_devices sample_attached = [(1, ())]" "ho_engine sample_attached = ho_engine sample_host"
  "ho_endpoints sample_attached = []"
  by (simp_all add: sample_attached_def command_def Let_def sample_types command_types device_create_def
      sample_sdk_def sample_host_def Host_new_def sample_allocate note_answer_def)

lemma sample_attached_reachable: "(host_step sample_sdk)\<^sup>*\<^sup>*
    (Host_new () (Session_start sample_device) sample_device sample_clock) sample_attached"
  by (rule rtranclp.rtrancl_into_rtrancl [OF sample_reachable_host])
    (rule host_step.handled [OF sample_attach(1) sample_env_ok])

theorem host_refines_engine_witness: "in_use (ho_addresses sample_attached) = {1}"
  using host_refines_engine [OF sample_attached_reachable] by (simp add: sample_attach)

theorem device_destroy_clears_witness:
  "\<exists>h'. command sample_sdk sample_env (sample_command MT_DEVICE_DESTROY) sample_attached = Some (Inr (), h') \<and>
     1 \<notin> in_use (ho_addresses h') \<and> device_machine 1 h' = None"
proof -
  obtain h' where run: "command sample_sdk sample_env (sample_command MT_DEVICE_DESTROY) sample_attached = Some (Inr (), h')"
    by (simp add: command_def Let_def sample_types command_types device_command_def device_machine_def
        sample_attach answer_def on_device_def device_action_def on_engine_def remove_device_def sample_sdk_def
        answered_own_def sample_host_def Host_new_def Engine_new_def)
  have ty: "message_type (sample_command MT_DEVICE_DESTROY) = MT_DEVICE_DESTROY" by (simp add: sample_types command_types)
  have inv: "engine_inv (ho_engine sample_attached)"
    by (simp add: sample_attach sample_host_def Host_new_def engine_inv_new session_inv_start)
  have op: "closed (en_session (ho_engine sample_attached)) = None"
    by (simp add: sample_attach sample_host_def Host_new_def Engine_new_def Session_start_def)
  from device_destroy_clears [OF run ty inv op, of 1] run show ?thesis by (simp add: sample_types)
qed

theorem host_doorbell_returns_witness: "\<exists>h'. host_doorbell sample_sdk 0x0201 sample_host = Some h'"
  by (rule host_doorbell_returns [where queued = fst])
    (use sample_host_room in \<open>auto simp: sample_sdk_def sample_ring_sdk_def split: if_splits\<close>)

end
