(* ===== verification/Cli.thy ===== *)
theory Cli
  imports Client
begin

text \<open>
  The command line, \<open>src/src/cli.rs\<close>: what it accepts, how the parsed arguments become an address
  and an action, and the selectors for an exported device. The argument parser is a library: its
  result is a record of the values it found, constrained by what the command declares. A value
  that is read with \<open>expect\<close> and missing is a panic, which is nothing here.
\<close>

section \<open>Selectors\<close>

datatype Selector = BusId rstring | DevNum u32 | Ids u16 u16

definition Selector_matches :: "Selector \<Rightarrow> ExportedDevice \<Rightarrow> bool" where
  "Selector_matches s device =
     (case s of
        BusId b \<Rightarrow> busid device = b
      | DevNum n \<Rightarrow> devnum device = n
      | Ids vendor product \<Rightarrow> id_vendor device = vendor \<and> id_product device = product)"

definition Selector_find :: "Selector \<Rightarrow> ExportedDevice list \<Rightarrow> ExportedDevice option" where
  "Selector_find s devices = find (Selector_matches s) devices"

section \<open>Arguments\<close>

datatype Action = ListDevices | Attach Selector bool

record Args =
  ar_address :: rstring
  ar_action :: Action

record AttachMatches =
  am_busid :: "rstring option"
  am_device :: "u32 option"
  am_vendor_id :: "u16 option"
  am_product_id :: "u16 option"
  am_wait_for_enter :: bool

record ArgMatches =
  am_remote :: "rstring option"
  am_tcp_port :: "u16 option"
  am_subcommand :: "(string \<times> AttachMatches) option"

text \<open>
  What \<open>command\<close> declares: the remote is required, the port has a default, a subcommand is
  required; of the selectors exactly one is given, and a vendor and a product id only together.
\<close>

definition declared :: "ArgMatches \<Rightarrow> bool" where
  "declared m \<longleftrightarrow> am_remote m \<noteq> None \<and> am_tcp_port m \<noteq> None \<and>
     (case am_subcommand m of
        None \<Rightarrow> False
      | Some (name, a) \<Rightarrow> name = ''list'' \<or> name = ''attach'' \<and>
          length (filter id [am_busid a \<noteq> None, am_device a \<noteq> None, am_vendor_id a \<noteq> None]) = 1 \<and>
          (am_vendor_id a \<noteq> None \<longleftrightarrow> am_product_id a \<noteq> None))"

fun decimal :: "nat \<Rightarrow> rstring" where
  "decimal n = (if n < 10 then [0x30 + of_nat n] else decimal (n div 10) @ [0x30 + of_nat (n mod 10)])"

declare decimal.simps [simp del]

definition address_of :: "rstring \<Rightarrow> u16 \<Rightarrow> rstring" where
  "address_of host port =
     (if 0x3a \<in> set host \<and> \<not> (host \<noteq> [] \<and> hd host = 0x5b)
      then [0x5b] @ host @ [0x5d, 0x3a] @ decimal (unat port)
      else host @ [0x3a] @ decimal (unat port))"

definition selector_of :: "AttachMatches \<Rightarrow> Selector option" where
  "selector_of m =
     (case am_busid m of
        Some b \<Rightarrow> Some (BusId b)
      | None \<Rightarrow>
          (case am_device m of
             Some n \<Rightarrow> Some (DevNum n)
           | None \<Rightarrow> do { vendor \<leftarrow> am_vendor_id m; product \<leftarrow> am_product_id m; Some (Ids vendor product) }))"

definition parse :: "ArgMatches \<Rightarrow> Args option" where
  "parse m = do {
     host \<leftarrow> am_remote m;
     port \<leftarrow> am_tcp_port m;
     action \<leftarrow> (case am_subcommand m of
         Some (name, a) \<Rightarrow>
           if name = ''attach'' then do { s \<leftarrow> selector_of a; Some (Attach s (am_wait_for_enter a)) }
           else Some ListDevices
       | None \<Rightarrow> Some ListDevices);
     Some \<lparr>ar_address = address_of host port, ar_action = action\<rparr>
   }"

section \<open>Decimal numbers\<close>

definition digit_value :: "u8 \<Rightarrow> nat" where
  "digit_value d = unat (d - 0x30)"

definition from_decimal :: "rstring \<Rightarrow> nat" where
  "from_decimal ds = foldl (\<lambda>acc d. acc * 10 + digit_value d) 0 ds"

lemma digit_value_digit: "n < 10 \<Longrightarrow> digit_value (0x30 + of_nat n) = n"
  by (simp add: digit_value_def unat_of_nat)

lemma from_decimal_decimal: "from_decimal (decimal n) = n"
proof (induction n rule: decimal.induct)
  case (1 n)
  show ?case
  proof (cases "n < 10")
    case True
    then show ?thesis by (simp add: decimal.simps [of n] from_decimal_def digit_value_digit)
  next
    case False
    have "from_decimal (decimal n) = from_decimal (decimal (n div 10)) * 10 + n mod 10"
      using False by (simp add: decimal.simps [of n] from_decimal_def digit_value_digit)
    then show ?thesis using 1 False by simp
  qed
qed

lemma decimal_digits: "d \<in> set (decimal n) \<Longrightarrow> 0x30 \<le> d \<and> d \<le> 0x39"
proof (induction n rule: decimal.induct)
  case (1 n)
  have dig: "0x30 \<le> (0x30 + of_nat k :: u8) \<and> (0x30 + of_nat k :: u8) \<le> 0x39" if "k < 10" for k :: nat
  proof -
    have "unat (0x30 + of_nat k :: u8) = 0x30 + k" using that by (simp add: unat_word_ariths unat_of_nat)
    then show ?thesis using that by (simp add: word_le_nat_alt)
  qed
  show ?case
  proof (cases "n < 10")
    case True
    then show ?thesis using 1 dig by (simp add: decimal.simps [of n])
  next
    case False
    then show ?thesis using 1 dig [of "n mod 10"] by (auto simp: decimal.simps [of n])
  qed
qed

lemma decimal_no_colon: "0x3a \<notin> set (decimal n)"
  using decimal_digits [of "0x3a" n] by auto

section \<open>Properties\<close>

text \<open>Arguments that the command accepts never make the parser panic, and become the action that was
  asked for: the one selector that was given, or a listing.\<close>

theorem parse_accepts_declared:
  assumes "declared m"
  shows "\<exists>host port args. am_remote m = Some host \<and> am_tcp_port m = Some port \<and> parse m = Some args \<and>
    ar_address args = address_of host port \<and>
    (case am_subcommand m of Some (name, a) \<Rightarrow>
       if name = ''attach'' then \<exists>s. ar_action args = Attach s (am_wait_for_enter a) \<and>
         (\<forall>b. s = BusId b \<longleftrightarrow> am_busid a = Some b) \<and> (\<forall>n. s = DevNum n \<longleftrightarrow> am_device a = Some n) \<and>
         (\<forall>v p. s = Ids v p \<longleftrightarrow> am_vendor_id a = Some v \<and> am_product_id a = Some p)
       else ar_action args = ListDevices)"
proof -
  obtain host port name a where m: "am_remote m = Some host" "am_tcp_port m = Some port" "am_subcommand m = Some (name, a)"
    using assms by (auto simp: declared_def split: option.splits)
  show ?thesis
  proof (cases "name = ''attach''")
    case False
    then show ?thesis using m by (simp add: parse_def)
  next
    case True
    have "\<exists>s. selector_of a = Some s \<and> (\<forall>b. s = BusId b \<longleftrightarrow> am_busid a = Some b) \<and>
        (\<forall>n. s = DevNum n \<longleftrightarrow> am_device a = Some n) \<and>
        (\<forall>v p. s = Ids v p \<longleftrightarrow> am_vendor_id a = Some v \<and> am_product_id a = Some p)"
      using assms m True
      by (cases "am_busid a"; cases "am_device a"; cases "am_vendor_id a"; cases "am_product_id a")
        (simp_all add: declared_def selector_of_def)
    then obtain s where "selector_of a = Some s" "\<forall>b. s = BusId b \<longleftrightarrow> am_busid a = Some b"
      "\<forall>n. s = DevNum n \<longleftrightarrow> am_device a = Some n"
      "\<forall>v p. s = Ids v p \<longleftrightarrow> am_vendor_id a = Some v \<and> am_product_id a = Some p" by blast
    then show ?thesis using m True by (simp add: parse_def)
  qed
qed

theorem parse_accepts_declared_witness:
  "parse \<lparr>am_remote = Some [0x68], am_tcp_port = Some 3240, am_subcommand = Some (''attach'',
     \<lparr>am_busid = None, am_device = Some 4, am_vendor_id = None, am_product_id = None, am_wait_for_enter = False\<rparr>)\<rparr> =
   Some \<lparr>ar_address = [0x68, 0x3a, 0x33, 0x32, 0x34, 0x30], ar_action = Attach (DevNum 4) False\<rparr>"
  using parse_accepts_declared [of "\<lparr>am_remote = Some [0x68], am_tcp_port = Some 3240, am_subcommand = Some (''attach'',
     \<lparr>am_busid = None, am_device = Some 4, am_vendor_id = None, am_product_id = None, am_wait_for_enter = False\<rparr>)\<rparr>"]
  by (auto simp: declared_def address_of_def decimal.simps)

text \<open>The address is unambiguous: what follows its last colon is the port, and what precedes it is the
  host, in brackets if the host contains a colon (an IPv6 address) and has none yet.\<close>

theorem address_roundtrip:
  "from_decimal (rev (takeWhile (\<lambda>c. c \<noteq> 0x3a) (rev (address_of host port)))) = unat port \<and>
   (let before = rev (tl (dropWhile (\<lambda>c. c \<noteq> 0x3a) (rev (address_of host port)))) in
    before = (if 0x3a \<in> set host \<and> take 1 host \<noteq> [0x5b] then [0x5b] @ host @ [0x5d] else host) \<and>
    (0x3a \<in> set before \<longrightarrow> hd before = 0x5b))"
proof -
  have p: "takeWhile (\<lambda>c. c \<noteq> 0x3a) (rev (x @ [0x3a] @ decimal n)) = rev (decimal n)"
    "dropWhile (\<lambda>c. c \<noteq> 0x3a) (rev (x @ [0x3a] @ decimal n)) = 0x3a # rev x" for x :: rstring and n
    using decimal_no_colon [of n] by (auto simp: takeWhile_append2 takeWhile_append dropWhile_append2 dropWhile_append)
  define before where "before = (if 0x3a \<in> set host \<and> take 1 host \<noteq> [0x5b] then [0x5b] @ host @ [0x5d] else host)"
  have "take 1 host \<noteq> [0x5b] \<longleftrightarrow> \<not> (host \<noteq> [] \<and> hd host = 0x5b)" by (cases host) auto
  then have a: "address_of host port = before @ [0x3a] @ decimal (unat port)"
    by (simp add: address_of_def before_def)
  have "0x3a \<in> set before \<longrightarrow> hd before = 0x5b" unfolding before_def by (cases host) auto
  then show ?thesis
    unfolding a p Let_def list.sel rev_rev_ident from_decimal_decimal before_def [symmetric] by (intro conjI refl)
qed

text \<open>The IPv6 address \<open>::1\<close> and port 3240.\<close>

theorem address_roundtrip_witness:
  "from_decimal (rev (takeWhile (\<lambda>c. c \<noteq> 0x3a) (rev (address_of [0x3a, 0x3a, 0x31] 3240)))) = 3240 \<and>
   rev (tl (dropWhile (\<lambda>c. c \<noteq> 0x3a) (rev (address_of [0x3a, 0x3a, 0x31] 3240)))) = [0x5b, 0x3a, 0x3a, 0x31, 0x5d]"
  using address_roundtrip [of "[0x3a, 0x3a, 0x31]" 3240] by (simp add: Let_def)

end
