(* ===== verification/App.thy ===== *)
theory App
  imports Host_Properties Cli
begin

text \<open>
  The program itself, \<open>src/src/main.rs\<close>: listing the devices of a server, importing the selected
  one, and attaching it until a signal or the loss of the connection. Connections, the framework's
  controller, the prompt and what ends the run are arguments; the run in between is a
  function on the controller's state, constrained to its steps. Writing to the standard output does not
  fail (the code panics or, at the prompt, gives up when it does).
\<close>

section \<open>Listing\<close>

datatype AppError = ConnectFailed string | ProtocolFailed ProtocolError | NoMatch Selector
  | ControllerFailed string | PromptFailed string | SignalFailed string | ConnectionLost close_reason
  | OnlyOnMacos

definition ascii :: "string \<Rightarrow> rstring" where
  "ascii s = map of_char s"

definition hex_digit :: "nat \<Rightarrow> u8" where
  "hex_digit n = (if n < 10 then 0x30 + of_nat n else 0x61 + of_nat (n - 10))"

fun hex :: "nat \<Rightarrow> rstring" where
  "hex n = (if n < 16 then [hex_digit n] else hex (n div 16) @ [hex_digit (n mod 16)])"

declare hex.simps [simp del]

definition padded :: "nat \<Rightarrow> rstring \<Rightarrow> rstring" where
  "padded width s = replicate (width - length s) 0x30 @ s"

definition speed_name :: "Speed \<Rightarrow> string" where
  "speed_name s =
     (case s of SpUnknown \<Rightarrow> ''Unknown'' | SpLow \<Rightarrow> ''Low'' | SpFull \<Rightarrow> ''Full'' | SpHigh \<Rightarrow> ''High''
      | SpWireless \<Rightarrow> ''Wireless'' | SpSuper \<Rightarrow> ''Super'' | SpSuperPlus \<Rightarrow> ''SuperPlus'')"

definition device_lines :: "ExportedDevice \<Rightarrow> rstring list" where
  "device_lines d =
     (busid d @ ascii '': '' @ padded 4 (hex (unat (id_vendor d))) @ ascii '':''
      @ padded 4 (hex (unat (id_product d))) @ ascii '' (bus '' @ decimal (unat (busnum d)) @ ascii '' dev ''
      @ decimal (unat (devnum d)) @ ascii '', '' @ ascii (speed_name (speed d)) @ ascii '' speed) '' @ path d)
     # map (\<lambda>(i, iface). ascii ''    '' @ decimal i @ ascii '': class '' @ padded 2 (hex (unat (if_class iface)))
           @ ascii '' subclass '' @ padded 2 (hex (unat (if_subclass iface)))
           @ ascii '' protocol '' @ padded 2 (hex (unat (if_protocol iface))))
         (zip [0..<length (interfaces d)] (interfaces d))"

definition list_command :: "string + rstream \<Rightarrow> bytes \<times> (AppError + rstring list)" where
  "list_command conn =
     (case conn of
        Inl e \<Rightarrow> ([], Inl (ConnectFailed e))
      | Inr r \<Rightarrow>
          (case list_devices r of
             (sent, Inl e) \<Rightarrow> (sent, Inl (ProtocolFailed e))
           | (sent, Inr (devices, _)) \<Rightarrow> (sent, Inr (concat (map device_lines devices)))))"

section \<open>Importing\<close>

text \<open>The connections in the order they are made, and what is sent on each.\<close>

definition import_session ::
  "(nat \<Rightarrow> string + rstream) \<Rightarrow> Selector \<Rightarrow> bytes list \<times> (AppError + Shared \<times> ExportedDevice)" where
  "import_session connect selector =
     (case connect 0 of
        Inl e \<Rightarrow> ([], Inl (ConnectFailed e))
      | Inr r \<Rightarrow>
          (case list_devices r of
             (sent, Inl e) \<Rightarrow> ([sent], Inl (ProtocolFailed e))
           | (sent, Inr (devices, _)) \<Rightarrow>
               (case Selector_find selector devices of
                  None \<Rightarrow> ([sent], Inl (NoMatch selector))
                | Some device \<Rightarrow>
                    (case connect 1 of
                       Inl e \<Rightarrow> ([sent], Inl (ConnectFailed e))
                     | Inr r \<Rightarrow>
                         (case import_device r (busid device) of
                            (req, Inl e) \<Rightarrow> ([sent, req], Inl (ProtocolFailed e))
                          | (req, Inr (sd, _)) \<Rightarrow> ([sent, req], Inr sd))))))"

section \<open>Attaching\<close>

datatype AttachEnd = Signalled | SessionEnded

text \<open>
  What surrounds an attachment: the connections, the framework's controller, the clock, the run until
  the port is powered, the prompt, the run until something ends it, and what the session does
  while the program waits for cancelled transfers.
\<close>

record ('c, 'd, 's) AttachEnv =
  ae_connect :: "nat \<Rightarrow> string + rstream"
  ae_init :: "RawMessage list \<Rightarrow> string option + 'c"
  ae_bits :: SdkBits
  ae_clock :: FrameClock
  ae_powered :: "('c, 'd, 's) Host \<Rightarrow> ('c, 'd, 's) Host"
  ae_prompt :: "string + unit"
  ae_run :: "('c, 'd, 's) Host \<Rightarrow> ('c, 'd, 's) Host"
  ae_end :: "string + AttachEnd"
  ae_drain :: "('c, 'd, 's) Host \<Rightarrow> ('c, 'd, 's) Host"

abbreviation host_session :: "('c, 'd, 's) Host \<Rightarrow> Shared" where
  "host_session h \<equiv> en_session (ho_engine h)"

definition with_session :: "Shared \<Rightarrow> ('c, 'd, 's) Host \<Rightarrow> ('c, 'd, 's) Host" where
  "with_session st h = h\<lparr>ho_engine := (ho_engine h)\<lparr>en_session := st\<rparr>\<rparr>"

definition detach ::
  "('c, 'p, 'd, 's) Sdk \<Rightarrow> (('c, 'd, 's) Host \<Rightarrow> ('c, 'd, 's) Host) \<Rightarrow> ('c, 'd, 's) Host \<Rightarrow>
    (bool list \<times> ('c, 'd, 's) Host) option" where
  "detach sdk drain h = do {
     let (told, h) = set_connected sdk False h;
     st \<leftarrow> Session_unlink_all (host_session h);
     let h = with_session st h;
     let h = (if 0 < pending st \<and> \<not> is_closed st then drain h else h);
     let h = Controller_drop sdk h;
     Some (told, with_session (Session_close (host_session h)) h)
   }"

text \<open>What the wait for a signal or the end of the session returns; without either it does not return.\<close>

definition attach_outcome :: "string + AttachEnd \<Rightarrow> Shared \<Rightarrow> (AppError + unit) option" where
  "attach_outcome e st =
     (case e of
        Inl e \<Rightarrow> Some (Inl (SignalFailed e))
      | Inr Signalled \<Rightarrow> Some (Inr ())
      | Inr SessionEnded \<Rightarrow> map_option (\<lambda>reason. Inl (ConnectionLost reason)) (Session_closed st))"

text \<open>What attaching shows to the outside, in order: text on the standard output, and what the port is told.\<close>

datatype AttachEvent = Printed rstring | PortTold bool

definition enter_prompt :: rstring where
  "enter_prompt = ascii ''Press Enter to connect the device...''"

text \<open>The result, these events, and the controller at the end.\<close>

definition attach ::
  "('c, 'p, 'd, 's) Sdk \<Rightarrow> ('c, 'd, 's) AttachEnv \<Rightarrow> Selector \<Rightarrow> bool \<Rightarrow>
    ((AppError + unit) \<times> AttachEvent list \<times> ('c, 'd, 's) Host option) option" where
  "attach sdk env selector wait_for_enter =
     (case snd (import_session (ae_connect env) selector) of
        Inl e \<Rightarrow> Some (Inl e, [], None)
      | Inr (session, device) \<Rightarrow>
          (case Controller_new (ae_init env) (ae_bits env) session device (ae_clock env) of
             Inl e \<Rightarrow> Some (Inl (ControllerFailed e), [], None)
           | Inr h \<Rightarrow>
               let h = ae_powered env h
               in if \<not> wait_powered h then None
                  else
                    let shown = (if wait_for_enter then [Printed enter_prompt] else [])
                    in (case (wait_for_enter, ae_prompt env) of
                       (True, Inl e) \<Rightarrow> Some (Inl (PromptFailed e), shown, Some (Controller_drop sdk h))
                     | _ \<Rightarrow> do {
                         let (told, h) = set_connected sdk True h;
                         let h = ae_run env h;
                         outcome \<leftarrow> attach_outcome (ae_end env) (host_session h);
                         (told', h) \<leftarrow> detach sdk (ae_drain env) h;
                         Some (outcome, shown @ map PortTold (told @ told'), Some h)
                       })))"

text \<open>On other systems \<open>attach\<close> only fails.\<close>

definition attach_elsewhere :: "(AppError + unit) \<times> AttachEvent list \<times> ('c, 'd, 's) Host option" where
  "attach_elsewhere = (Inl OnlyOnMacos, [], None)"

definition exit_success :: "AppError + 'a \<Rightarrow> bool" where
  "exit_success r = (case r of Inl _ \<Rightarrow> False | Inr _ \<Rightarrow> True)"

section \<open>The program\<close>

text \<open>
  \<open>main\<close>: whether it exits with success, and the text printed. A panic, and a run that does not end, is
  nothing. The runtime either starts or fails with an error. The first argument says whether the
  program was built for macOS.
\<close>

fun printed :: "AttachEvent list \<Rightarrow> rstring" where
  "printed [] = []"
| "printed (Printed t # es) = t @ printed es"
| "printed (PortTold b # es) = printed es"

definition println :: "rstring \<Rightarrow> rstring" where
  "println l = l @ [0x0a]"

definition main_program ::
  "bool \<Rightarrow> string + unit \<Rightarrow> (rstring \<Rightarrow> nat \<Rightarrow> string + rstream) \<Rightarrow> ('c, 'p, 'd, 's) Sdk \<Rightarrow> ('c, 'd, 's) AttachEnv \<Rightarrow>
    ArgMatches \<Rightarrow> (bool \<times> rstring) option" where
  "main_program macos runtime connect sdk env m = do {
     args \<leftarrow> parse m;
     (case runtime of
        Inl e \<Rightarrow> Some (False, [])
      | Inr u \<Rightarrow>
          (case ar_action args of
             ListDevices \<Rightarrow>
               let result = snd (list_command (connect (ar_address args) 0))
               in Some (exit_success result, case result of Inl e \<Rightarrow> [] | Inr ls \<Rightarrow> concat (map println ls))
           | Attach selector wait_for_enter \<Rightarrow> do {
               (result, events, h) \<leftarrow>
                 (if macos then attach sdk (env\<lparr>ae_connect := connect (ar_address args)\<rparr>) selector wait_for_enter
                  else Some attach_elsewhere);
               Some (exit_success result, printed events)
             }))
   }"

section \<open>Lemmas\<close>

lemma matches_listed: "Selector_matches s (listed_device e) = Selector_matches s (device_of e)"
  by (simp add: Selector_matches_def listed_device_def split: Selector.split)

lemma find_map: "find P (map f xs) = map_option f (find (P \<circ> f) xs)"
  by (induction xs) auto

lemma find_busid:
  assumes "distinct (map ex_busid exports)" "ex \<in> set exports"
  shows "find (\<lambda>x. ex_busid x = ex_busid ex) exports = Some ex"
  using assms by (induction exports) auto

lemma unlink_seqs_moves: "unlink_seqs qs st = Some st' \<Longrightarrow> session_move\<^sup>*\<^sup>* st st'"
proof (induction qs arbitrary: st)
  case (Cons q qs)
  then obtain st1 where "unlink q st = Some st1" "unlink_seqs qs st1 = Some st'" by (auto simp: bind_eq_Some_conv)
  then show ?case using Cons.IH session_move.cancelled converse_rtranclp_into_rtranclp by metis
qed simp

lemma with_session_steps:
  assumes "session_move\<^sup>*\<^sup>* (host_session h) st"
  shows "(host_step sdk)\<^sup>*\<^sup>* h (with_session st h)"
  using assms
proof (induction rule: rtranclp_induct)
  case base
  have "with_session (host_session h) h = h" by (simp add: with_session_def)
  then show ?case by simp
next
  case (step st st')
  have "host_step sdk (with_session st h) (with_session st' h)"
    using host_step.network [of "with_session st h" st' sdk] step(2) by (simp add: with_session_def)
  with step(3) show ?case by (rule rtranclp.rtrancl_into_rtrancl)
qed

text \<open>Detaching is made of the controller's steps, up to dropping it, and closes the session.\<close>

lemma detach_steps:
  assumes "\<And>h. (host_step sdk)\<^sup>*\<^sup>* h (drain h)"
    and "card (seqs_used (host_session h)) + pending (host_session h) < 2 ^ 32 - 1"
  shows "\<exists>g. (host_step sdk)\<^sup>*\<^sup>* h g \<and> closed (host_session g) \<noteq> None \<and>
    detach sdk drain h = Some (fst (set_connected sdk False h), Controller_drop sdk g)"
proof -
  obtain h1 where h1: "h1 = snd (set_connected sdk False h)" by simp
  have s: "host_session h1 = host_session h" by (simp add: h1)
  obtain st where st: "unlink_seqs (map fst (submits (host_session h))) (host_session h) = Some st"
    using unlink_seqs_total [of "host_session h" "map fst (submits (host_session h))"] assms(2) by (auto simp: pending_def)
  define h3 where "h3 = (if 0 < pending st \<and> \<not> is_closed st then drain (with_session st h1) else with_session st h1)"
  define g where "g = with_session (Session_close (host_session h3)) h3"
  have "(host_step sdk)\<^sup>*\<^sup>* h h1" using host_step.connected h1 by blast
  also have "(host_step sdk)\<^sup>*\<^sup>* h1 (with_session st h1)"
    by (rule with_session_steps) (use unlink_seqs_moves [OF st] in \<open>simp add: s\<close>)
  also have "(host_step sdk)\<^sup>*\<^sup>* (with_session st h1) h3" using assms(1) by (simp add: h3_def)
  also have "(host_step sdk)\<^sup>*\<^sup>* h3 g"
    unfolding g_def Session_close_def by (intro with_session_steps r_into_rtranclp session_move.closed)
  finally have "(host_step sdk)\<^sup>*\<^sup>* h g" .
  moreover have "closed (host_session g) \<noteq> None" by (simp add: g_def with_session_def Session_close_def)
  moreover have "detach sdk drain h = Some (fst (set_connected sdk False h), Controller_drop sdk g)"
    unfolding detach_def Session_unlink_all_def split_beta h1 [symmetric] Let_def s st bind.bind_lunit h3_def [symmetric]
    by (simp add: g_def Controller_drop_def with_session_def)
  ultimately show ?thesis by blast
qed

definition from_hex :: "rstring \<Rightarrow> nat" where
  "from_hex ds = foldl (\<lambda>acc d. acc * 16 + (if d < 0x3a then unat d - 0x30 else unat d - 0x61 + 10)) 0 ds"

lemma hex_digit_value:
  assumes "n < 16"
  shows "(if hex_digit n < 0x3a then unat (hex_digit n) - 0x30 else unat (hex_digit n) - 0x61 + 10) = n"
proof (cases "n < 10")
  case True
  then have "unat (hex_digit n) = 0x30 + n" by (simp add: hex_digit_def unat_word_ariths unat_of_nat)
  then show ?thesis using True by (simp add: word_less_nat_alt)
next
  case False
  then have "unat (hex_digit n) = 0x61 + (n - 10)"
    using assms by (simp add: hex_digit_def unat_word_ariths unat_of_nat)
  then show ?thesis using False by (simp add: word_less_nat_alt)
qed

lemma from_hex_hex: "from_hex (hex n) = n"
proof (induction n rule: hex.induct)
  case (1 n)
  show ?case
  proof (cases "n < 16")
    case True
    then show ?thesis using hex_digit_value [OF True] by (simp add: hex.simps [of n] from_hex_def)
  next
    case False
    have "from_hex (hex n) = from_hex (hex (n div 16)) * 16 + n mod 16"
      using False hex_digit_value [of "n mod 16"] by (simp add: hex.simps [of n] from_hex_def)
    then show ?thesis using 1 False by simp
  qed
qed

lemma length_hex: "n < 16 ^ k \<Longrightarrow> 0 < k \<Longrightarrow> length (hex n) \<le> k"
proof (induction n arbitrary: k rule: hex.induct)
  case (1 n)
  show ?case
  proof (cases "n < 16")
    case True
    then show ?thesis using 1 by (simp add: hex.simps [of n])
  next
    case False
    then obtain j where k: "k = Suc j" "0 < j" using 1(2,3) by (cases k; cases "k - 1") auto
    then have "n div 16 < 16 ^ j" using 1(2) by (simp add: less_mult_imp_div_less mult.commute)
    with 1(1) [OF False this k(2)] k show ?thesis using False by (simp add: hex.simps [of n])
  qed
qed

lemma padded_hex:
  assumes "n < 16 ^ k" "0 < k"
  shows "length (padded k (hex n)) = k" "from_hex (padded k (hex n)) = n"
proof -
  show "length (padded k (hex n)) = k" using length_hex [OF assms] by (simp add: padded_def)
  have "foldl (\<lambda>acc d. acc * 16 + (if d < 0x3a then unat d - 0x30 else unat d - 0x61 + 10)) 0 (replicate j (0x30 :: u8)) = 0" for j
    by (induction j) simp_all
  then show "from_hex (padded k (hex n)) = n"
    using from_hex_hex [of n] by (simp add: padded_def from_hex_def)
qed

lemma import_finds:
  assumes "\<forall>e\<in>set exports. wf_export e" "length exports \<le> 4096" "distinct (map ex_busid exports)"
    and "connect 0 = Inr \<lparr>avail = serve_devlist exports, ending = e0\<rparr>"
    and "\<And>ex. find (\<lambda>e. Selector_matches selector (device_of e)) exports = Some ex \<Longrightarrow>
      ex_busid ex \<notin> set imported \<and>
      connect 1 = Inr \<lparr>avail = fst (serve_import exports imported (ex_busid ex)), ending = e1\<rparr>"
  shows "snd (import_session connect selector) =
    (case find (\<lambda>e. Selector_matches selector (device_of e)) exports of
       None \<Rightarrow> Inl (NoMatch selector)
     | Some ex \<Rightarrow> Inr (Session_start (device_of ex), device_of ex))"
proof -
  have l: "list_devices \<lparr>avail = serve_devlist exports, ending = e0\<rparr> =
      (encode_devlist_request, Inr (map listed_device exports, \<lparr>avail = [], ending = e0\<rparr>))"
    using devlist_reply_ok [OF assms(1,2), of "[]" e0] by (simp add: list_devices_def)
  have f: "Selector_find selector (map listed_device exports) =
      map_option listed_device (find (\<lambda>e. Selector_matches selector (device_of e)) exports)"
    unfolding Selector_find_def find_map by (simp add: comp_def matches_listed)
  show ?thesis
  proof (cases "find (\<lambda>e. Selector_matches selector (device_of e)) exports")
    case None
    then show ?thesis by (simp add: import_session_def assms(4) l f)
  next
    case (Some ex)
    then have ex: "ex \<in> set exports" by (auto simp: find_Some_iff)
    have wf: "wf_export ex" using assms(1) ex by blast
    have imp: "read_import_reply \<lparr>avail = fst (serve_import exports imported (ex_busid ex)), ending = e1\<rparr> =
        Inr (device_of ex, \<lparr>avail = [], ending = e1\<rparr>)"
      using import_reply_ok [OF find_busid [OF assms(3) ex] _ wf, of imported "[]" e1] assms(5) [OF Some] by simp
    obtain req where req: "encode_import_request (ex_busid ex) = Inr req"
      using wf by (auto simp: encode_import_request_def encode_busid_def wf_export_def wire_sizes)
    have "busid (listed_device ex) = ex_busid ex" "busid (device_of ex) = ex_busid ex"
      by (simp_all add: listed_device_def device_of_def)
    then show ?thesis
      using Some assms(5) [OF Some] by (simp add: import_session_def assms(4) l f import_device_def req imp)
  qed
qed

section \<open>Properties\<close>

text \<open>
  What a listing has to say, by the numbers a reader gets from it: per device a line with the bus id, the
  vendor and product id in four hexadecimal digits each, the numbers of bus and device, the speed by name and the
  path, and a line per interface with its number, class, subclass and protocol.
\<close>

definition hex_number :: "nat \<Rightarrow> rstring \<Rightarrow> nat \<Rightarrow> bool" where
  "hex_number w ds n \<longleftrightarrow> length ds = w \<and> from_hex ds = n \<and>
     (\<forall>d\<in>set ds. 0x30 \<le> d \<and> d \<le> 0x39 \<or> 0x61 \<le> d \<and> d \<le> 0x66)"

definition decimal_number :: "rstring \<Rightarrow> nat \<Rightarrow> bool" where
  "decimal_number ds n \<longleftrightarrow> ds \<noteq> [] \<and> from_decimal ds = n \<and> (\<forall>d\<in>set ds. 0x30 \<le> d \<and> d \<le> 0x39)"

definition speed_text :: "u32 \<Rightarrow> string" where
  "speed_text s =
     (case map_of [(1, ''Low''), (2, ''Full''), (3, ''High''), (4, ''Wireless''), (5, ''Super''), (6, ''SuperPlus'')] s of
        Some t \<Rightarrow> t | None \<Rightarrow> ''Unknown'')"

definition shows_interface :: "nat \<Rightarrow> bytes \<Rightarrow> rstring \<Rightarrow> bool" where
  "shows_interface i iface l \<longleftrightarrow> (\<exists>n c s p.
     l = ascii ''    '' @ n @ ascii '': class '' @ c @ ascii '' subclass '' @ s @ ascii '' protocol '' @ p \<and>
     decimal_number n i \<and> hex_number 2 c (unat (iface ! 0)) \<and> hex_number 2 s (unat (iface ! 1)) \<and>
     hex_number 2 p (unat (iface ! 2)))"

definition shows_device :: "Export \<Rightarrow> rstring list \<Rightarrow> bool" where
  "shows_device e ls \<longleftrightarrow> length ls = Suc (length (ex_interfaces e)) \<and>
     (\<exists>v p b d. ls ! 0 = ex_busid e @ ascii '': '' @ v @ ascii '':'' @ p @ ascii '' (bus '' @ b @ ascii '' dev '' @ d
          @ ascii '', '' @ ascii (speed_text (ex_speed e)) @ ascii '' speed) '' @ ex_path e \<and>
        hex_number 4 v (unat (ex_id_vendor e)) \<and> hex_number 4 p (unat (ex_id_product e)) \<and>
        decimal_number b (unat (ex_busnum e)) \<and> decimal_number d (unat (ex_devnum e))) \<and>
     (\<forall>i<length (ex_interfaces e). shows_interface i (ex_interfaces e ! i) (ls ! Suc i))"

lemma hex_digit_range:
  assumes "n < 16"
  shows "0x30 \<le> hex_digit n \<and> hex_digit n \<le> 0x39 \<or> 0x61 \<le> hex_digit n \<and> hex_digit n \<le> 0x66"
proof (cases "n < 10")
  case True
  then have "unat (hex_digit n) = 0x30 + n" by (simp add: hex_digit_def unat_word_ariths unat_of_nat)
  then show ?thesis using True by (simp add: word_le_nat_alt)
next
  case False
  then have "unat (hex_digit n) = 0x61 + (n - 10)"
    using assms by (simp add: hex_digit_def unat_word_ariths unat_of_nat)
  then show ?thesis using False assms by (simp add: word_le_nat_alt)
qed

lemma hex_digits: "d \<in> set (hex n) \<Longrightarrow> 0x30 \<le> d \<and> d \<le> 0x39 \<or> 0x61 \<le> d \<and> d \<le> 0x66"
proof (induction n rule: hex.induct)
  case (1 n)
  then show ?case
    using hex_digit_range [of n] hex_digit_range [of "n mod 16"] by (cases "n < 16") (auto simp: hex.simps [of n])
qed

lemma hex_number_padded:
  assumes "n < 16 ^ k" "0 < k"
  shows "hex_number k (padded k (hex n)) n"
  using padded_hex [OF assms] hex_digits by (auto simp: hex_number_def padded_def)

lemma decimal_number_decimal: "decimal_number (decimal n) n"
  using decimal_digits [of _ n] by (auto simp: decimal_number_def from_decimal_decimal) (simp add: decimal.simps split: if_splits)

lemma device_lines_show: "shows_device e (device_lines (listed_device e))"
proof -
  have u: "hex_number 4 (padded 4 (hex (unat w))) (unat w)" for w :: u16
    using unsigned_less [of w] by (intro hex_number_padded) simp_all
  have b: "hex_number 2 (padded 2 (hex (unat w))) (unat w)" for w :: u8
    using unsigned_less [of w] by (intro hex_number_padded) simp_all
  have s: "speed_name (Speed_from_u32 w) = speed_text w" for w
    by (simp add: speed_name_def Speed_from_u32_def speed_text_def)
  show ?thesis
    unfolding shows_device_def
  proof (intro conjI allI impI)
    show "length (device_lines (listed_device e)) = Suc (length (ex_interfaces e))"
      by (simp add: device_lines_def listed_device_def)
    show "\<exists>v p b d. device_lines (listed_device e) ! 0 = ex_busid e @ ascii '': '' @ v @ ascii '':'' @ p @ ascii '' (bus '' @ b
          @ ascii '' dev '' @ d @ ascii '', '' @ ascii (speed_text (ex_speed e)) @ ascii '' speed) '' @ ex_path e \<and>
        hex_number 4 v (unat (ex_id_vendor e)) \<and> hex_number 4 p (unat (ex_id_product e)) \<and>
        decimal_number b (unat (ex_busnum e)) \<and> decimal_number d (unat (ex_devnum e))"
      by (intro exI conjI) (rule u decimal_number_decimal | simp add: device_lines_def listed_device_def device_of_def s)+
    fix i
    assume "i < length (ex_interfaces e)"
    then show "shows_interface i (ex_interfaces e ! i) (device_lines (listed_device e) ! Suc i)"
      unfolding shows_interface_def
      by (intro exI conjI) (rule b decimal_number_decimal | simp add: device_lines_def listed_device_def decode_interface_def)+
  qed
qed

text \<open>Listing shows what the server exports, in its order.\<close>

theorem list_shows_exports:
  assumes "\<forall>e\<in>set exports. wf_export e" "length exports \<le> 4096"
  shows "\<exists>lss. list_command (Inr \<lparr>avail = serve_devlist exports, ending = x\<rparr>) = (encode_devlist_request, Inr (concat lss)) \<and>
    list_all2 shows_device exports lss"
proof (intro exI conjI)
  show "list_command (Inr \<lparr>avail = serve_devlist exports, ending = x\<rparr>) =
      (encode_devlist_request, Inr (concat (map (\<lambda>e. device_lines (listed_device e)) exports)))"
    using devlist_reply_ok [OF assms, of "[]" x] by (simp add: list_command_def list_devices_def comp_def)
  show "list_all2 shows_device exports (map (\<lambda>e. device_lines (listed_device e)) exports)"
    by (simp add: list_all2_conv_all_nth device_lines_show)
qed

theorem list_shows_exports_witness:
  "\<exists>ls. snd (list_command (Inr \<lparr>avail = serve_devlist [sample_export], ending = UnexpectedEof\<rparr>)) = Inr ls \<and>
     shows_device sample_export ls"
  using list_shows_exports [of "[sample_export]" UnexpectedEof] by (auto simp: sample_export_wf list_all2_Cons1)


lemma exit_success_unit: "exit_success r \<longleftrightarrow> r = Inr ()"
  by (simp add: exit_success_def split: sum.split)

lemma attach_outcome_some:
  assumes "e = Inr SessionEnded \<Longrightarrow> closed_tx st \<noteq> None"
  shows "\<exists>outcome. attach_outcome e st = Some outcome \<and> (exit_success outcome \<longleftrightarrow> e = Inr Signalled) \<and>
    (e = Inr SessionEnded \<longrightarrow> (\<exists>why. closed_tx st = Some why \<and> outcome = Inl (ConnectionLost why)))"
  using assms by (auto simp: attach_outcome_def exit_success_def Session_closed_def split: sum.splits AttachEnd.splits)

text \<open>C36. Attaching ends detached: whatever happens while the device is attached, once a signal or
  the loss of the connection ends it, the port has been connected once, after the prompt if there is one,
  and disconnected, the session is closed, no transfer is pending and every transfer that was ever accepted has its
  reply; the result is a success only for a signal, and after a loss it carries the reason for
  which the session was closed. The runs before, during and after are made
  of the controller's steps, the root port exists, and sequence numbers are left to cancel what
  is pending; the port gets powered; reply channels are counted below 2^64.\<close>

theorem attach_ends_detached:
  assumes "snd (import_session (ae_connect env) selector) = Inr (Session_start device, device)"
    and "ae_init env (capabilities (ae_bits env)) = Inr c" "\<not> (wait_for_enter \<and> isl (ae_prompt env))"
    and "\<And>h. (host_step sdk)\<^sup>*\<^sup>* h (ae_powered env h)" "\<And>h. (host_step sdk)\<^sup>*\<^sup>* h (ae_run env h)"
    and "\<And>h. (host_step sdk)\<^sup>*\<^sup>* h (ae_drain env h)" "\<And>c. \<not> isl (sdk_root_port sdk c)"
    and "h = ae_run env (snd (set_connected sdk True
      (ae_powered env (Host_new c (Session_start device) device (ae_clock env)))))"
    and "card (seqs_used (host_session h)) + pending (host_session h) < 2 ^ 32 - 1"
    and "ae_end env = Inr SessionEnded \<Longrightarrow> closed_tx (host_session h) \<noteq> None"
    and "wait_powered (ae_powered env (Host_new c (Session_start device) device (ae_clock env)))"
  shows "\<exists>outcome h'. attach sdk env selector wait_for_enter =
      Some (outcome, (if wait_for_enter then [Printed enter_prompt] else []) @ [PortTold True, PortTold False], Some h') \<and>
    (let st = host_session h' in closed st \<noteq> None \<and>
       (next_chan st < 2 ^ 64 \<longrightarrow> pending st = 0 \<and> keys (replies st) = {..<next_chan st})) \<and>
    (exit_success outcome \<longleftrightarrow> ae_end env = Inr Signalled) \<and>
    (ae_end env = Inr SessionEnded \<longrightarrow> (\<exists>why. closed_tx (host_session h) = Some why \<and> outcome = Inl (ConnectionLost why)))"
proof -
  let ?h0 = "Host_new c (Session_start device) device (ae_clock env)"
  have told: "fst (set_connected sdk b x) = [b]" for b x
    using assms(7) [of "ho_controller x"] by (auto simp: set_connected_def with_port_def split: sum.split)
  have "(host_step sdk)\<^sup>*\<^sup>* ?h0 (ae_powered env ?h0)" by (rule assms(4))
  also have "host_step sdk (ae_powered env ?h0) (snd (set_connected sdk True (ae_powered env ?h0)))"
    by (rule host_step.connected)
  also have "(host_step sdk)\<^sup>*\<^sup>* \<dots> h" unfolding assms(8) by (rule assms(5))
  finally have run: "(host_step sdk)\<^sup>*\<^sup>* ?h0 h" .
  obtain g where g: "(host_step sdk)\<^sup>*\<^sup>* h g" "closed (host_session g) \<noteq> None"
    "detach sdk (ae_drain env) h = Some ([False], Controller_drop sdk g)"
    using detach_steps [OF assms(6,9)] told by metis
  have "engine_goes sdk (Engine_new (Session_start device) device) (ho_engine g)"
    using host_reachable [OF rtranclp_trans [OF run g(1)]] by blast
  then have inv: "session_inv (host_session g)" if "next_chan (host_session g) < 2 ^ 64"
    using engine_invD(2) [OF engine_reachable_inv [OF _ session_inv_start]] that by (simp add: few_transfers_def)
  have "pending (host_session g) = 0 \<and> keys (replies (host_session g)) = {..<next_chan (host_session g)}"
    if "next_chan (host_session g) < 2 ^ 64"
  proof -
    have "submits (host_session g) = []" using inv [OF that] g(2) by (simp add: session_inv_def)
    then show ?thesis using session_inv_chans [OF inv [OF that]] by (simp add: pending_def)
  qed
  moreover obtain outcome where out: "attach_outcome (ae_end env) (host_session h) = Some outcome"
    "exit_success outcome \<longleftrightarrow> ae_end env = Inr Signalled"
    "ae_end env = Inr SessionEnded \<Longrightarrow> \<exists>why. closed_tx (host_session h) = Some why \<and> outcome = Inl (ConnectionLost why)"
    using attach_outcome_some [OF assms(10)] by metis
  moreover have "attach sdk env selector wait_for_enter =
      Some (outcome, (if wait_for_enter then [Printed enter_prompt] else []) @ [PortTold True, PortTold False], Some (Controller_drop sdk g))"
    using assms(3) g(3) [unfolded assms(8)] out(1) [unfolded assms(8)] told
    by (cases wait_for_enter; cases "ae_prompt env")
      (simp_all add: attach_def Controller_new_def assms(1,2,11) split_beta Let_def)
  ultimately show ?thesis using g(2)
    by (intro exI [of _ outcome] exI [of _ "Controller_drop sdk g"]) (simp add: Let_def Controller_drop_def)
qed

definition sample_connect :: "nat \<Rightarrow> string + rstream" where
  "sample_connect i = Inr (if i = 0 then \<lparr>avail = serve_devlist [sample_export], ending = UnexpectedEof\<rparr>
     else \<lparr>avail = fst (serve_import [sample_export] [] (ex_busid sample_export)), ending = UnexpectedEof\<rparr>)"

lemma sample_matches: "Selector_matches (DevNum 2) (device_of sample_export)"
  by (simp add: Selector_matches_def device_of_def sample_export_def)


lemma sample_import:
  "snd (import_session sample_connect (DevNum 2)) = Inr (Session_start (device_of sample_export), device_of sample_export)"
  using import_finds [of "[sample_export]" sample_connect UnexpectedEof "DevNum 2" "[]" UnexpectedEof]
  by (simp add: sample_export_wf sample_matches sample_connect_def)

definition sample_attach_env :: "(unit, unit, nat \<times> u64) AttachEnv" where
  "sample_attach_env = \<lparr>ae_connect = sample_connect, ae_init = (\<lambda>messages. Inr ()),
     ae_bits = \<lparr>bits_type_phase = 0, bits_no_response = 0x4000, bits_valid = 0x8000, bits_controller_capabilities = 0,
       bits_port_count_phase = 16, bits_timeout_phase = 0, bits_latency_phase = 8, bits_port_capabilities = 1,
       bits_port_number_phase = 16, bits_max_power_phase = 8\<rparr>,
     ae_clock = sample_clock,
     ae_powered = (\<lambda>h. snd (the (command sample_sdk sample_env (sample_command MT_PORT_POWER_ON) h))), ae_prompt = Inr (), ae_run = (\<lambda>h. h), ae_end = Inr Signalled, ae_drain = (\<lambda>st. st)\<rparr>"

lemma sample_power:
  "command sample_sdk sample_env (sample_command MT_PORT_POWER_ON) h =
     Some (Inr (), (note_answer (sample_command MT_PORT_POWER_ON) CiSuccess h)\<lparr>ho_powered := True\<rparr>)"
  by (cases h) (simp add: command_def Let_def sample_types command_types port_command_def sample_sdk_def answer_def
      answered_def on_controller_def note_answer_def)

lemma set_connected_session: "host_session (snd (set_connected sdk b h)) = host_session h"
  by (simp add: set_connected_def with_port_def split: sum.split prod.split)

theorem attach_ends_detached_witness:
  "\<exists>h'. attach sample_sdk sample_attach_env (DevNum 2) False = Some (Inr (), [PortTold True, PortTold False], Some h') \<and>
     closed (host_session h') \<noteq> None"
proof -
  let ?d = "device_of sample_export" and ?e = sample_attach_env
  let ?h0 = "Host_new () (Session_start ?d) ?d (ae_clock ?e)"
  have imp: "snd (import_session (ae_connect ?e) (DevNum 2)) = Inr (Session_start ?d, ?d)"
    and init: "ae_init ?e (capabilities (ae_bits ?e)) = Inr ()" and last: "ae_end ?e = Inr Signalled"
    by (simp_all add: sample_attach_env_def sample_import)
  have powered: "(host_step sample_sdk)\<^sup>*\<^sup>* h (ae_powered ?e h)" for h
    using host_step.handled [OF sample_power sample_env_ok, of h] by (simp add: sample_attach_env_def sample_power r_into_rtranclp)
  have run: "(host_step sample_sdk)\<^sup>*\<^sup>* h (ae_run ?e h)" "(host_step sample_sdk)\<^sup>*\<^sup>* h (ae_drain ?e h)" for h
    by (simp_all add: sample_attach_env_def)
  have root: "\<not> isl (sdk_root_port sample_sdk c)" for c by (simp add: sample_sdk_def)
  have up: "wait_powered (ae_powered ?e ?h0)" by (simp add: sample_attach_env_def sample_power wait_powered_def)
  have sess: "host_session (ae_run ?e (snd (set_connected sample_sdk True (ae_powered ?e ?h0)))) = Session_start ?d"
    by (simp add: sample_attach_env_def sample_power note_answer_def set_connected_session Host_new_def Engine_new_def)
  from attach_ends_detached [OF imp init _ powered run(1) run(2) root refl, of False] up show ?thesis
    by (simp add: sess last pending_def exit_success_unit) (auto simp: Let_def)
qed

lemma detach_prints: "printed (map PortTold bs) = []"
  by (induction bs) auto

lemma printed_append [simp]: "printed (es @ fs) = printed es @ printed fs"
  by (induction es rule: printed.induct) auto

text \<open>Attaching prints the prompt when it is asked to wait and gets that far, and nothing else.\<close>

lemma attach_prints:
  assumes "attach sdk env selector wait_for_enter = Some (res, es, h)"
  shows "printed es = (if wait_for_enter \<and> h \<noteq> None then enter_prompt else [])"
  using assms
  by (cases wait_for_enter; cases "ae_prompt env")
    (auto simp: attach_def Let_def bind_eq_Some_conv detach_prints split: sum.splits prod.splits if_splits)

text \<open>C40. The program does what was asked. Arguments that the command accepts never make it panic. A listing
  prints the devices the server exports, in its order, so that its lines say each device's bus id, vendor and
  product id, bus and device number, speed and path and each interface's class, and succeeds; or it prints
  nothing and fails when there is no connection or the answer is not a device list. On macOS, attaching uses the one selector that was given,
  its result is the exit code, and nothing is printed but the prompt to press Enter, when that was asked for
  and the controller is there; on other systems it fails. If the runtime does not start, the program fails.\<close>

theorem main_does_what_was_asked:
  assumes "declared m"
  shows "\<exists>host port name a. am_remote m = Some host \<and> am_tcp_port m = Some port \<and> am_subcommand m = Some (name, a) \<and>
    main_program macos (Inl e) connect sdk env m = Some (False, []) \<and>
    (name = ''list'' \<longrightarrow>
       (\<forall>exports x. (\<forall>e\<in>set exports. wf_export e) \<and> length exports \<le> 4096 \<and>
          connect (address_of host port) 0 = Inr \<lparr>avail = serve_devlist exports, ending = x\<rparr> \<longrightarrow>
          (\<exists>lss. list_all2 shows_device exports lss \<and>
             main_program macos (Inr ()) connect sdk env m = Some (True, concat (map (\<lambda>l. l @ [0x0a]) (concat lss))))) \<and>
       (\<forall>err. connect (address_of host port) 0 = Inl err \<longrightarrow> main_program macos (Inr ()) connect sdk env m = Some (False, [])) \<and>
       (\<forall>r err. connect (address_of host port) 0 = Inr r \<and> read_devlist_reply r = Inl err \<longrightarrow>
          main_program macos (Inr ()) connect sdk env m = Some (False, []))) \<and>
    (name = ''attach'' \<longrightarrow>
       main_program False (Inr ()) connect sdk env m = Some (False, []) \<and>
       (\<exists>s. (\<forall>b. s = BusId b \<longleftrightarrow> am_busid a = Some b) \<and> (\<forall>n. s = DevNum n \<longleftrightarrow> am_device a = Some n) \<and>
          (\<forall>v p. s = Ids v p \<longleftrightarrow> am_vendor_id a = Some v \<and> am_product_id a = Some p) \<and>
          main_program True (Inr ()) connect sdk env m =
            map_option (\<lambda>(res, es, h). (res = Inr (),
                if am_wait_for_enter a \<and> h \<noteq> None then ascii ''Press Enter to connect the device...'' else []))
              (attach sdk (env\<lparr>ae_connect := connect (address_of host port)\<rparr>) s (am_wait_for_enter a))))"
proof -
  obtain host port args name a where m: "am_remote m = Some host" "am_tcp_port m = Some port" "am_subcommand m = Some (name, a)"
    and p: "parse m = Some args" "ar_address args = address_of host port"
    and act: "if name = ''attach'' then \<exists>s. ar_action args = Attach s (am_wait_for_enter a) \<and>
         (\<forall>b. s = BusId b \<longleftrightarrow> am_busid a = Some b) \<and> (\<forall>n. s = DevNum n \<longleftrightarrow> am_device a = Some n) \<and>
         (\<forall>v p. s = Ids v p \<longleftrightarrow> am_vendor_id a = Some v \<and> am_product_id a = Some p)
       else ar_action args = ListDevices"
    using parse_accepts_declared [OF assms] assms by (auto simp: declared_def split: option.splits prod.splits)
  have "\<exists>lss. list_all2 shows_device exports lss \<and>
      main_program macos (Inr ()) connect sdk env m = Some (True, concat (map (\<lambda>l. l @ [0x0a]) (concat lss)))"
    if "name = ''list''" "\<forall>e\<in>set exports. wf_export e" "length exports \<le> 4096"
      "connect (address_of host port) 0 = Inr \<lparr>avail = serve_devlist exports, ending = x\<rparr>" for exports x
    using act p list_shows_exports [OF that(2,3), of x] that(1,4)
    by (auto simp: main_program_def exit_success_def println_def [abs_def])
  moreover have "main_program macos (Inr ()) connect sdk env m = Some (False, [])"
    if "name = ''list''" "connect (address_of host port) 0 = Inl err" for err
    using act p that by (simp add: main_program_def exit_success_def list_command_def)
  moreover have "main_program macos (Inr ()) connect sdk env m = Some (False, [])"
    if "name = ''list''" "connect (address_of host port) 0 = Inr r" "read_devlist_reply r = Inl err" for r err
    using act p that by (simp add: main_program_def exit_success_def list_command_def list_devices_def)
  moreover have "main_program False (Inr ()) connect sdk env m = Some (False, []) \<and>
      (\<exists>s. (\<forall>b. s = BusId b \<longleftrightarrow> am_busid a = Some b) \<and> (\<forall>n. s = DevNum n \<longleftrightarrow> am_device a = Some n) \<and>
          (\<forall>v p. s = Ids v p \<longleftrightarrow> am_vendor_id a = Some v \<and> am_product_id a = Some p) \<and>
          main_program True (Inr ()) connect sdk env m =
            map_option (\<lambda>(res, es, h). (res = Inr (),
                if am_wait_for_enter a \<and> h \<noteq> None then ascii ''Press Enter to connect the device...'' else []))
              (attach sdk (env\<lparr>ae_connect := connect (address_of host port)\<rparr>) s (am_wait_for_enter a)))"
    if att: "name = ''attach''"
  proof -
    obtain s where s: "ar_action args = Attach s (am_wait_for_enter a)" "\<forall>b. s = BusId b \<longleftrightarrow> am_busid a = Some b"
      "\<forall>n. s = DevNum n \<longleftrightarrow> am_device a = Some n" "\<forall>v p. s = Ids v p \<longleftrightarrow> am_vendor_id a = Some v \<and> am_product_id a = Some p"
      using act att by auto
    let ?a = "attach sdk (env\<lparr>ae_connect := connect (address_of host port)\<rparr>) s (am_wait_for_enter a)"
    have "main_program True (Inr ()) connect sdk env m = map_option (\<lambda>(res, es, h). (res = Inr (),
        if am_wait_for_enter a \<and> h \<noteq> None then ascii ''Press Enter to connect the device...'' else [])) ?a"
    proof (cases ?a)
      case (Some r)
      then show ?thesis using p s(1) attach_prints [of sdk "env\<lparr>ae_connect := connect (address_of host port)\<rparr>" s "am_wait_for_enter a"]
        by (cases r) (auto simp: main_program_def exit_success_unit enter_prompt_def)
    qed (use p s(1) in \<open>simp add: main_program_def\<close>)
    moreover have "main_program False (Inr ()) connect sdk env m = Some (False, [])"
      using p s(1) by (simp add: main_program_def attach_elsewhere_def exit_success_def)
    ultimately show ?thesis using s(2-4) by blast
  qed
  moreover have "main_program macos (Inl e) connect sdk env m = Some (False, [])" using p by (simp add: main_program_def)
  ultimately show ?thesis using m
    by (intro exI [of _ host] exI [of _ port] exI [of _ name] exI [of _ a]) blast
qed

theorem main_does_what_was_asked_witness:
  "\<exists>ls. shows_device sample_export ls \<and>
     main_program False (Inr ()) (\<lambda>address. if address = [0x68, 0x3a, 0x33, 0x32, 0x34, 0x30] then sample_connect else (\<lambda>i. Inl ''refused''))
     sample_sdk sample_attach_env \<lparr>am_remote = Some [0x68], am_tcp_port = Some 3240, am_subcommand = Some (''list'',
       \<lparr>am_busid = None, am_device = None, am_vendor_id = None, am_product_id = None, am_wait_for_enter = False\<rparr>)\<rparr> =
   Some (True, concat (map (\<lambda>l. l @ [0x0a]) ls))"
  (is "\<exists>ls. _ \<and> main_program _ _ ?connect _ _ ?m = _")
proof -
  have d: "declared ?m" by (simp add: declared_def)
  have c: "?connect (address_of [0x68] 3240) 0 = Inr \<lparr>avail = serve_devlist [sample_export], ending = UnexpectedEof\<rparr>"
    by (simp add: address_of_def decimal.simps sample_connect_def)
  have "\<forall>exports x. (\<forall>e\<in>set exports. wf_export e) \<and> length exports \<le> 4096 \<and>
      ?connect (address_of [0x68] 3240) 0 = Inr \<lparr>avail = serve_devlist exports, ending = x\<rparr> \<longrightarrow>
      (\<exists>lss. list_all2 shows_device exports lss \<and>
         main_program False (Inr ()) ?connect sample_sdk sample_attach_env ?m = Some (True, concat (map (\<lambda>l. l @ [0x0a]) (concat lss))))"
    using main_does_what_was_asked [OF d, of False "''no threads''" ?connect sample_sdk sample_attach_env] by simp
  from this [rule_format, of "[sample_export]" UnexpectedEof] c show ?thesis by (auto simp: sample_export_wf list_all2_Cons1)
qed

end
