(* ===== verification/Delivery.thy ===== *)
theory Delivery
  imports Engine_System
begin

text \<open>
  What the engine reports on a ring, traced back to the replies of the session. A ring that writes
  down its completions stands in for the ring of an endpoint. What is to be reported is said here by the
  request and its result alone (\<open>delivered\<close>), and for the answers the engine gives by itself by the
  message (\<open>own_answer\<close>). For every endpoint the entries and the URBs in flight together are a list of
  reply channels in the order in which the requests were accepted. All operations of the engine keep it.
\<close>

section \<open>A ring that writes down its completions\<close>

text \<open>The head of the ring with its message, the status, the data and the length.\<close>

type_synonym completion = "(u64 \<times> Transfer option) \<times> Status \<times> bytes \<times> u32"

definition logged :: "'r Ring \<Rightarrow> ('r \<times> completion list) Ring" where
  "logged ring =
     \<lparr>ring_active = (\<lambda>r. ring_active ring (fst r)),
      ring_current = (\<lambda>r. ring_current ring (fst r)),
      ring_peek = (\<lambda>r. ring_peek ring (fst r)),
      ring_read = (\<lambda>r. ring_read ring (fst r)),
      ring_complete = (\<lambda>r status data len.
        let (ok, r') = ring_complete ring (fst r) status data len
        in (ok, (r', snd r @ [(ring_current ring (fst r), status, data, len)])))\<rparr>"

lemma logged_complete:
  assumes "ring_complete (logged ring) r s d l = (ok, r')"
  shows "snd r' = snd r @ [(ring_current (logged ring) r, s, d, l)]"
  using assms by (auto simp: logged_def split: prod.splits)

section \<open>What is to be reported\<close>

text \<open>
  The status of a URB is zero or a negated error number of Linux; what each means to the host. A short
  packet (121) and a partly completed isochronous transfer (18) are successes.
\<close>

definition urb_statuses :: "(int \<times> Status) list" where
  "urb_statuses =
     [(0, StSuccess), (121, StSuccess), (18, StSuccess), (32, StStallError), (75, StOverrunError),
      (71, StProtocolError), (84, StProtocolError), (62, StTimeout), (110, StTimeout),
      (19, StOffline), (108, StOffline), (2, StEndpointStopped), (104, StEndpointStopped),
      (70, StTransactionError), (63, StTransactionError)]"

definition urb_meaning :: "i32 \<Rightarrow> Status" where
  "urb_meaning s =
     (case find (\<lambda>p. sint s = - fst p) urb_statuses of Some p \<Rightarrow> snd p | None \<Rightarrow> StError)"

lemma sint_negative:
  assumes "0 \<le> k" "k < 2 ^ 31"
  shows "sint (s :: i32) = - k \<longleftrightarrow> - s = word_of_int k"
proof -
  have "sint (word_of_int (- k) :: i32) = - k"
    unfolding sint_sbintrunc' using assms by (intro signed_take_bit_int_eq_self) simp_all
  then have "sint s = - k \<longleftrightarrow> s = word_of_int (- k)" by (metis signed_word_eqI)
  also have "\<dots> \<longleftrightarrow> - s = word_of_int k" by (metis minus_minus of_int_minus)
  finally show ?thesis .
qed

lemma from_urb_status_meaning: "from_urb_status s = urb_meaning s"
proof -
  have m: "sint s = - k \<longleftrightarrow> - s = word_of_int k" if "k \<in> set (map fst urb_statuses)" for k
    using that by (intro sint_negative) (auto simp: urb_statuses_def)
  have "find (\<lambda>p. sint s = - fst p) urb_statuses = find (\<lambda>p. - s = word_of_int (fst p)) urb_statuses"
    by (intro find_cong refl) (use m in auto)
  then show ?thesis by (simp add: urb_meaning_def) (simp add: urb_statuses_def from_urb_status_def Let_def)
qed

text \<open>
  GET_DESCRIPTOR(CONFIGURATION), by the eight bytes of a control request, and what the host is shown of the
  answer: the UAS settings are hidden, and an answer too short to hold them names the total
  length that an earlier full answer had after hiding.
\<close>

definition reads_configuration :: "bytes \<Rightarrow> bool" where
  "reads_configuration setup \<longleftrightarrow> take 2 setup = [0x80, 6] \<and> setup ! 3 = 2"

definition shown_configuration :: "(u16 \<times> u16) option \<Rightarrow> bytes \<Rightarrow> bytes" where
  "shown_configuration totals d =
     (case (snd (hide_uas d), totals) of
        (Some _, _) \<Rightarrow> fst (hide_uas d)
      | (None, Some (original, hidden)) \<Rightarrow>
          if 4 \<le> length d \<and> take 2 (drop 2 d) = u16_le original then take 2 d @ u16_le hidden @ drop 4 d else d
      | (None, None) \<Rightarrow> d)"

lemma patch_configuration_shown: "fst (patch_configuration h d) = shown_configuration h d"
  using hide_uas_None [of d]
  by (cases "hide_uas d") (auto simp: patch_configuration_def shown_configuration_def split: option.splits prod.splits)

lemma shown_nothing [simp]: "shown_configuration h [] = []"
  using hide_uas_short [of "[]"] by (simp add: shown_configuration_def split: option.splits prod.splits)

text \<open>
  What a request and its result say that the host must be told: of a result the meaning of its status, no more
  bytes than were asked for, and the data of a read; for an isochronous request status and
  length are those of its packet; a cancelled request has stopped and a lost one is offline.
\<close>

definition delivered :: "SubmitRequest \<Rightarrow> TransferResult \<Rightarrow> completion \<Rightarrow> bool" where
  "delivered req res e =
     (case e of (_, status, data, len) \<Rightarrow>
       case res of
         Inl (Disconnected _) \<Rightarrow> status = StOffline \<and> data = [] \<and> len = 0
       | Inl (Unlinked _) \<Rightarrow> status = StEndpointStopped \<and> data = [] \<and> len = 0
       | Inl (InvalidRequest _) \<Rightarrow> status = StError \<and> data = [] \<and> len = 0
       | Inr ret \<Rightarrow>
           let (urb_status, actual) =
                 (if sr_iso_packets req \<noteq> [] \<and> rs_iso_packets ret \<noteq> []
                  then (iso_status (hd (rs_iso_packets ret)), iso_actual_length (hd (rs_iso_packets ret)))
                  else (rs_status ret, rs_actual_length ret));
               n = min actual (sr_length req);
               bytes = (if sr_direction req = In then take (unat n) (rs_data ret) else [])
           in status = urb_meaning urb_status \<and>
              (if reads_configuration (sr_setup req)
               then \<exists>totals. data = shown_configuration totals bytes \<and> len = min n (of_nat (length data))
               else data = bytes \<and> len = n))"

text \<open>
  What the engine answers by itself: an error, a success for a message that carries no data, or offline once
  the session is closed; never any data.
\<close>

definition own_answer :: "Shared \<Rightarrow> completion \<Rightarrow> bool" where
  "own_answer st e =
     (case e of ((_, t), status, data, len) \<Rightarrow> data = [] \<and> len = 0 \<and>
        (status = StError \<or> status = StSuccess \<and> (\<exists>t'. t = Some t' \<and> dataless t') \<or>
         status = StOffline \<and> closed st \<noteq> None))"

lemma submit_refused: "submit req st = Some (Inl e, st') \<Longrightarrow> own_answer st (h, error_status e, [], 0)"
  by (auto simp: submit_def own_answer_def error_status_def bind_eq_Some_conv Let_def split: if_splits option.splits prod.splits)

section \<open>From a reply to a completion\<close>

text \<open>
  The stage of a URB fits its request: isochronous URBs are the ones with a packet, the data stage of a
  control transfer carries the setup that the endpoint has kept (\<open>su\<close>), its status stage no data, and no other
  URB reads a configuration.
\<close>

definition stage_fits :: "bytes option \<Rightarrow> SubmitRequest \<Rightarrow> Stage \<Rightarrow> bool" where
  "stage_fits su req stage \<longleftrightarrow>
     length (sr_iso_packets req) \<le> 1 \<and> (sr_iso_packets req \<noteq> [] \<longleftrightarrow> stage = IsochronousStage) \<and>
     (case stage of
        ControlData \<Rightarrow> su = Some (sr_setup req)
      | ControlStatus \<Rightarrow> sr_length req = 0
      | _ \<Rightarrow> \<not> reads_configuration (sr_setup req))"

abbreviation kept_setup :: "'r Endpoint \<Rightarrow> bytes option" where
  "kept_setup ep \<equiv> map_option su_bytes (ep_setup ep)"

abbreviation is_control :: "Stage \<Rightarrow> bool" where
  "is_control stage \<equiv> stage = ControlData \<or> stage = ControlStatus"

lemma no_configuration [simp]: "\<not> reads_configuration (replicate 8 0)"
  by (simp add: reads_configuration_def numeral_eq_Suc)

lemma data_request_fits:
  "data_request ring sp ep key k t = Some (req, stage) \<Longrightarrow> stage_fits su req stage \<and> \<not> is_control stage"
  by (erule data_request_fields) (auto simp: stage_fits_def length_Suc_conv)

lemma head_request_fits:
  assumes "head_request ring sp ep key t = (NSubmit req stage, ep')"
  shows "stage_fits (kept_setup ep) req stage"
  using assms
proof (cases rule: head_request_submits)
  case data
  then show ?thesis using data_request_fits by blast
qed (auto simp: stage_fits_def control_request_fields)

lemma stage_effects_data:
  assumes "stage_effects ep stage d1 l0 w = (ep', d, l, w')"
  shows "if stage = ControlData \<and> (\<exists>bs. kept_setup ep = Some bs \<and> reads_configuration bs)
    then \<exists>h. d = shown_configuration h d1 \<and> l = min l0 (of_nat (length d)) else d = d1 \<and> l = l0"
proof (cases "stage = ControlData \<and> (\<exists>bs. kept_setup ep = Some bs \<and> reads_configuration bs)")
  case True
  then obtain s where s: "ep_setup ep = Some s" "reads_configuration (su_bytes s)" "stage = ControlData" by auto
  obtain d' h hid where p: "patch_configuration (ep_hidden_config ep) d1 = (d', h, hid)"
    by (cases "patch_configuration (ep_hidden_config ep) d1")
  have "d = d'" "l = min l0 (of_nat (length d'))"
    using assms s p by (auto simp: stage_effects_def is_get_configuration_def reads_configuration_def)
  moreover have "d' = shown_configuration (ep_hidden_config ep) d1"
    using patch_configuration_shown [of "ep_hidden_config ep" d1] p by simp
  ultimately show ?thesis using True by auto
next
  case False
  then show ?thesis using assms
    by (auto simp: stage_effects_def Let_def is_get_configuration_def reads_configuration_def split: Stage.splits option.splits if_splits)
qed

lemma outcome_delivered:
  assumes "outcome_of f res = (s, d0, l0)" "stage_fits su req (fl_stage f)" "sr_length req = fl_length f"
  shows "case res of
      Inl _ \<Rightarrow> delivered req res (m, s, [], 0) \<and> d0 = [] \<and> l0 = 0
    | Inr ret \<Rightarrow>
        let (urb_status, actual) =
              (if sr_iso_packets req \<noteq> [] \<and> rs_iso_packets ret \<noteq> []
               then (iso_status (hd (rs_iso_packets ret)), iso_actual_length (hd (rs_iso_packets ret)))
               else (rs_status ret, rs_actual_length ret))
        in s = urb_meaning urb_status \<and> l0 = min actual (sr_length req) \<and> d0 = take (unat l0) (rs_data ret)"
proof (cases res)
  case (Inl e)
  then show ?thesis using assms(1) by (cases e) (auto simp: outcome_of_def error_status_def delivered_def)
next
  case (Inr ret)
  have "sr_iso_packets req \<noteq> [] \<longleftrightarrow> fl_stage f = IsochronousStage" using assms(2) by (simp add: stage_fits_def)
  then show ?thesis using assms(1,3) Inr
    by (cases "rs_iso_packets ret"; cases "fl_stage f") (auto simp: outcome_of_def Let_def from_urb_status_meaning)
qed

lemma apply_flight_delivers:
  assumes "apply_flight ring ep f res w = (flow, ep', w')"
  obtains s d l ok r where "ring_complete ring (ep_ring ep) s d l = (ok, r)"
    "ep_ring ep' = r" "ep_in_flight ep' = ep_in_flight ep"
    "\<And>m req. \<lbrakk>stage_fits (kept_setup ep) req (fl_stage f); sr_direction req = fl_direction f; sr_length req = fl_length f\<rbrakk> \<Longrightarrow>
       delivered req res (m, s, d, l)"
proof -
  obtain s d0 l0 where out: "outcome_of f res = (s, d0, l0)" by (cases "outcome_of f res")
  define d1 where "d1 = (if fl_direction f = In then d0 else [])"
  obtain ep1 d l w1 where se: "stage_effects ep (fl_stage f) d1 l0 w = (ep1, d, l, w1)"
    by (cases "stage_effects ep (fl_stage f) d1 l0 w")
  have "length d1 \<le> unat l0" using outcome_bounds(2) [OF out] by (simp add: d1_def)
  note sh = stage_effects_shape(1) [OF se this]
  have ep1: "ep_ring ep1 = ep_ring ep" "ep_in_flight ep1 = ep_in_flight ep" by (subst sh, simp)+
  obtain ok r where c: "ring_complete ring (ep_ring ep) s d l = (ok, r)" by fastforce
  have ep': "ep' = ep1\<lparr>ep_ring := r\<rparr>"
    using assms se c ep1 out by (simp add: apply_flight_def d1_def [symmetric] complete_eq)
  have "delivered req res (m, s, d, l)"
    if fit: "stage_fits (kept_setup ep) req (fl_stage f)" "sr_direction req = fl_direction f" "sr_length req = fl_length f" for m req
  proof -
    note o = outcome_delivered [OF out fit(1,3), of m]
    have conf: "if reads_configuration (sr_setup req) then \<exists>h. d = shown_configuration h d1 \<and> l = min l0 (of_nat (length d))
        else d = d1 \<and> l = l0"
    proof (cases "fl_stage f = ControlStatus")
      case True
      then have "l0 = 0" using fit(1,3) outcome_bounds(1) [OF out] by (simp add: stage_fits_def)
      then have "d1 = []" using \<open>length d1 \<le> unat l0\<close> by simp
      then show ?thesis using stage_effects_data [OF se] True \<open>l0 = 0\<close> by (simp add: exI)
    next
      case False
      then have "reads_configuration (sr_setup req) \<longleftrightarrow> fl_stage f = ControlData \<and> (\<exists>bs. kept_setup ep = Some bs \<and> reads_configuration bs)"
        using fit(1) by (cases "fl_stage f") (auto simp: stage_fits_def)
      then show ?thesis using stage_effects_data [OF se] by simp
    qed
    show ?thesis
    proof (cases res)
      case (Inl e)
      then have "delivered req res (m, s, [], 0)" "d1 = []" "l0 = 0" using o by (simp_all add: d1_def)
      then show ?thesis using conf by (auto split: if_splits)
    next
      case (Inr ret)
      then show ?thesis using o conf fit(2) by (auto simp: delivered_def d1_def Let_def split: if_splits prod.splits)
    qed
  qed
  then show thesis using ep1 ep' by (intro that [OF c]) auto
qed

section \<open>Traces\<close>

text \<open>
  \<open>L ch q req\<close> says that the request accepted on channel \<open>ch\<close> with sequence number \<open>q\<close> was sent as the same command
  as \<open>req\<close>. A URB in flight belongs to a channel that answers it; an entry of the log is
  the engine's own, or it is delivered for the reply on a channel. Only the oldest URB may be a stage of a
  control transfer.
\<close>

type_synonym ledger = "chan \<Rightarrow> u32 \<Rightarrow> SubmitRequest \<Rightarrow> bool"

definition flight_from ::
  "ledger \<Rightarrow> Shared \<Rightarrow> (chan \<times> EndpointKey \<times> u64) list \<Rightarrow> bytes option \<Rightarrow> InFlight \<Rightarrow> chan \<Rightarrow> bool" where
  "flight_from L st W su f ch \<longleftrightarrow> ch < next_chan st \<and>
     (\<exists>req. L ch (fl_seqnum f) req \<and> sr_direction req = fl_direction f \<and> sr_length req = fl_length f \<and>
        stage_fits su req (fl_stage f)) \<and>
     (\<forall>c k. (c, k, fl_token f) \<in> set W \<longrightarrow> c = ch) \<and>
     (\<forall>r. fl_result f = Some r \<longrightarrow> (ch, r) \<in> set (replies st))"

definition entry_from :: "ledger \<Rightarrow> Shared \<Rightarrow> completion \<Rightarrow> chan option \<Rightarrow> bool" where
  "entry_from L st e c =
     (case c of
        None \<Rightarrow> own_answer st e
      | Some ch \<Rightarrow> ch < next_chan st \<and> (\<exists>q req res. L ch q req \<and> (ch, res) \<in> set (replies st) \<and> delivered req res e))"

definition trace_ok ::
  "ledger \<Rightarrow> Shared \<Rightarrow> (chan \<times> EndpointKey \<times> u64) list \<Rightarrow> bytes option \<Rightarrow> completion list \<Rightarrow> InFlight list \<Rightarrow> bool" where
  "trace_ok L st W su es fs \<longleftrightarrow> (\<forall>f\<in>set (tl fs). \<not> is_control (fl_stage f)) \<and>
     (\<exists>cs ds. list_all2 (entry_from L st) es cs \<and> list_all2 (flight_from L st W su) fs ds \<and>
        sorted_wrt (<) (List.map_filter id cs @ ds))"

abbreviation ep_trace :: "ledger \<Rightarrow> Shared \<Rightarrow> (chan \<times> EndpointKey \<times> u64) list \<Rightarrow> ('r \<times> completion list) Endpoint \<Rightarrow> bool" where
  "ep_trace L st W ep \<equiv> trace_ok L st W (kept_setup ep) (snd (ep_ring ep)) (ep_in_flight ep)"

text \<open>What both sessions of two states have in common as far as traces go.\<close>

definition session_grows :: "Shared \<Rightarrow> Shared \<Rightarrow> bool" where
  "session_grows st st' \<longleftrightarrow> next_chan st \<le> next_chan st' \<and> set (replies st) \<subseteq> set (replies st') \<and>
     (closed st \<noteq> None \<longrightarrow> closed st' \<noteq> None)"

lemma session_grows_refl [simp]: "session_grows st st"
  by (simp add: session_grows_def)

lemma trace_nil [simp]: "trace_ok L st W su [] []"
  by (auto simp: trace_ok_def intro!: exI [of _ "[]"])

lemma tl_append_subset: "set (tl fs) \<subseteq> set (tl (fs @ gs))"
  by (cases fs) auto

lemma trace_prefix:
  assumes "trace_ok L st W su es (fs @ gs)"
  shows "trace_ok L st W su es fs"
proof -
  have "\<forall>f\<in>set (tl fs). \<not> is_control (fl_stage f)"
    using assms tl_append_subset [of fs gs] by (auto simp: trace_ok_def)
  moreover obtain cs ds ds' where "list_all2 (entry_from L st) es cs" "list_all2 (flight_from L st W su) fs ds"
    "sorted_wrt (<) (List.map_filter id cs @ ds @ ds')"
    using assms by (auto simp: trace_ok_def list_all2_append1)
  ultimately show ?thesis unfolding trace_ok_def sorted_wrt_append
    by (intro conjI exI [of _ cs] exI [of _ ds]) auto
qed

lemma trace_drop: "trace_ok L st W su es fs \<Longrightarrow> trace_ok L st W su' es []"
  using trace_prefix [of L st W su es "[]" fs] by (simp add: trace_ok_def)

lemma entries_mono:
  assumes "list_all2 (entry_from L st) es cs" "session_grows st st'" "\<And>ch q req. L ch q req \<Longrightarrow> L' ch q req"
  shows "list_all2 (entry_from L' st') es cs"
proof -
  have "entry_from L' st' e c" if "entry_from L st e c" for e c
  proof (cases c)
    case None
    with that assms(2) show ?thesis by (auto simp: entry_from_def own_answer_def session_grows_def)
  next
    case (Some ch)
    with that obtain q req res where "ch < next_chan st" "L ch q req" "(ch, res) \<in> set (replies st)" "delivered req res e"
      by (auto simp: entry_from_def)
    with assms(2,3) have "ch < next_chan st'" "L' ch q req" "(ch, res) \<in> set (replies st')" "delivered req res e"
      by (auto simp: session_grows_def)
    then show ?thesis unfolding entry_from_def Some by auto
  qed
  then show ?thesis by (rule list_all2_mono [OF assms(1)])
qed

lemma flights_mono:
  assumes "list_all2 (flight_from L st W su) fs ds" "session_grows st st'" "\<And>ch q req. L ch q req \<Longrightarrow> L' ch q req"
    and "\<And>f c k. f \<in> set fs \<Longrightarrow> (c, k, fl_token f) \<in> set W' \<Longrightarrow> (c, k, fl_token f) \<in> set W"
  shows "list_all2 (flight_from L' st' W' su) fs ds"
proof -
  have "flight_from L' st' W' su f c" if mem: "f \<in> set fs" and here: "flight_from L st W su f c" for f c
  proof -
    obtain req where f: "c < next_chan st" "L c (fl_seqnum f) req" "sr_direction req = fl_direction f"
        "sr_length req = fl_length f" "stage_fits su req (fl_stage f)"
      and w: "\<And>c' k. (c', k, fl_token f) \<in> set W \<Longrightarrow> c' = c" "\<And>r. fl_result f = Some r \<Longrightarrow> (c, r) \<in> set (replies st)"
      using here by (auto simp: flight_from_def)
    show ?thesis
      unfolding flight_from_def
    proof (intro conjI allI impI)
      show "c < next_chan st'" using f(1) assms(2) by (simp add: session_grows_def)
      show "\<exists>req. L' c (fl_seqnum f) req \<and> sr_direction req = fl_direction f \<and> sr_length req = fl_length f \<and>
          stage_fits su req (fl_stage f)" using f assms(3) by blast
      show "c' = c" if "(c', k, fl_token f) \<in> set W'" for c' k using w(1) assms(4) that mem by blast
      show "(c, r) \<in> set (replies st')" if "fl_result f = Some r" for r using w(2) assms(2) that by (auto simp: session_grows_def)
    qed
  qed
  then show ?thesis using list.rel_mono_strong [OF assms(1)] by blast
qed

lemma trace_mono:
  assumes "trace_ok L st W su es fs" "session_grows st st'" "\<And>ch q req. L ch q req \<Longrightarrow> L' ch q req"
    and "\<And>f c k. f \<in> set fs \<Longrightarrow> (c, k, fl_token f) \<in> set W' \<Longrightarrow> (c, k, fl_token f) \<in> set W"
  shows "trace_ok L' st' W' su es fs"
proof -
  obtain cs ds where t: "list_all2 (entry_from L st) es cs" "list_all2 (flight_from L st W su) fs ds"
    "sorted_wrt (<) (List.map_filter id cs @ ds)" using assms(1) by (auto simp: trace_ok_def)
  have "list_all2 (entry_from L' st') es cs" by (rule entries_mono [OF t(1) assms(2,3)])
  moreover have "list_all2 (flight_from L' st' W' su) fs ds" by (rule flights_mono [OF t(2) assms(2-4)])
  ultimately show ?thesis using t(3) assms(1) unfolding trace_ok_def by blast
qed

lemma trace_channels:
  assumes "list_all2 (entry_from L st) es cs" "list_all2 (flight_from L st W su) fs ds"
  shows "\<forall>c\<in>set (List.map_filter id cs @ ds). c < next_chan st"
proof -
  have "\<forall>c\<in>set (List.map_filter id cs). c < next_chan st"
    using assms(1) by (induction rule: list_all2_induct) (auto simp: List.map_filter_simps entry_from_def split: option.splits)
  moreover have "\<forall>c\<in>set ds. c < next_chan st"
    using assms(2) by (induction rule: list_all2_induct) (auto simp: flight_from_def)
  ultimately show ?thesis by auto
qed

lemma trace_own:
  assumes "trace_ok L st W su es []" "own_answer st e"
  shows "trace_ok L st W su' (es @ [e]) []"
proof -
  obtain cs where t: "list_all2 (entry_from L st) es cs" "sorted_wrt (<) (List.map_filter id cs)"
    using assms(1) by (auto simp: trace_ok_def)
  then have "list_all2 (entry_from L st) (es @ [e]) (cs @ [None])"
    using assms(2) by (simp add: list_all2_appendI entry_from_def)
  moreover have "List.map_filter id (cs @ [None :: chan option]) = List.map_filter id cs" by (simp add: List.map_filter_def)
  ultimately show ?thesis using t unfolding trace_ok_def by (intro conjI exI [of _ "cs @ [None]"] exI [of _ "[]"]) simp_all
qed

lemma flight_from_setup: "\<lbrakk>flight_from L st W su f ch; \<not> is_control (fl_stage f)\<rbrakk> \<Longrightarrow> flight_from L st W su' f ch"
  by (cases "fl_stage f") (auto simp: flight_from_def stage_fits_def)

lemma trace_deliver:
  assumes "trace_ok L st W su es (f # fs)" "fl_result f = Some res"
    and "\<And>req. \<lbrakk>stage_fits su req (fl_stage f); sr_direction req = fl_direction f; sr_length req = fl_length f\<rbrakk> \<Longrightarrow> delivered req res e"
  shows "trace_ok L st W su' (es @ [e]) fs"
proof -
  obtain cs d ds where t: "list_all2 (entry_from L st) es cs" "flight_from L st W su f d" "list_all2 (flight_from L st W su) fs ds"
    "sorted_wrt (<) (List.map_filter id cs @ d # ds)" and nc: "\<forall>g\<in>set fs. \<not> is_control (fl_stage g)"
    using assms(1) by (auto simp: trace_ok_def list_all2_Cons1)
  have "entry_from L st e (Some d)" using t(2) assms(2,3) by (fastforce simp: entry_from_def flight_from_def)
  then have "list_all2 (entry_from L st) (es @ [e]) (cs @ [Some d])" using t(1) by (simp add: list_all2_appendI)
  moreover have "List.map_filter id (cs @ [Some d]) = List.map_filter id cs @ [d]" by (simp add: List.map_filter_def)
  moreover have "list_all2 (flight_from L st W su') fs ds"
    by (rule list.rel_mono_strong [OF t(3)]) (use nc flight_from_setup in blast)
  moreover have "\<forall>g\<in>set (tl fs). \<not> is_control (fl_stage g)" using nc by (cases fs) auto
  ultimately show ?thesis using t(4) unfolding trace_ok_def
    by (intro conjI exI [of _ "cs @ [Some d]"] exI [of _ ds]) simp_all
qed

lemma trace_send:
  assumes "trace_ok L st W su es fs" "flight_from L st' W' su f (next_chan st)" "session_grows st st'"
    and "\<And>f c k. f \<in> set fs \<Longrightarrow> (c, k, fl_token f) \<in> set W' \<Longrightarrow> (c, k, fl_token f) \<in> set W"
    and "fs \<noteq> [] \<Longrightarrow> \<not> is_control (fl_stage f)"
  shows "trace_ok L st' W' su es (fs @ [f])"
proof -
  obtain cs ds where t: "list_all2 (entry_from L st) es cs" "list_all2 (flight_from L st W su) fs ds"
    "sorted_wrt (<) (List.map_filter id cs @ ds)" using assms(1) by (auto simp: trace_ok_def)
  have "list_all2 (entry_from L st') es cs" by (rule entries_mono [OF t(1) assms(3)])
  moreover have "list_all2 (flight_from L st' W' su) (fs @ [f]) (ds @ [next_chan st])"
    using flights_mono [OF t(2) assms(3), of L W'] assms(2,4) by (auto intro: list_all2_appendI)
  moreover have "sorted_wrt (<) (List.map_filter id cs @ ds @ [next_chan st])"
    using t(3) trace_channels [OF t(1,2)] by (auto simp: sorted_wrt_append)
  moreover have "\<forall>g\<in>set (tl (fs @ [f])). \<not> is_control (fl_stage g)"
    using assms(1,5) by (cases fs) (auto simp: trace_ok_def)
  ultimately show ?thesis unfolding trace_ok_def by blast
qed

text \<open>Results arrive; nothing else of a URB changes that matters here.\<close>

definition same_urb :: "InFlight \<Rightarrow> InFlight \<Rightarrow> bool" where
  "same_urb g f \<longleftrightarrow> fl_token g = fl_token f \<and> fl_seqnum g = fl_seqnum f \<and> fl_direction g = fl_direction f \<and>
     fl_length g = fl_length f \<and> fl_stage g = fl_stage f"

lemma same_urb_refl [simp]: "same_urb f f"
  by (simp add: same_urb_def)

lemma trace_mark:
  assumes "trace_ok L st W su es fs"
    "list_all2 (\<lambda>g f. same_urb g f \<and> (fl_result g = fl_result f \<or> (\<exists>ch res. (ch, fl_token f) \<in> C \<and>
         fl_result g = Some res \<and> (ch, res) \<in> set (replies st)))) gs fs"
    and "\<And>ch token. (ch, token) \<in> C \<Longrightarrow> \<exists>k. (ch, k, token) \<in> set W"
  shows "trace_ok L st W su es gs"
proof -
  obtain cs ds where t: "list_all2 (entry_from L st) es cs" "list_all2 (flight_from L st W su) fs ds"
    "sorted_wrt (<) (List.map_filter id cs @ ds)" using assms(1) by (auto simp: trace_ok_def)
  have "list_all2 (flight_from L st W su) gs ds"
    using assms(2) t(2) by (rule list_all2_trans [rotated]) (use assms(3) in \<open>fastforce simp: flight_from_def same_urb_def\<close>)
  moreover have "\<forall>g\<in>set (tl gs). \<not> is_control (fl_stage g)"
  proof -
    have "list_all2 (\<lambda>g f. fl_stage g = fl_stage f) gs fs" by (rule list_all2_mono [OF assms(2)]) (simp add: same_urb_def)
    then have "map fl_stage gs = map fl_stage fs" by (simp add: list_all2_conv_all_nth list_eq_iff_nth_eq)
    then have "fl_stage ` set (tl gs) = fl_stage ` set (tl fs)" by (metis list.set_map map_tl)
    then show ?thesis using assms(1) by (auto simp: trace_ok_def) (metis imageE imageI)+
  qed
  ultimately show ?thesis using t unfolding trace_ok_def by blast
qed

section \<open>What the calls of the engine do to a session\<close>

definition calls_only :: "Shared \<Rightarrow> Shared \<Rightarrow> bool" where
  "calls_only st st' \<longleftrightarrow> replies st' = replies st \<and> set (submits st) \<subseteq> set (submits st') \<and> next_chan st \<le> next_chan st' \<and>
     closed st' = closed st \<and> writer_open st' = writer_open st \<and> s_devid st' = s_devid st \<and> set (frames st) \<subseteq> set (frames st')"

lemma calls_grow: "calls_only st st' \<Longrightarrow> session_grows st st'"
  by (simp add: calls_only_def session_grows_def)

lemma calls_refl [simp]: "calls_only st st"
  by (simp add: calls_only_def)

lemma calls_trans: "\<lbrakk>calls_only a b; calls_only b c\<rbrakk> \<Longrightarrow> calls_only a c"
  by (auto simp: calls_only_def)

lemma submit_calls: "submit req st = Some (res, st') \<Longrightarrow> calls_only st st'"
proof (cases res)
  case (Inr qc)
  moreover assume "submit req st = Some (res, st')"
  ultimately have "submit req st = Some (Inr (fst qc, snd qc), st')" by simp
  from submit_Inr(4,5) [OF this] show ?thesis by (auto simp: calls_only_def send_frame_def)
qed (auto dest: submit_Inl)

lemma unlink_calls: "unlink t st = Some st' \<Longrightarrow> calls_only st st'"
  by (elim unlink_cases) (auto simp: calls_only_def send_frame_def)

lemma unlink_flights_calls: "unlink_flights fs st = Some st' \<Longrightarrow> calls_only st st'"
proof (induction fs arbitrary: st)
  case (Cons f fs)
  then show ?case
    by (cases "fl_result f = None") (auto simp: bind_eq_Some_conv intro: calls_trans unlink_calls)
qed simp

lemma pause_flights_calls:
  "pause_flights fs st = Some (gs, st') \<Longrightarrow> calls_only st st' \<and>
     list_all2 (\<lambda>g f. same_urb g f \<and> fl_result g = fl_result f) gs fs"
proof (induction fs arbitrary: st gs)
  case (Cons f fs)
  then show ?case
    by (cases "fl_result f = None \<and> \<not> fl_unlinking f")
      (fastforce simp: bind_eq_Some_conv same_urb_def split: if_splits intro: calls_trans unlink_calls)+
qed simp

section \<open>Every operation keeps the traces\<close>

text \<open>
  The ledger knows what the session waits for: a request whose frame is queued under the sequence number of a
  pending transfer was accepted on its channel. A session that is open has its writer.
\<close>

definition covers :: "ledger \<Rightarrow> Shared \<Rightarrow> bool" where
  "covers L st \<longleftrightarrow> (closed st = None \<longrightarrow> writer_open st) \<and>
     (\<forall>q p req. (q, p) \<in> set (submits st) \<longrightarrow> sized_cmd (cmd_of q (s_devid st) req) \<longrightarrow>
        CmdSubmit_encode (cmd_of q (s_devid st) req) [] \<in> set (frames st) \<longrightarrow> L (ps_reply p) q req)"

definition true_to :: "ledger \<Rightarrow> ('r \<times> completion list) Engine \<Rightarrow> bool" where
  "true_to L en \<longleftrightarrow> (\<forall>key ep. get_ep en key = Some ep \<longrightarrow>
     ep_trace L (en_session en) (en_waiters en) ep)"

definition tracks :: "('r \<times> completion list) Engine \<Rightarrow> ('r \<times> completion list) Engine \<Rightarrow> bool" where
  "tracks en en' \<longleftrightarrow> keeps_inv en en' \<and> calls_only (en_session en) (en_session en') \<and>
     (engine_inv en \<longrightarrow> few_transfers en' \<longrightarrow> (\<forall>L. covers L (en_session en') \<longrightarrow> true_to L en \<longrightarrow> true_to L en'))"

lemma true_toD:
  "\<lbrakk>true_to L en; get_ep en key = Some ep\<rbrakk> \<Longrightarrow> ep_trace L (en_session en) (en_waiters en) ep"
  unfolding true_to_def by blast

lemma covers_calls: "\<lbrakk>covers L st'; calls_only st st'\<rbrakk> \<Longrightarrow> covers L st"
  unfolding covers_def calls_only_def by (metis (no_types, lifting) subsetD)

lemma tracks_refl [simp]: "tracks en en"
  by (simp add: tracks_def)

lemma tracks_trans:
  assumes ab: "tracks a b" and bc: "tracks b c"
  shows "tracks a c"
proof -
  have k: "keeps_inv a b" "keeps_inv b c" and c: "calls_only (en_session a) (en_session b)" "calls_only (en_session b) (en_session c)"
    using ab bc by (simp_all add: tracks_def)
  have "true_to L c" if "engine_inv a" "few_transfers c" "covers L (en_session c)" "true_to L a" for L
  proof -
    have few: "few_transfers b" using that(2) k(2) by (simp add: few_transfers_def keeps_inv_def)
    have "engine_inv b" using k(1) that(1) few by (simp add: keeps_inv_def)
    moreover have "true_to L b" using ab that(1,4) few covers_calls [OF that(3) c(2)] by (simp add: tracks_def)
    ultimately show ?thesis using bc that(2,3) by (simp add: tracks_def)
  qed
  then show ?thesis using keeps_inv_trans [OF k] calls_trans [OF c] by (simp add: tracks_def)
qed

lemma tracks_shrink:
  assumes "keeps_inv en en'" "calls_only (en_session en) (en_session en')" "set (en_waiters en') \<subseteq> set (en_waiters en)"
    and ep: "\<And>k ep'. get_ep en' k = Some ep' \<Longrightarrow> snd (ep_ring ep') = [] \<and> ep_in_flight ep' = [] \<or>
      (\<exists>ep. get_ep en k = Some ep \<and> (\<forall>L. ep_trace L (en_session en) (en_waiters en) ep \<longrightarrow>
         ep_trace L (en_session en) (en_waiters en) ep'))"
  shows "tracks en en'"
  unfolding tracks_def
proof (intro conjI impI allI assms(1,2))
  fix L
  assume t: "true_to L en"
  have c: "session_grows (en_session en) (en_session en')" by (rule calls_grow [OF assms(2)])
  show "true_to L en'"
    unfolding true_to_def
  proof (intro allI impI)
    fix k ep'
    assume g: "get_ep en' k = Some ep'"
    have "ep_trace L (en_session en) (en_waiters en) ep'"
      using ep [OF g] true_toD [OF t] trace_nil by metis
    then show "ep_trace L (en_session en') (en_waiters en') ep'"
      by (rule trace_mono [OF _ c]) (use assms(3) in blast)+
  qed
qed

lemma tracks_put:
  assumes "get_ep en key = Some ep" "keeps_inv en en'" "calls_only (en_session en) (en_session en')"
    and "en_endpoints en' = en_endpoints (put_ep key ep' en)" "en_waiters en' = en_waiters en"
    and "\<And>L. ep_trace L (en_session en) (en_waiters en) ep \<Longrightarrow> ep_trace L (en_session en) (en_waiters en) ep'"
  shows "tracks en en'"
proof (rule tracks_shrink [OF assms(2,3)])
  show "set (en_waiters en') \<subseteq> set (en_waiters en)" using assms(5) by simp
  fix k e
  assume "get_ep en' k = Some e"
  then have "get_ep (put_ep key ep' en) k = Some e" by (simp add: assms(4))
  then show "snd (ep_ring e) = [] \<and> ep_in_flight e = [] \<or>
      (\<exists>ep. get_ep en k = Some ep \<and> (\<forall>L. ep_trace L (en_session en) (en_waiters en) ep \<longrightarrow>
         ep_trace L (en_session en) (en_waiters en) e))"
    using assms(1,6) by (auto split: if_splits)
qed

lemma tracks_submit:
  assumes s: "submit req (en_session en) = Some (Inr (q, c), st)" and g: "get_ep en key = Some ep"
    and k: "keeps_inv en en'"
    and f: "fl_token f = en_next_token en" "fl_seqnum f = q" "fl_direction f = sr_direction req"
      "fl_length f = sr_length req" "fl_result f = None"
    and fit: "stage_fits (kept_setup ep) req (fl_stage f)" "ep_in_flight ep \<noteq> [] \<Longrightarrow> \<not> is_control (fl_stage f)"
    and en': "en' = (put_ep key (ep\<lparr>ep_in_flight := ep_in_flight ep @ [f]\<rparr>) (en\<lparr>en_session := st\<rparr>))
          \<lparr>en_next_token := en_next_token en + 1,
           en_waiters := en_waiters en @ [(c, key, en_next_token en)]\<rparr>"
  shows "tracks en en'"
  unfolding tracks_def
proof (intro conjI impI allI k)
  show "calls_only (en_session en) (en_session en')" using submit_calls [OF s] by (simp add: en')
  fix L
  assume inv: "engine_inv en" and cov: "covers L (en_session en')" and t: "true_to L en"
  have mono: "session_grows (en_session en) st" by (rule calls_grow [OF submit_calls [OF s]])
  let ?W = "en_waiters en @ [(c, key, en_next_token en)]"
  have old: "(ch, k', fl_token h) \<in> set (en_waiters en)"
    if "get_ep en k = Some e" "h \<in> set (ep_in_flight e)" "(ch, k', fl_token h) \<in> set ?W" for k k' e h ch
  proof -
    have "flight_ok en k h" using engine_invD(4) [OF inv that(1)] that(2) by (simp add: endpoint_ok_def)
    then show ?thesis using that(3) by (auto simp: flight_ok_def)
  qed
  have new: "flight_from L st ?W (kept_setup ep) f (next_chan (en_session en))"
  proof -
    have "en_next_token en \<notin> (snd \<circ> snd) ` set (en_waiters en)"
      using engine_invD(3) [OF inv] by (auto simp: waiters_ok_def)
    moreover have "L c q req"
    proof -
      have "writer_open st" using cov submit_calls [OF s] submit_Inr(1) [OF s] by (simp add: covers_def en' calls_only_def)
      then have "CmdSubmit_encode (cmd_of q (s_devid st) req) [] \<in> set (frames st)"
        using submit_Inr(5) [OF s] submit_calls [OF s] by (simp add: send_frame_def calls_only_def)
      moreover have "sized_cmd (cmd_of q (s_devid st) req)"
        using fit(1) submit_Inr(6,7) [OF s]
        by (cases "sr_direction req") (simp_all add: sized_cmd_def cmd_of_def stage_fits_def Direction_as_u32_def)
      moreover have "(q, \<lparr>ps_direction = sr_direction req, ps_length = sr_length req, ps_reply = c\<rparr>) \<in> set (submits st)"
        using submit_Inr(5) [OF s] by simp
      ultimately show ?thesis using cov unfolding covers_def by (fastforce simp: en')
    qed
    ultimately show ?thesis using f fit(1) submit_Inr(4,5) [OF s] by (force simp: flight_from_def)
  qed
  show "true_to L en'"
    unfolding true_to_def
  proof (intro allI impI)
    fix k e
    assume e: "get_ep en' k = Some e"
    show "ep_trace L (en_session en') (en_waiters en') e"
    proof (cases "k = key")
      case True
      then have "e = ep\<lparr>ep_in_flight := ep_in_flight ep @ [f]\<rparr>" using e by (auto simp: en' put_ep_def update_conv')
      moreover have "trace_ok L st ?W (kept_setup ep) (snd (ep_ring ep)) (ep_in_flight ep @ [f])"
        by (rule trace_send [OF true_toD [OF t g] new mono old [OF g] fit(2)])
      ultimately show ?thesis by (simp add: en')
    next
      case False
      then have e: "get_ep en k = Some e" using e by (simp add: en' put_ep_def update_conv')
      then have "ep_trace L (en_session en) (en_waiters en) e" by (rule true_toD [OF t])
      then have "ep_trace L st ?W e"
        by (rule trace_mono [OF _ mono]) (assumption, rule old [OF e])
      then show ?thesis by (simp add: en')
    qed
  qed
qed

lemma submit_urb_tracks:
  assumes "submit_urb (logged ring) key m req stage ep en = Some (out, en')" "get_ep en key = Some ep"
    and "length (ep_in_flight ep) < depth (kind (ep_info ep))"
    and fit: "stage_fits (kept_setup ep) req stage" "ep_in_flight ep \<noteq> [] \<Longrightarrow> \<not> is_control stage"
  shows "tracks en en'"
proof -
  have k: "keeps_inv en en'" by (rule submit_urb_keeps [OF assms(1-3)])
  from assms(1) show ?thesis
  proof (cases rule: submit_urb_cases)
    case (accepted q c st)
    from tracks_submit [OF accepted(1) assms(2) k _ _ _ _ _ _ _ accepted(3)] fit show ?thesis by simp
  next
    case rejected
    then show ?thesis by simp
  next
    case (completed e ok r)
    then show ?thesis using k logged_complete [OF completed(3)]
      by (intro tracks_put [OF assms(2), of _ "ep\<lparr>ep_ring := r\<rparr>"]) (auto intro: trace_own submit_refused)
  qed
qed

lemma fill_tracks: "fill (logged ring) key en = Some (again, en') \<Longrightarrow> tracks en en'"
proof -
  assume f: "fill (logged ring) key en = Some (again, en')"
  have "tracks en (snd (again, en'))"
    using f
  proof (rule fill_rel [where R = tracks])
    fix a o' b
    assume "fill_round (logged ring) key a = Some (o', b)"
    then show "tracks a b"
    proof (cases rule: fill_round_cases)
      case (sent ep m t req stage)
      then show ?thesis using data_request_fits [OF sent(6)] by (intro submit_urb_tracks [OF sent(7,1,3)]) auto
    qed simp_all
  qed (rule tracks_trans)
  then show ?thesis by simp
qed

lemma pump_round_tracks:
  assumes "pump_round (logged ring) key offline en = Some (again, en')"
  shows "tracks en en'"
proof -
  have k: "keeps_inv en en'" by (rule pump_round_keeps [OF assms])
  from assms show ?thesis
  proof (cases rule: pump_round_cases)
    case (give_up ep f fs)
    then obtain st where st: "unlink_flights (f # fs) (en_session en) = Some st"
      and en': "en' = (put_ep key (ep\<lparr>ep_in_flight := []\<rparr>) en)\<lparr>en_session := st\<rparr>"
      by (auto simp: unlink_all_Some)
    show ?thesis using k unlink_flights_calls [OF st]
      by (intro tracks_put [OF give_up(1), of _ "ep\<lparr>ep_in_flight := []\<rparr>"]) (auto simp: en' dest: trace_drop)
  next
    case (deliver ep f fs res flow ep' w)
    obtain s d l ok r where ap: "ring_complete (logged ring) (ep_ring ep) s d l = (ok, r)" "ep_ring ep' = r"
      "ep_in_flight ep' = fs" and del: "\<And>m req. \<lbrakk>stage_fits (kept_setup ep) req (fl_stage f); sr_direction req = fl_direction f;
        sr_length req = fl_length f\<rbrakk> \<Longrightarrow> delivered req res (m, s, d, l)"
      by (rule apply_flight_delivers [OF deliver(6)]) simp
    have "ep_trace L st W ep'" if "ep_trace L st W ep" for L st W
      unfolding ap(2,3) logged_complete [OF ap(1)]
      by (rule trace_deliver [OF that [unfolded deliver(3)] deliver(5) del])
    then show ?thesis using k deliver(7) by (intro tracks_put [OF deliver(1), of _ ep']) simp_all
  next
    case (own ep head t ep' ok)
    have ns: "\<And>req stage. (if ok then NContinue else NStop) \<noteq> NSubmit req stage" by simp
    have "ep_trace L st W ep'" if e: "ep_trace L st W ep" for L st W
      using own(6) ns
    proof (cases rule: head_request_own)
      case (answer status su ok' r)
      then have "own_answer st (ring_current (logged ring) (ep_ring ep), status, [], 0)"
        using own(4) by (auto simp: own_answer_def)
      from trace_own [OF e [unfolded own(3)] this] show ?thesis
        using logged_complete [OF answer(1)] own(3) by (simp add: answer(2))
    qed (use e in \<open>auto split: if_splits\<close>)
    then show ?thesis using own(1,7) k by (intro tracks_put [of en key ep _ ep']) simp_all
  next
    case (submit ep head t req stage out en1)
    have t1: "tracks en en1"
      using submit(3) depth_pos head_request_fits [OF submit(6)] by (intro submit_urb_tracks [OF submit(7,1)]) simp_all
    show ?thesis
    proof (cases out)
      case SInFlight
      then obtain b where "fill (logged ring) key en1 = Some (b, en')" using submit(8) by auto
      with t1 fill_tracks tracks_trans show ?thesis by blast
    qed (use submit(8) t1 in auto)
  qed (auto intro: fill_tracks)
qed

lemma pump_tracks: "pump (logged ring) key offline en = Some en' \<Longrightarrow> tracks en en'"
  by (erule pump_rel [where R = tracks]) (auto intro: pump_round_tracks tracks_trans)

lemma finish_tracks:
  assumes "finish (logged ring) key token res (en\<lparr>en_waiters := remove1 (ch, key, token) (en_waiters en)\<rparr>) = Some en'"
    and w: "(ch, key, token) \<in> set (en_waiters en)" "(ch, res) \<in> set (replies (en_session en))"
  shows "tracks en en'"
proof -
  have sub: "set (remove1 (ch, key, token) (en_waiters en)) \<subseteq> set (en_waiters en)" by (rule set_remove1_subset)
  from assms(1) show ?thesis
  proof (cases rule: finish_split)
    case stale
    then show ?thesis using sub by (intro tracks_shrink) auto
  next
    case (retry ep before later st e)
    have "tracks en e"
      by (rule tracks_shrink [OF retry(6)]) (use retry unlink_flights_calls sub in \<open>auto dest: trace_prefix split: if_splits\<close>)
    then show ?thesis using pump_tracks [OF retry(7)] tracks_trans by blast
  next
    case (answer ep before f later e)
    have "trace_ok L (en_session en) (en_waiters en) su es (before @ f\<lparr>fl_result := Some res\<rparr> # later)"
      if "trace_ok L (en_session en) (en_waiters en) su es (before @ f # later)" for L su es
    proof (rule trace_mark [OF that, where C = "{(ch, token)}"])
      show "\<exists>k. (c, k, t) \<in> set (en_waiters en)" if "(c, t) \<in> {(ch, token)}" for c t using that w(1) by blast
    qed (use w(2) answer(3) in \<open>auto simp: same_urb_def intro!: list_all2_appendI list.rel_refl\<close>)
    then have "tracks en e"
      by (intro tracks_shrink [OF answer(5)]) (use answer sub in \<open>auto split: if_splits\<close>)
    then show ?thesis using pump_tracks [OF answer(6)] tracks_trans by blast
  qed
qed

section \<open>The other operations\<close>

lemma tracks_unlink:
  assumes "unlink_all fs en1 = Some en'" "keeps_inv en en'" "en_session en1 = en_session en" "en_waiters en1 = en_waiters en"
    and "\<And>k ep'. get_ep en1 k = Some ep' \<Longrightarrow> snd (ep_ring ep') = [] \<and> ep_in_flight ep' = [] \<or>
      (\<exists>ep. get_ep en k = Some ep \<and> snd (ep_ring ep') = snd (ep_ring ep) \<and>
        (ep_in_flight ep' = ep_in_flight ep \<and> ep_setup ep' = ep_setup ep \<or> ep_in_flight ep' = []))"
  shows "tracks en en'"
proof -
  obtain st where st: "unlink_flights fs (en_session en1) = Some st" and en': "en' = en1\<lparr>en_session := st\<rparr>"
    using assms(1) by (auto simp: unlink_all_Some)
  show ?thesis
  proof (rule tracks_shrink [OF assms(2)])
    fix k ep'
    assume "get_ep en' k = Some ep'"
    then have "get_ep en1 k = Some ep'" by (simp add: en')
    from assms(5) [OF this] show "snd (ep_ring ep') = [] \<and> ep_in_flight ep' = [] \<or>
      (\<exists>ep. get_ep en k = Some ep \<and> (\<forall>L. ep_trace L (en_session en) (en_waiters en) ep \<longrightarrow>
         ep_trace L (en_session en) (en_waiters en) ep'))"
      using trace_drop by metis
  qed (use unlink_flights_calls [OF st] assms(3,4) in \<open>simp_all add: en'\<close>)
qed

lemma add_endpoint_tracks:
  assumes "add_endpoint key info (r, []) en = Some en'"
  shows "tracks en en'"
proof -
  let ?ep = "\<lparr>ep_ring = (r, []), ep_info = info, ep_in_flight = [], ep_setup = None, ep_hidden_config = None\<rparr>"
  have k: "keeps_inv en en'" by (rule add_endpoint_keeps [OF assms])
  show ?thesis
  proof (cases "get_ep en key")
    case None
    then have en': "en' = put_ep key ?ep en" using assms by (simp add: add_endpoint_def)
    show ?thesis by (rule tracks_shrink [OF k]) (auto simp: en' split: if_splits)
  next
    case (Some old)
    then have "unlink_all (ep_in_flight old) (put_ep key ?ep en) = Some en'" using assms by (simp add: add_endpoint_def)
    then show ?thesis using k by (rule tracks_unlink) (auto split: if_splits)
  qed
qed

lemma remove_endpoint_tracks:
  assumes "remove_endpoint key en = Some en'"
  shows "tracks en en'"
proof (cases "get_ep en key")
  case (Some ep)
  then have "unlink_all (ep_in_flight ep) (en\<lparr>en_endpoints := AList.delete key (en_endpoints en)\<rparr>) = Some en'"
    using assms by (simp add: remove_endpoint_def)
  then show ?thesis using remove_endpoint_keeps [OF assms]
    by (rule tracks_unlink) (auto simp: delete_conv' split: if_splits)
qed (use assms in \<open>simp add: remove_endpoint_def\<close>)

lemma unlink_each_calls:
  "unlink_each eps en = Some en' \<Longrightarrow> calls_only (en_session en) (en_session en') \<and> en' = en\<lparr>en_session := en_session en'\<rparr>"
proof (induction eps arbitrary: en)
  case (Cons ep eps)
  then obtain st1 where st1: "unlink_flights (ep_in_flight ep) (en_session en) = Some st1"
    and rest: "unlink_each eps (en\<lparr>en_session := st1\<rparr>) = Some en'"
    by (auto simp: bind_eq_Some_conv unlink_all_def)
  from Cons.IH [OF rest] unlink_flights_calls [OF st1] calls_trans show ?case by fastforce
qed simp

lemma remove_device_tracks:
  assumes "remove_device d en = Some en'"
  shows "tracks en en'"
proof -
  let ?en = "en\<lparr>en_endpoints := filter (\<lambda>p. fst (fst p) \<noteq> d) (en_endpoints en)\<rparr>"
  have c: "calls_only (en_session en) (en_session en')" and en': "en' = ?en\<lparr>en_session := en_session en'\<rparr>"
    using assms unlink_each_calls unfolding remove_device_def Let_def by fastforce+
  show ?thesis
  proof (rule tracks_shrink [OF remove_device_keeps [OF assms] c])
    show "set (en_waiters en') \<subseteq> set (en_waiters en)" by (subst en') simp
    fix k ep'
    assume "get_ep en' k = Some ep'"
    then have "map_of (filter (\<lambda>p. fst (fst p) \<noteq> d) (en_endpoints en)) k = Some ep'" by (subst (asm) en') simp
    then have "get_ep en k = Some ep'"
      using map_of_filter_key [of "\<lambda>k. fst k \<noteq> d"] by (metis option.distinct(1))
    then show "snd (ep_ring ep') = [] \<and> ep_in_flight ep' = [] \<or>
      (\<exists>ep. get_ep en k = Some ep \<and> (\<forall>L. ep_trace L (en_session en) (en_waiters en) ep \<longrightarrow>
         ep_trace L (en_session en) (en_waiters en) ep'))" by blast
  qed
qed

lemma reset_endpoint_tracks:
  assumes "reset_endpoint key en = Some en'"
  shows "tracks en en'"
proof (cases "get_ep en key")
  case (Some ep)
  then have "unlink_all (ep_in_flight ep) (put_ep key (ep\<lparr>ep_setup := None, ep_in_flight := []\<rparr>) en) = Some en'"
    using assms by (simp add: reset_endpoint_def)
  then show ?thesis using reset_endpoint_keeps [OF assms] by (rule tracks_unlink) (use Some in \<open>auto split: if_splits\<close>)
qed (use assms in \<open>simp add: reset_endpoint_def\<close>)

lemma sync_endpoint_tracks:
  assumes "sync_endpoint ring key en = Some en'"
  shows "tracks en en'"
proof (cases "get_ep en key")
  case (Some ep)
  show ?thesis
  proof (cases "ep_in_flight ep \<noteq> [] \<and> fl_message (hd (ep_in_flight ep)) \<noteq> fst (ring_current ring (ep_ring ep))")
    case True
    then have "unlink_all (ep_in_flight ep) (put_ep key (ep\<lparr>ep_in_flight := []\<rparr>) en) = Some en'"
      using assms Some by (simp add: sync_endpoint_def Let_def)
    then show ?thesis using sync_endpoint_keeps [OF assms] by (rule tracks_unlink) (use Some in \<open>auto split: if_splits\<close>)
  next
    case False
    then have "en' = en" using assms Some by (auto simp: sync_endpoint_def Let_def)
    then show ?thesis by simp
  qed
qed (use assms in \<open>simp add: sync_endpoint_def\<close>)

lemma pause_endpoint_tracks:
  assumes "pause_endpoint key en = Some en'"
  shows "tracks en en'"
proof (cases "snd key AND 0x80 = 0 \<or> snd key AND 0x7f = 0 \<or> get_ep en key = None")
  case True
  with assms have "en' = en" by (auto simp: pause_endpoint_def split: if_splits)
  then show ?thesis by simp
next
  case False
  then obtain ep where ep: "get_ep en key = Some ep" by auto
  obtain fs st where p: "pause_flights (ep_in_flight ep) (en_session en) = Some (fs, st)"
    and en': "en' = (put_ep key (ep\<lparr>ep_in_flight := fs\<rparr>) en)\<lparr>en_session := st\<rparr>"
    using assms False ep by (auto simp: pause_endpoint_def bind_eq_Some_conv)
  have "trace_ok L st' W su es fs" if "trace_ok L st' W su es (ep_in_flight ep)" for L st' W su es
    by (rule trace_mark [OF that, where C = "{}"]) (use pause_flights_calls [OF p] in \<open>auto elim: list_all2_mono\<close>)
  then show ?thesis using pause_flights_calls [OF p] pause_endpoint_keeps [OF assms]
    by (intro tracks_put [OF ep, of _ "ep\<lparr>ep_in_flight := fs\<rparr>"]) (simp_all add: en')
qed

lemma update_endpoint_tracks: "tracks en (update_endpoint key info en)"
proof (cases "get_ep en key")
  case (Some ep)
  then show ?thesis using update_endpoint_keeps [of en key info]
    by (intro tracks_put [OF Some, of _ "ep\<lparr>ep_info := info\<rparr>"]) (simp_all add: update_endpoint_def)
qed (simp add: update_endpoint_def)

section \<open>The engine between the host and the session\<close>

text \<open>
  The public operations of the engine, a reply that the executor finishes, and the host changing a
  ring; a new endpoint begins with an empty log, and the host does not touch the log.
\<close>

inductive engine_op :: "'r Ring \<Rightarrow> ('r \<times> completion list) Engine \<Rightarrow> ('r \<times> completion list) Engine \<Rightarrow> bool" for ring where
  add: "add_endpoint key info (r, []) en = Some en' \<Longrightarrow> engine_op ring en en'"
| update: "engine_op ring en (update_endpoint key info en)"
| remove: "remove_endpoint key en = Some en' \<Longrightarrow> engine_op ring en en'"
| remove_dev: "remove_device d en = Some en' \<Longrightarrow> engine_op ring en en'"
| reset: "reset_endpoint key en = Some en' \<Longrightarrow> engine_op ring en en'"
| pause: "pause_endpoint key en = Some en' \<Longrightarrow> engine_op ring en en'"
| sync: "sync_endpoint (logged ring) key en = Some en' \<Longrightarrow> engine_op ring en en'"
| bell: "doorbell (logged ring) key en = Some en' \<Longrightarrow> engine_op ring en en'"
| finished: "\<lbrakk>(ch, key, token) \<in> set (en_waiters en); (ch, res) \<in> set (replies (en_session en));
    finish (logged ring) key token res (en\<lparr>en_waiters := remove1 (ch, key, token) (en_waiters en)\<rparr>) = Some en'\<rbrakk> \<Longrightarrow>
    engine_op ring en en'"
| host: "get_ep en key = Some ep \<Longrightarrow> engine_op ring en (put_ep key (ep\<lparr>ep_ring := (r, snd (ep_ring ep))\<rparr>) en)"

lemma engine_op_step: "engine_op ring en en' \<Longrightarrow> engine_step (logged ring) en en'"
  by (induction rule: engine_op.induct) (blast intro: engine_step.intros)+

lemma engine_op_tracks: "engine_op ring en en' \<Longrightarrow> tracks en en'"
proof (induction rule: engine_op.induct)
  case (bell key en en')
  then show ?case by (simp add: doorbell_def pump_tracks)
next
  case (host en key ep r)
  have "engine_step (logged ring) en (put_ep key (ep\<lparr>ep_ring := (r, snd (ep_ring ep))\<rparr>) en)"
    by (rule engine_step.host [OF host])
  from tracks_put [OF host engine_step_keeps [OF this], of "ep\<lparr>ep_ring := (r, snd (ep_ring ep))\<rparr>"] show ?case by simp
qed (auto intro: add_endpoint_tracks update_endpoint_tracks remove_endpoint_tracks remove_device_tracks
    reset_endpoint_tracks pause_endpoint_tracks sync_endpoint_tracks finish_tracks)

section \<open>Every operation is a sequence of calls\<close>

inductive session_call :: "Shared \<Rightarrow> Shared \<Rightarrow> bool" where
  submitted: "submit req st = Some (res, st') \<Longrightarrow> session_call st st'"
| unlinked: "unlink t st = Some st' \<Longrightarrow> session_call st st'"

abbreviation by_calls :: "'r Engine \<Rightarrow> 'r Engine \<Rightarrow> bool" where
  "by_calls en en' \<equiv> session_call\<^sup>*\<^sup>* (en_session en) (en_session en')"

lemma unlink_flights_by_calls: "unlink_flights fs st = Some st' \<Longrightarrow> session_call\<^sup>*\<^sup>* st st'"
proof (induction fs arbitrary: st)
  case (Cons f fs)
  then show ?case
    by (cases "fl_result f = None")
      (auto simp: bind_eq_Some_conv intro: session_call.unlinked converse_rtranclp_into_rtranclp)
qed simp

lemma unlink_all_by_calls: "unlink_all fs en = Some en' \<Longrightarrow> by_calls en en'"
  by (auto simp: unlink_all_Some intro: unlink_flights_by_calls)

lemma unlink_each_by_calls: "unlink_each eps en = Some en' \<Longrightarrow> by_calls en en'"
  by (induction eps arbitrary: en) (auto simp: bind_eq_Some_conv intro: rtranclp_trans unlink_all_by_calls)

lemma pause_flights_by_calls: "pause_flights fs st = Some (gs, st') \<Longrightarrow> session_call\<^sup>*\<^sup>* st st'"
proof (induction fs arbitrary: st gs)
  case (Cons f fs)
  then show ?case
    by (cases "fl_result f = None \<and> \<not> fl_unlinking f")
      (auto simp: bind_eq_Some_conv split: if_splits intro: session_call.unlinked converse_rtranclp_into_rtranclp)
qed simp

lemma submit_urb_by_calls: "submit_urb ring key m req stage ep en = Some (out, en') \<Longrightarrow> by_calls en en'"
  by (erule submit_urb_cases) (auto intro: session_call.submitted)

lemma fill_by_calls: "fill ring key en = Some (again, en') \<Longrightarrow> by_calls en en'"
proof -
  assume "fill ring key en = Some (again, en')"
  then have "by_calls en (snd (again, en'))"
  proof (rule fill_rel [where R = by_calls])
    fix a o' b
    assume "fill_round ring key a = Some (o', b)"
    then show "by_calls a b" by (cases rule: fill_round_cases) (auto intro: submit_urb_by_calls)
  qed (rule rtranclp_trans)
  then show ?thesis by simp
qed

lemma pump_round_by_calls:
  assumes "pump_round ring key offline en = Some (again, en')"
  shows "by_calls en en'"
  using assms
proof (cases rule: pump_round_cases)
  case (give_up ep f fs)
  then show ?thesis using unlink_all_by_calls [OF give_up(5)] by simp
next
  case (submit ep head t req stage out en1)
  have c: "by_calls en en1" using submit_urb_by_calls [OF submit(7)] .
  show ?thesis
  proof (cases out)
    case SInFlight
    then obtain b where "fill ring key en1 = Some (b, en')" using submit(8) by auto
    with c fill_by_calls show ?thesis by (blast intro: rtranclp_trans)
  qed (use submit(8) c in auto)
qed (auto intro: fill_by_calls)

lemma pump_by_calls: "pump ring key offline en = Some en' \<Longrightarrow> by_calls en en'"
  by (erule pump_rel [where R = by_calls]) (auto intro: pump_round_by_calls rtranclp_trans)

lemma finish_by_calls:
  assumes "finish ring key token res (en\<lparr>en_waiters := remove1 (ch, key, token) (en_waiters en)\<rparr>) = Some en'"
  shows "by_calls en en'"
  using assms
proof (cases rule: finish_split)
  case (retry ep before later st e)
  then show ?thesis using unlink_flights_by_calls [OF retry(4)] pump_by_calls [OF retry(7)] by (auto intro: rtranclp_trans)
next
  case (answer ep before f later e)
  then show ?thesis using pump_by_calls [OF answer(6)] by simp
qed simp

lemma engine_op_by_calls: "engine_op ring en en' \<Longrightarrow> by_calls en en'"
proof (induction rule: engine_op.induct)
  case (add key info r en en')
  then show ?case by (auto simp: add_endpoint_def Let_def split: option.splits dest!: unlink_all_by_calls)
next
  case (update en key info)
  then show ?case by (simp add: update_endpoint_def split: option.splits)
next
  case (remove key en en')
  then show ?case by (auto simp: remove_endpoint_def split: option.splits dest!: unlink_all_by_calls)
next
  case (remove_dev d en en')
  then show ?case by (auto simp: remove_device_def Let_def dest!: unlink_each_by_calls)
next
  case (reset key en en')
  then show ?case by (auto simp: reset_endpoint_def split: option.splits dest!: unlink_all_by_calls)
next
  case (pause key en en')
  then show ?case
    by (auto simp: pause_endpoint_def bind_eq_Some_conv split: option.splits if_splits dest: pause_flights_by_calls)
next
  case (sync key en en')
  then show ?case by (auto simp: sync_endpoint_def Let_def split: option.splits if_splits dest!: unlink_all_by_calls)
next
  case (bell key en en')
  then show ?case by (simp add: doorbell_def pump_by_calls)
qed (auto intro: finish_by_calls)

end
