(* ===== verification/Fake_Ring.thy ===== *)
theory Fake_Ring
  imports Engine_System
begin

text \<open>
  The ring held in memory (\<open>src/tests/support/mod.rs\<close>) as an instance of the \<open>Ring\<close> interface:
  a queue of messages with their buffers, the messages completed so far, and a flag that stands
  for the assertions of \<open>complete\<close>. It interprets the locale of rings whose completed messages leave
  the ring, and the rules of the engine keep its flag unset. The assertion of \<open>read\<close>, that there is a
  message, has no flag, since reading gives only bytes: instead the engine is shown to do the same
  whatever a read without a message gives, so it makes none.
\<close>

section \<open>A ring held in memory\<close>

record Completed =
  cp_transfer :: Transfer
  cp_status :: Status
  cp_length :: u32
  cp_buffer :: bytes

record FakeRing =
  fr_queue :: "(Transfer \<times> bytes) list"
  fr_head_id :: u64
  fr_completed :: "Completed list"
  fr_active :: bool
  fr_reject :: bool
  fr_panicked :: bool

definition FakeRing_new :: FakeRing where
  "FakeRing_new = \<lparr>fr_queue = [], fr_head_id = 0, fr_completed = [], fr_active = True,
     fr_reject = False, fr_panicked = False\<rparr>"

definition FakeRing_push :: "Transfer \<Rightarrow> bytes \<Rightarrow> FakeRing \<Rightarrow> FakeRing" where
  "FakeRing_push t buf r = r\<lparr>fr_queue := fr_queue r @ [(t, buf)]\<rparr>"

definition skip_head :: "FakeRing \<Rightarrow> FakeRing" where
  "skip_head r = r\<lparr>fr_queue := tl (fr_queue r), fr_head_id := fr_head_id r + 1\<rparr>"

definition fr_current :: "FakeRing \<Rightarrow> u64 \<times> Transfer option" where
  "fr_current r = (fr_head_id r, case fr_queue r of [] \<Rightarrow> None | m # _ \<Rightarrow> Some (fst m))"

definition fr_peek :: "FakeRing \<Rightarrow> nat \<Rightarrow> (u64 \<times> Transfer) option" where
  "fr_peek r ahead =
     (if ahead < length (fr_queue r) then
        (case fst (fr_queue r ! ahead) of
           TLink _ \<Rightarrow> None
         | t \<Rightarrow> Some (fr_head_id r + of_nat ahead, t))
      else None)"

text \<open>\<open>read\<close> panics when there is no such message; here it gives nothing then.\<close>

definition fr_read :: "FakeRing \<Rightarrow> nat \<Rightarrow> nat \<Rightarrow> bytes" where
  "fr_read r ahead len =
     (if ahead < length (fr_queue r)
      then let buf = snd (fr_queue r ! ahead) in take (min len (length buf)) buf
      else [])"

definition fr_complete :: "FakeRing \<Rightarrow> Status \<Rightarrow> bytes \<Rightarrow> u32 \<Rightarrow> bool \<times> FakeRing" where
  "fr_complete r status data len =
     (if fr_reject r \<or> \<not> fr_active r then (False, r)
      else case fr_queue r of
        [] \<Rightarrow> (False, r\<lparr>fr_panicked := True\<rparr>)
      | (transfer, buf) # q \<Rightarrow>
          let r = r\<lparr>fr_queue := q, fr_head_id := fr_head_id r + 1\<rparr>
          in if length buf < length data then (False, r\<lparr>fr_panicked := True\<rparr>)
             else (True, r\<lparr>fr_completed := fr_completed r @
                     [\<lparr>cp_transfer = transfer, cp_status = status, cp_length = len,
                       cp_buffer = data @ drop (length data) buf\<rparr>]\<rparr>))"

definition fake_ring :: "FakeRing Ring" where
  "fake_ring = \<lparr>ring_active = fr_active, ring_current = fr_current, ring_peek = fr_peek,
     ring_read = fr_read, ring_complete = fr_complete\<rparr>"

lemma fake_ring_simps [simp]:
  "ring_active fake_ring = fr_active" "ring_current fake_ring = fr_current"
  "ring_peek fake_ring = fr_peek" "ring_read fake_ring = fr_read"
  "ring_complete fake_ring = fr_complete"
  by (simp_all add: fake_ring_def)

interpretation fake: transfer_ring fake_ring "\<lambda>r. length (fr_queue r)"
  by unfold_locales (auto simp: fr_complete_def Let_def split: if_splits list.splits)

text \<open>
  The ring and the URBs in flight fit: every buffer holds the message's length, every URB belongs
  to a message that is in the ring or has left it, and asks for at most its length.
\<close>

definition fake_ok :: "FakeRing Endpoint \<Rightarrow> bool" where
  "fake_ok ep \<longleftrightarrow>
     (let r = ep_ring ep; q = fr_queue r; h = unat (fr_head_id r) in
      \<not> fr_panicked r \<and> h + length q < 2 ^ 64 \<and>
      (\<forall>m\<in>set q. unat (message_length (fst m)) \<le> length (snd m)) \<and>
      (\<forall>f\<in>set (ep_in_flight ep). unat (fl_message f) < h + length q \<and>
         (h \<le> unat (fl_message f) \<longrightarrow>
            fl_length f \<le> message_length (fst (q ! (unat (fl_message f) - h))))))"

lemma unat_plus_of_nat:
  "unat (w :: u64) + n < 2 ^ 64 \<Longrightarrow> unat (w + of_nat n) = unat w + n"
  by (simp add: unat_word_ariths unat_of_nat)

lemma fake_ok_pop:
  assumes ok: "fake_ok ep" and q: "fr_queue (ep_ring ep) = (t, buf) # q"
    and fs: "set (ep_in_flight ep') \<subseteq> set (ep_in_flight ep)"
    and r: "fr_queue (ep_ring ep') = q" "fr_head_id (ep_ring ep') = fr_head_id (ep_ring ep) + 1"
      "\<not> fr_panicked (ep_ring ep')"
  shows "fake_ok ep'"
proof -
  let ?h = "unat (fr_head_id (ep_ring ep))"
  have b: "?h + length q + 1 < 2 ^ 64" using ok q by (simp add: fake_ok_def Let_def)
  then have h: "unat (fr_head_id (ep_ring ep) + 1) = Suc ?h"
    using unat_plus_of_nat [of "fr_head_id (ep_ring ep)" 1] by simp
  have "unat (fl_message f) < Suc ?h + length q \<and> (Suc ?h \<le> unat (fl_message f) \<longrightarrow>
      fl_length f \<le> message_length (fst (q ! (unat (fl_message f) - Suc ?h))))"
    if "f \<in> set (ep_in_flight ep')" for f
  proof -
    have "f \<in> set (ep_in_flight ep)" using fs that by auto
    then have "unat (fl_message f) < ?h + length ((t, buf) # q)"
      "?h \<le> unat (fl_message f) \<longrightarrow> fl_length f \<le> message_length (fst (((t, buf) # q) ! (unat (fl_message f) - ?h)))"
      using ok unfolding fake_ok_def Let_def q by blast+
    then show ?thesis by (auto simp: nth_Cons')
  qed
  then show ?thesis using ok q r b by (simp add: fake_ok_def Let_def h)
qed

lemma fake_ok_complete:
  assumes ok: "fake_ok ep" and c: "fr_complete (ep_ring ep) status data len = (done, r)"
    and ne: "fr_queue (ep_ring ep) \<noteq> []"
    and fit: "length data \<le> length (snd (hd (fr_queue (ep_ring ep))))"
    and ep': "ep_ring ep' = r" "set (ep_in_flight ep') \<subseteq> set (ep_in_flight ep)"
  shows "fake_ok ep'"
proof (cases "fr_reject (ep_ring ep) \<or> \<not> fr_active (ep_ring ep)")
  case True
  then have "r = ep_ring ep" using c by (auto simp: fr_complete_def)
  with ok ep' show ?thesis by (auto simp: fake_ok_def Let_def)
next
  case False
  obtain t buf q where q: "fr_queue (ep_ring ep) = (t, buf) # q" using ne by (cases "fr_queue (ep_ring ep)") auto
  have "\<not> length buf < length data" using fit q by simp
  then have r: "fr_queue r = q" "fr_head_id r = fr_head_id (ep_ring ep) + 1" "fr_panicked r = fr_panicked (ep_ring ep)"
    using c False q by (auto simp: fr_complete_def Let_def)
  have "\<not> fr_panicked (ep_ring ep)" using ok by (simp add: fake_ok_def Let_def)
  with r ep' show ?thesis by (intro fake_ok_pop [OF ok q]) auto
qed

lemma fake_ok_step: "\<lbrakk>ep_step fake_ring ep ep'; fake_ok ep\<rbrakk> \<Longrightarrow> fake_ok ep'"
proof (induction rule: ep_step.induct)
  case (give_up ep f fs)
  then show ?case by (simp add: fake_ok_def Let_def)
next
  case (deliver ep f fs res data len ok r s h)
  let ?r = "ep_ring ep"
  have f: "unat (fl_message f) < unat (fr_head_id ?r) + length (fr_queue ?r)"
    "fl_length f \<le> message_length (fst (fr_queue ?r ! 0))"
    and buf: "\<forall>m\<in>set (fr_queue ?r). unat (message_length (fst m)) \<le> length (snd m)"
    using deliver by (auto simp: fake_ok_def Let_def fr_current_def)
  then have ne: "fr_queue ?r \<noteq> []" using deliver(3) by (auto simp: fr_current_def)
  have "unat len \<le> unat (message_length (fst (hd (fr_queue ?r))))"
    using deliver(7) f(2) ne by (simp add: word_le_nat_alt hd_conv_nth)
  also have "\<dots> \<le> length (snd (hd (fr_queue ?r)))" using buf ne by simp
  finally have "length data \<le> length (snd (hd (fr_queue ?r)))" using deliver(6) by simp
  then show ?case
    using deliver by (intro fake_ok_complete [OF \<open>fake_ok ep\<close> _ ne]) auto
next
  case (acknowledge ep head t status ok r s)
  have ne: "fr_queue (ep_ring ep) \<noteq> []"
    using acknowledge(3) by (auto simp: fr_current_def split: list.splits)
  show ?case using acknowledge by (intro fake_ok_complete [OF \<open>fake_ok ep\<close> _ ne]) auto
next
  case (send ep f t)
  let ?r = "ep_ring ep" and ?n = "length (ep_in_flight ep)"
  have b: "unat (fr_head_id ?r) + length (fr_queue ?r) < 2 ^ 64" using send(8) by (simp add: fake_ok_def Let_def)
  have "\<exists>i. i < length (fr_queue ?r) \<and> fl_message f = fr_head_id ?r + of_nat i \<and> t = fst (fr_queue ?r ! i)"
  proof (cases "ep_in_flight ep = []")
    case True
    then have "fr_current ?r = (fl_message f, Some t)" using send(7) by simp
    then show ?thesis by (intro exI [of _ 0]) (auto simp: fr_current_def split: list.splits)
  next
    case False
    then have "fr_peek ?r ?n = Some (fl_message f, t)" using send(7) by simp
    then show ?thesis by (intro exI [of _ ?n]) (auto simp: fr_peek_def split: if_splits Transfer.splits)
  qed
  then obtain i where i: "i < length (fr_queue ?r)" "fl_message f = fr_head_id ?r + of_nat i"
    "t = fst (fr_queue ?r ! i)" by blast
  then have "unat (fl_message f) = unat (fr_head_id ?r) + i" using b by (simp add: unat_plus_of_nat)
  then show ?case using send(6,8) i by (auto simp: fake_ok_def Let_def)
qed

lemma fake_ok_steps: "\<lbrakk>(ep_step fake_ring)\<^sup>*\<^sup>* ep ep'; fake_ok ep\<rbrakk> \<Longrightarrow> fake_ok ep'"
  by (induction rule: rtranclp_induct) (auto intro: fake_ok_step)

section \<open>Only messages that are there are read\<close>

text \<open>A way to read that agrees with the ring wherever there is a message.\<close>

definition reads_as_fake :: "(FakeRing \<Rightarrow> nat \<Rightarrow> nat \<Rightarrow> bytes) \<Rightarrow> bool" where
  "reads_as_fake rd \<longleftrightarrow> (\<forall>r k len. k < length (fr_queue r) \<longrightarrow> rd r k len = fr_read r k len)"

lemma ring_read_reads:
  "\<lbrakk>reads_as_fake rd; k < length (fr_queue r)\<rbrakk> \<Longrightarrow> ring_read (fake_ring\<lparr>ring_read := rd\<rparr>) r k = ring_read fake_ring r k"
  by (simp add: reads_as_fake_def fun_eq_iff)

lemma data_request_reads:
  assumes "reads_as_fake rd" "k < length (fr_queue (ep_ring ep))"
  shows "data_request (fake_ring\<lparr>ring_read := rd\<rparr>) sp ep key k t = data_request fake_ring sp ep key k t"
  unfolding data_request_def ring_read_reads [OF assms] ..

lemma complete_reads [simp]: "Engine.complete (fake_ring\<lparr>ring_read := rd\<rparr>) ep = Engine.complete fake_ring ep"
  by (simp add: complete_def [abs_def])

lemma control_request_reads:
  "\<lbrakk>reads_as_fake rd; fr_queue (ep_ring ep) \<noteq> []\<rbrakk> \<Longrightarrow>
     control_request (fake_ring\<lparr>ring_read := rd\<rparr>) ep bs len = control_request fake_ring ep bs len"
  by (simp add: control_request_def Let_def reads_as_fake_def)

lemma head_request_reads:
  assumes "reads_as_fake rd" "fr_queue (ep_ring ep) \<noteq> []"
  shows "head_request (fake_ring\<lparr>ring_read := rd\<rparr>) sp ep key t = head_request fake_ring sp ep key t"
  unfolding head_request_def complete_reads control_request_reads [OF assms]
    data_request_reads [OF assms(1), of 0 ep sp key t, simplified, OF assms(2)] ..

lemma submit_urb_reads [simp]: "submit_urb (fake_ring\<lparr>ring_read := rd\<rparr>) = submit_urb fake_ring"
  unfolding submit_urb_def [abs_def] complete_reads ..

lemma fill_round_reads: "reads_as_fake rd \<Longrightarrow> fill_round (fake_ring\<lparr>ring_read := rd\<rparr>) key en = fill_round fake_ring key en"
  by (auto simp: fill_round_def Let_def data_request_reads fr_peek_def split: option.splits)

lemma pump_round_reads:
  assumes "reads_as_fake rd"
  shows "pump_round (fake_ring\<lparr>ring_read := rd\<rparr>) key offline en = pump_round fake_ring key offline en"
proof -
  have q: "fr_queue r \<noteq> []" if "fr_current r = (h, Some t)" for r h t
    using that by (auto simp: fr_current_def)
  have fl: "fill (fake_ring\<lparr>ring_read := rd\<rparr>) key e = fill fake_ring key e" for e
    by (rule fill_cong) (rule fill_round_reads [OF assms])
  have ap: "apply_flight (fake_ring\<lparr>ring_read := rd\<rparr>) = apply_flight fake_ring"
    unfolding apply_flight_def [abs_def] complete_reads ..
  show ?thesis
    unfolding pump_round_def fl ap submit_urb_reads
    by (auto simp: head_request_reads [OF assms q] split: option.splits list.splits prod.splits)
qed

lemma pump_reads: "reads_as_fake rd \<Longrightarrow> pump (fake_ring\<lparr>ring_read := rd\<rparr>) key offline en = pump fake_ring key offline en"
  by (rule pump_cong) (rule pump_round_reads)

lemma finish_reads:
  assumes "reads_as_fake rd"
  shows "finish (fake_ring\<lparr>ring_read := rd\<rparr>) key token res en = finish fake_ring key token res en"
  unfolding finish_def pump_reads [OF assms] ..

end
