(* ===== verification/Engine_Properties.thy ===== *)
theory Engine_Properties
  imports Fake_Ring
begin

text \<open>
  The properties of the engine: the rules by which it touches the rings, that no URB is lost,
  bounds, termination, reading ahead, pausing and closing, each applied to one interrupt
  endpoint on the ring held in memory.
\<close>

section \<open>Properties\<close>

text \<open>C22. The engine touches a ring only by its rules. Whatever a doorbell leads to, other endpoints
  stay as they are and the endpoint goes through steps of the rules: only an active ring is
  touched, a finished URB is delivered only as the oldest one and while its message is the head
  of the ring, with at most the bytes it asked for, messages without a URB are acknowledged
  only when nothing is in flight, new URBs are for the head or the next message behind those in
  flight, within the depth of the endpoint.\<close>

theorem doorbell_follows_rules:
  assumes "doorbell ring key en = Some en'"
  shows "(\<forall>k. k \<noteq> key \<longrightarrow> get_ep en' k = get_ep en k) \<and>
    (case get_ep en key of
       None \<Rightarrow> get_ep en' key = None
     | Some ep \<Rightarrow> \<exists>ep'. get_ep en' key = Some ep' \<and> (ep_step ring)\<^sup>*\<^sup>* ep ep')"
  using pump_moves assms unfolding doorbell_def moves_def by blast

text \<open>C23. A finished reply reaches the URB with its token and nothing else: without such a URB it is
  dropped; a read that was unlinked by a pause is taken back together with the later ones; any
  other reply is stored with its URB; and after that the ring is touched only by its rules.\<close>

theorem finish_follows_rules:
  assumes "finish ring key token res en = Some en'" "get_ep en key = Some ep"
  shows "token \<notin> fl_token ` set (ep_in_flight ep) \<and> en' = en \<or>
    (\<exists>before f later ep'. ep_in_flight ep = before @ f # later \<and> fl_token f = token \<and>
      get_ep en' key = Some ep' \<and>
      (ep_step ring)\<^sup>*\<^sup>* (ep\<lparr>ep_in_flight :=
         if fl_unlinking f \<and> is_unlinked res then before
         else before @ f\<lparr>fl_result := Some res\<rparr> # later\<rparr>) ep')"
  using assms
proof (cases rule: finish_shape)
  case stale
  then show ?thesis by blast
next
  case (retry before f later st)
  let ?e = "(put_ep key (ep\<lparr>ep_in_flight := before\<rparr>) en)\<lparr>en_session := st\<rparr>"
  have "get_ep ?e key = Some (ep\<lparr>ep_in_flight := before\<rparr>)" by simp
  with pump_moves [OF retry(7)] obtain ep' where "get_ep en' key = Some ep'"
    "(ep_step ring)\<^sup>*\<^sup>* (ep\<lparr>ep_in_flight := before\<rparr>) ep'" unfolding moves_def by fastforce
  then show ?thesis
    using retry by - (rule disjI2, rule exI [of _ before], rule exI [of _ f],
      rule exI [of _ later], rule exI [of _ ep'], auto)
next
  case (answer before f later)
  let ?fs = "before @ f\<lparr>fl_result := Some res\<rparr> # later"
  have "get_ep (put_ep key (ep\<lparr>ep_in_flight := ?fs\<rparr>) en) key = Some (ep\<lparr>ep_in_flight := ?fs\<rparr>)" by simp
  with pump_moves [OF answer(5)] obtain ep' where "get_ep en' key = Some ep'"
    "(ep_step ring)\<^sup>*\<^sup>* (ep\<lparr>ep_in_flight := ?fs\<rparr>) ep'" unfolding moves_def by fastforce
  then show ?thesis
    using answer by - (rule disjI2, rule exI [of _ before], rule exI [of _ f],
      rule exI [of _ later], rule exI [of _ ep'], auto)
qed

text \<open>C20. No URB is lost: in every reachable state, a URB in flight that has no result yet has a task
  that waits for it under its token, on the reply channel of its sequence number, which the
  session still has pending or has already answered; after a disconnect it has been answered.
  Holds for fewer than \<open>2 ^ 64\<close> transfers, the range of the tokens.\<close>

theorem no_urb_lost:
  assumes "(engine_step ring)\<^sup>*\<^sup>* (Engine_new st d) en" "session_inv st"
    and "next_chan (en_session en) < 2 ^ 64"
    and "get_ep en key = Some ep" "f \<in> set (ep_in_flight ep)" "fl_result f = None"
  shows "\<exists>ch. (ch, key, fl_token f) \<in> set (en_waiters en) \<and>
    (ch \<in> keys (replies (en_session en)) \<or>
     closed (en_session en) = None \<and> (fl_seqnum f, ch) \<in> waiting_on (en_session en))"
proof -
  have inv: "engine_inv en" using engine_reachable_inv [OF assms(1,2)] assms(3) by (simp add: few_transfers_def)
  have "flight_ok en key f" using engine_invD(4) [OF inv assms(4)] assms(5) by (simp add: endpoint_ok_def)
  moreover have "waiting_on (en_session en) = {}" if "closed (en_session en) \<noteq> None"
    using engine_invD(2) [OF inv] that by (simp add: session_inv_def waiting_on_def)
  ultimately show ?thesis
    using assms(6) unfolding flight_ok_def by (cases "closed (en_session en)") auto
qed

text \<open>C27. At most 32 URBs are in flight per endpoint, and their tokens are distinct, so a reply finds
  one URB at most.\<close>

theorem in_flight_bounded:
  assumes "(engine_step ring)\<^sup>*\<^sup>* (Engine_new st d) en" "session_inv st"
    and "next_chan (en_session en) < 2 ^ 64"
  shows "in_flight_count key en \<le> 32 \<and>
    (\<forall>ep. get_ep en key = Some ep \<longrightarrow> distinct (map fl_token (ep_in_flight ep)))"
proof -
  have inv: "engine_inv en" using engine_reachable_inv [OF assms(1,2)] assms(3) by (simp add: few_transfers_def)
  show ?thesis
    using engine_invD(4) [OF inv, of key]
    by (auto simp: in_flight_count_def endpoint_ok_def split: option.split)
qed

text \<open>C24. A doorbell returns: on a ring where a completed message leaves the ring, with room for the
  sequence numbers, the loop ends.\<close>

theorem doorbell_terminates:
  assumes "\<And>r status data len r'. ring_complete ring r status data len = (True, r') \<Longrightarrow>
      messages r' < (messages r :: nat)"
    and "card (seqs_used (en_session en)) + in_flight_count key en + 33 < 2 ^ 32 - 1"
  shows "\<exists>en'. doorbell ring key en = Some en'"
proof (cases "get_ep en key")
  case None
  then have "pump_round ring key False en = Some (None, en)" by (simp add: pump_round_def)
  then show ?thesis unfolding doorbell_def by (subst pump.simps) simp
next
  case (Some ep)
  have "transfer_ring ring messages" using assms(1) by unfold_locales
  from transfer_ring.pump_terminates [OF this Some, of False] assms(2) Some show ?thesis
    by (simp add: doorbell_def in_flight_count_def)
qed

text \<open>C26. Reading ahead: on an idle IN data endpoint with an active ring of ordinary messages, a
  doorbell on an open session puts a URB in flight for each message in ring order, up to the
  depth of the endpoint (8 for bulk, 1 for interrupt), with the length of the message, and
  leaves the ring alone.\<close>

theorem doorbell_reads_ahead:
  assumes "Direction_of_endpoint (snd key) = In" "snd key AND 0x7f \<noteq> 0"
    and "get_ep en key = Some ep" "ep_in_flight ep = []" "ring_active ring (ep_ring ep)"
    and "closed (en_session en) = None" "card (seqs_used (en_session en)) + 32 < 2 ^ 32 - 1"
    and "ms \<noteq> []" "ring_current ring (ep_ring ep) = (fst (ms ! 0), Some (TNormal (snd (ms ! 0))))"
    and "\<And>i. i < length ms \<Longrightarrow> ring_peek ring (ep_ring ep) i = Some (fst (ms ! i), TNormal (snd (ms ! i)))"
    and "ring_peek ring (ep_ring ep) (length ms) = None"
  shows "\<exists>en' new. doorbell ring key en = Some en' \<and>
     get_ep en' key = Some (ep\<lparr>ep_in_flight := new\<rparr>) \<and>
     map (\<lambda>f. (fl_message f, fl_length f)) new = take (depth (kind (ep_info ep))) ms \<and>
     (\<forall>f\<in>set new. fl_result f = None)"
  unfolding doorbell_def using pump_reads_ahead [OF assms] .

text \<open>C25. A read that a pause unlinked is not lost: when its reply says unlinked and the host has
  resumed at the same message, the read is submitted again, together with the messages behind
  it, and no message of the ring is completed.\<close>

theorem paused_read_resubmitted:
  assumes "Direction_of_endpoint (snd key) = In" "snd key AND 0x7f \<noteq> 0"
    and "get_ep en key = Some ep" "ep_in_flight ep = [f]" "fl_unlinking f"
    and "ring_active ring (ep_ring ep)"
    and "closed (en_session en) = None" "card (seqs_used (en_session en)) + 32 < 2 ^ 32 - 1"
    and "ms \<noteq> []" "ring_current ring (ep_ring ep) = (fst (ms ! 0), Some (TNormal (snd (ms ! 0))))"
    and "\<And>i. i < length ms \<Longrightarrow> ring_peek ring (ep_ring ep) i = Some (fst (ms ! i), TNormal (snd (ms ! i)))"
    and "ring_peek ring (ep_ring ep) (length ms) = None"
  shows "\<exists>en' new. finish ring key (fl_token f) (Inl (Unlinked status)) en = Some en' \<and>
     get_ep en' key = Some (ep\<lparr>ep_in_flight := new\<rparr>) \<and>
     map (\<lambda>f. (fl_message f, fl_length f)) new = take (depth (kind (ep_info ep))) ms \<and>
     (\<forall>f\<in>set new. fl_result f = None)"
proof -
  let ?en = "put_ep key (ep\<lparr>ep_in_flight := []\<rparr>) en"
  have "\<exists>en' new. pump ring key False ?en = Some en' \<and>
     get_ep en' key = Some ((ep\<lparr>ep_in_flight := []\<rparr>)\<lparr>ep_in_flight := new\<rparr>) \<and>
     map fl_what new = take (depth (kind (ep_info (ep\<lparr>ep_in_flight := []\<rparr>)))) ms \<and>
     (\<forall>f\<in>set new. fl_result f = None)"
    using assms by (intro pump_reads_ahead) auto
  moreover have "finish ring key (fl_token f) (Inl (Unlinked status)) en = pump ring key False ?en"
    using assms(3-5) by (simp add: finish_def is_unlinked_def unlink_all_def put_ep_def)
  ultimately show ?thesis by simp
qed

text \<open>Pausing an IN data endpoint unlinks every read that is still on the server and marks it,
  keeps all of them in flight, and leaves control and OUT endpoints alone.\<close>

theorem pause_unlinks_reads:
  assumes "pause_endpoint key en = Some en'" "get_ep en key = Some ep"
    and "closed (en_session en) = None"
  shows "if snd key AND 0x80 = 0 \<or> snd key AND 0x7f = 0 then en' = en
    else get_ep en' key = Some (ep\<lparr>ep_in_flight :=
           map (\<lambda>f. if fl_result f = None then f\<lparr>fl_unlinking := True\<rparr> else f) (ep_in_flight ep)\<rparr>) \<and>
      vals (unlinks (en_session en')) = vals (unlinks (en_session en)) \<union>
        ({fl_seqnum f |f. f \<in> set (ep_in_flight ep) \<and> fl_result f = None \<and> \<not> fl_unlinking f}
          \<inter> keys (submits (en_session en)))"
proof (cases "snd key AND 0x80 = 0 \<or> snd key AND 0x7f = 0")
  case True
  then show ?thesis using assms(1) by (auto simp: pause_endpoint_def)
next
  case False
  then obtain fs st where p: "pause_flights (ep_in_flight ep) (en_session en) = Some (fs, st)"
    and en': "en' = (put_ep key (ep\<lparr>ep_in_flight := fs\<rparr>) en)\<lparr>en_session := st\<rparr>"
    using assms(1,2) by (auto simp: pause_endpoint_def bind_eq_Some_conv)
  note m = pause_flights_marks [OF p]
  from sess.cancel_list_marks [OF assms(3) conjunct2 [OF m]] have
    "vals (unlinks st) = vals (unlinks (en_session en)) \<union>
      (set (map fl_seqnum (filter (\<lambda>f. fl_result f = None \<and> \<not> fl_unlinking f) (ep_in_flight ep)))
        \<inter> keys (submits (en_session en)))" by simp
  moreover have "set (map fl_seqnum (filter (\<lambda>f. fl_result f = None \<and> \<not> fl_unlinking f) (ep_in_flight ep))) =
      {fl_seqnum f |f. f \<in> set (ep_in_flight ep) \<and> fl_result f = None \<and> \<not> fl_unlinking f}" by auto
  ultimately show ?thesis using False m by (simp add: en')
qed

text \<open>Once the session is closed nothing new is sent: neither a doorbell nor a finished reply
  changes the session or starts a waiting task.\<close>

theorem closed_session_quiet:
  assumes "closed (en_session en) \<noteq> None"
    and "doorbell ring key en = Some en' \<or> finish ring key token res en = Some en'"
  shows "en_session en' = en_session en \<and> en_waiters en' = en_waiters en"
  using assms(2)
proof
  assume "doorbell ring key en = Some en'"
  then have "sends_nothing en en'" unfolding doorbell_def by (rule pump_closed)
  then show ?thesis using assms(1) by (simp add: sends_nothing_def)
next
  assume fin: "finish ring key token res en = Some en'"
  show ?thesis
  proof (cases "get_ep en key")
    case None
    then show ?thesis using fin by (simp add: finish_def)
  next
    case (Some ep)
    from fin Some show ?thesis
    proof (cases rule: finish_shape)
      case (retry before f later st)
      then have "st = en_session en" using assms(1) unlink_flights_closed by auto
      with pump_closed [OF retry(7)] assms(1) show ?thesis by (simp add: sends_nothing_def)
    next
      case (answer before f later)
      from pump_closed [OF answer(5)] assms(1) show ?thesis by (simp add: sends_nothing_def)
    qed simp
  qed
qed

text \<open>C28. The engine never overruns a buffer and never completes or reads a message that is not there: on the
  ring held in memory, whose assertions about completions are kept as a flag, a doorbell and a finished reply
  leave the flag unset, when buffers hold their messages' lengths and the URBs in flight belong
  to messages of the ring or to ones that have left it. What a read without a message would give makes no
  difference to either.\<close>

theorem ring_never_panics:
  assumes "get_ep en key = Some ep" "fake_ok ep"
    and "doorbell fake_ring key en = Some en' \<or> finish fake_ring key token res en = Some en'"
  shows "(\<exists>ep'. get_ep en' key = Some ep' \<and> fake_ok ep' \<and> \<not> fr_panicked (ep_ring ep')) \<and>
    (\<forall>rd. (\<forall>r k len. k < length (fr_queue r) \<longrightarrow> rd r k len = fr_read r k len) \<longrightarrow>
       doorbell (fake_ring\<lparr>ring_read := rd\<rparr>) key en = doorbell fake_ring key en \<and>
       finish (fake_ring\<lparr>ring_read := rd\<rparr>) key token res en = finish fake_ring key token res en)"
proof (intro conjI allI impI)
  fix rd :: "FakeRing \<Rightarrow> nat \<Rightarrow> nat \<Rightarrow> bytes"
  assume "\<forall>r k len. k < length (fr_queue r) \<longrightarrow> rd r k len = fr_read r k len"
  then have rd: "reads_as_fake rd" by (simp add: reads_as_fake_def)
  show "doorbell (fake_ring\<lparr>ring_read := rd\<rparr>) key en = doorbell fake_ring key en" by (simp add: doorbell_def pump_reads [OF rd])
  show "finish (fake_ring\<lparr>ring_read := rd\<rparr>) key token res en = finish fake_ring key token res en" by (rule finish_reads [OF rd])
next
  have goal: "\<exists>ep'. get_ep en' key = Some ep' \<and> fake_ok ep' \<and> \<not> fr_panicked (ep_ring ep')"
    if m: "moves fake_ring key e en'" and g: "get_ep e key = Some ep0" and k: "fake_ok ep0" for e ep0
  proof -
    obtain ep' where ep': "get_ep en' key = Some ep'" "(ep_step fake_ring)\<^sup>*\<^sup>* ep0 ep'"
      using m g by (auto simp: moves_def)
    then have "fake_ok ep'" using fake_ok_steps k by blast
    with ep' show ?thesis by (auto simp: fake_ok_def Let_def)
  qed
  from assms(3) show "\<exists>ep'. get_ep en' key = Some ep' \<and> fake_ok ep' \<and> \<not> fr_panicked (ep_ring ep')"
  proof
    assume "doorbell fake_ring key en = Some en'"
    then show ?thesis using goal [OF pump_moves assms(1,2)] by (simp add: doorbell_def)
  next
    assume "finish fake_ring key token res en = Some en'"
    then show ?thesis using assms(1)
    proof (cases rule: finish_shape)
      case stale
      then show ?thesis using goal [of en ep] assms(1,2) by simp
    next
      case (retry before f later st)
      have "fake_ok (ep\<lparr>ep_in_flight := before\<rparr>)" using assms(2) retry(1) by (auto simp: fake_ok_def Let_def)
      from goal [OF pump_moves [OF retry(7)] _ this] show ?thesis by simp
    next
      case (answer before f later)
      have "fake_ok (ep\<lparr>ep_in_flight := before @ f\<lparr>fl_result := Some res\<rparr> # later\<rparr>)"
        using assms(2) answer(1) by (auto simp: fake_ok_def Let_def)
      from goal [OF pump_moves [OF answer(5)] _ this] show ?thesis by simp
    qed
  qed
qed

text \<open>What completing the data stage of a successful configuration read does.\<close>

lemma apply_configuration:
  assumes "apply_flight ring ep f (Inr ret) w = (flow, ep', w')" "fl_stage f = ControlData" "fl_direction f = In"
    and "rs_status ret = 0" "rs_actual_length ret \<le> fl_length f" "length (rs_data ret) = unat (rs_actual_length ret)"
    and "ep_setup ep = Some s" "take 2 (su_bytes s) = [0x80, 6] \<and> su_bytes s ! 3 = 2"
    and p: "patch_configuration (ep_hidden_config ep) (rs_data ret) = (d, h, hid)"
  shows "ep_ring ep' = snd (ring_complete ring (ep_ring ep) StSuccess d (of_nat (length d))) \<and> ep_hidden_config ep' = h"
proof -
  have len: "of_nat (length d) \<le> rs_actual_length ret"
    using patch_shorter [OF p] assms(6) by (simp add: word_le_nat_alt unat_of_nat_le)
  have "outcome_of f (Inr ret) = (StSuccess, rs_data ret, rs_actual_length ret)"
    using assms(2,4,5,6) by (simp add: outcome_of_def from_urb_status_def min_absorb1)
  then show ?thesis using assms(1,2,3,7,8) p len
    by (auto simp: apply_flight_def stage_effects_def is_get_configuration_def complete_def min_absorb2 split: prod.splits)
qed

lemma head_request_keeps_hidden: "head_request ring sp ep key t = (nxt, ep') \<Longrightarrow> ep_hidden_config ep' = ep_hidden_config ep"
proof (erule head_request_cases)
  fix status ok r
  assume e: "ep' = ep\<lparr>ep_ring := r, ep_setup := ep_setup ep'\<rparr>"
  show ?thesis by (subst e) simp
qed simp_all

text \<open>C38. A short read of a configuration descriptor agrees with the full one. Take an endpoint that completes
  the data stage of GET_DESCRIPTOR(CONFIGURATION) with a descriptor that has UAS settings to hide: the
  host gets the filtered descriptor, and the endpoint remembers. When it later completes
  the data stage of a read of 4 to 9 bytes, which never reaches the interfaces, the host gets the beginning of the filtered
  descriptor, its shorter total length included; and the messages of the next control transfer, which
  come in between, leave what is remembered alone.\<close>

theorem short_configuration_read:
  assumes "apply_flight ring ep f (Inr ret) w = (flow, ep1, w1)" "fl_stage f = ControlData" "fl_direction f = In"
    and "rs_status ret = 0" "rs_actual_length ret \<le> fl_length f" "length (rs_data ret) = unat (rs_actual_length ret)"
    and "ep_setup ep = Some s" "take 2 (su_bytes s) = [0x80, 6] \<and> su_bytes s ! 3 = 2"
    and "hide_uas (rs_data ret) = (out, Some totals)"
    and "apply_flight ring ep2 f2 (Inr ret2) w2 = (flow2, ep3, w3)" "fl_stage f2 = ControlData" "fl_direction f2 = In"
    and "rs_status ret2 = 0" "rs_actual_length ret2 \<le> fl_length f2" "unat (rs_actual_length ret2) = n"
    and "rs_data ret2 = take n (rs_data ret)" "4 \<le> n" "n \<le> 9"
    and "ep_setup ep2 = Some s2" "take 2 (su_bytes s2) = [0x80, 6] \<and> su_bytes s2 ! 3 = 2"
    and "ep_hidden_config ep2 = ep_hidden_config ep1"
  shows "ep_ring ep1 = snd (ring_complete ring (ep_ring ep) StSuccess out (of_nat (length out))) \<and>
    ep_ring ep3 = snd (ring_complete ring (ep_ring ep2) StSuccess (take n out) (of_nat n)) \<and>
    ep_hidden_config ep3 = ep_hidden_config ep1 \<and>
    ep_hidden_config (snd (head_request ring sp ep1 key t)) = ep_hidden_config ep1"
proof -
  obtain original tot where t: "totals = (original, tot)" by (cases totals)
  note p = hide_uas_prefix [OF assms(9) [unfolded t] assms(17,18)]
  have "patch_configuration (ep_hidden_config ep) (rs_data ret) = (out, Some totals, True)"
    by (simp add: patch_configuration_def assms(9))
  note full = apply_configuration [OF assms(1-8) this]
  let ?d = "take n (rs_data ret)"
  have short: "hide_uas ?d = (?d, None)" using assms(18) by (intro hide_uas_short) simp
  have l: "length ?d = n" "length (take n out) = n" using p assms(17,18) by simp_all
  have "take 2 (drop 2 ?d) = take 2 (drop 2 (rs_data ret))" using assms(17) by (simp add: drop_take min_def)
  moreover have "take 2 ?d @ u16_le tot @ drop 4 ?d = take n out"
    unfolding p(1) using assms(17) by (simp add: drop_take min_def)
  ultimately have "patch_configuration (ep_hidden_config ep2) (rs_data ret2) = (take n out, Some totals, False)"
    using assms(17,21) l(1) full by (simp add: patch_configuration_def assms(16) short t p(2))
  moreover have "length (rs_data ret2) = unat (rs_actual_length ret2)" using assms(15,16) l(1) by simp
  ultimately have "ep_ring ep3 = snd (ring_complete ring (ep_ring ep2) StSuccess (take n out) (of_nat n)) \<and> ep_hidden_config ep3 = Some totals"
    using apply_configuration [OF assms(10-14) _ assms(19,20), of "take n out" "Some totals" False] l(2) by simp
  then show ?thesis using full head_request_keeps_hidden [of ring sp ep1 key t] by (cases "head_request ring sp ep1 key t") simp
qed

section \<open>Witnesses\<close>

definition sample_key :: EndpointKey where "sample_key = (1, 0x81)"

definition sample_ring :: FakeRing where
  "sample_ring = FakeRing_push (TNormal 2) [0, 0] FakeRing_new"

definition sample_info :: EndpointInfo where
  "sample_info = \<lparr>kind = Interrupt, max_packet_size = 8, b_interval = 4\<rparr>"

definition sample_ep :: "FakeRing Endpoint" where
  "sample_ep = \<lparr>ep_ring = sample_ring, ep_info = sample_info, ep_in_flight = [], ep_setup = None,
     ep_hidden_config = None\<rparr>"

definition sample_new :: "FakeRing Engine" where
  "sample_new = Engine_new (Session_start (device_of sample_export)) (device_of sample_export)"

definition sample_engine :: "FakeRing Engine" where
  "sample_engine = put_ep sample_key sample_ep sample_new"

definition sample_poll :: SubmitRequest where
  "sample_poll = (SubmitRequest_new 0x81 In 2)\<lparr>sr_interval := 8\<rparr>"

definition polled_session :: Shared where
  "polled_session = snd (the (submit sample_poll (Session_start (device_of sample_export))))"

definition sample_flight :: InFlight where
  "sample_flight = \<lparr>fl_token = 0, fl_message = 0, fl_stage = NormalStage, fl_direction = In,
     fl_length = 2, fl_seqnum = 1, fl_unlinking = False, fl_result = None\<rparr>"

definition sample_busy :: "FakeRing Engine" where
  "sample_busy = (put_ep sample_key (sample_ep\<lparr>ep_in_flight := [sample_flight]\<rparr>)
     (sample_new\<lparr>en_session := polled_session\<rparr>))\<lparr>en_next_token := 1, en_waiters := [(0, sample_key, 0)]\<rparr>"

lemma sample_poll_simps: "sr_direction sample_poll = In" "sr_length sample_poll = 2"
  by (simp_all add: sample_poll_def SubmitRequest_new_def)

lemma polled_session_eq:
  "submit sample_poll (Session_start (device_of sample_export)) = Some (Inr (1, 0), polled_session)"
  "closed polled_session = None" "next_chan polled_session = 1" "replies polled_session = []"
  "submits polled_session = [(1, \<lparr>ps_direction = In, ps_length = 2, ps_reply = 0\<rparr>)]"
  "unlinks polled_session = []"
  by (simp_all add: polled_session_def submit_def sample_poll_def SubmitRequest_new_def
      next_seqnum_sample)

lemma sample_key_simps:
  "Direction_of_endpoint (snd sample_key) = In" "snd sample_key AND 0x7f \<noteq> 0" "snd sample_key AND 0x80 \<noteq> 0"
  by (simp_all add: sample_key_def Direction_of_endpoint_def)

lemma sample_ring_eq:
  "fr_active sample_ring" "fr_current sample_ring = (0, Some (TNormal 2))"
  "fr_queue sample_ring = [(TNormal 2, [0, 0])]" "fr_peek sample_ring 0 = Some (0, TNormal 2)"
  "fr_peek sample_ring (Suc 0) = None" "fr_head_id sample_ring = 0" "\<not> fr_panicked sample_ring"
  by (simp_all add: sample_ring_def FakeRing_push_def FakeRing_new_def fr_current_def fr_peek_def)

lemma sample_ep_simps:
  "ep_ring sample_ep = sample_ring" "ep_in_flight sample_ep = []" "kind (ep_info sample_ep) = Interrupt"
  by (simp_all add: sample_ep_def sample_info_def)

lemma sample_engine_eq:
  "get_ep sample_engine sample_key = Some sample_ep"
  "en_session sample_engine = Session_start (device_of sample_export)"
  "speed (en_device sample_engine) = SpHigh" "en_waiters sample_engine = []"
  "en_next_token sample_engine = 0"
  by (simp_all add: sample_engine_def sample_new_def Engine_new_def device_of_def sample_export_def
      Speed_from_u32_def)

lemma sample_busy_eq:
  "get_ep sample_busy sample_key = Some (sample_ep\<lparr>ep_in_flight := [sample_flight]\<rparr>)"
  "en_session sample_busy = polled_session" "en_waiters sample_busy = [(0, sample_key, 0)]"
  by (simp_all add: sample_busy_def put_ep_def update_conv')

lemma sample_requests:
  "data_request fake_ring SpHigh sample_ep sample_key 0 (TNormal 2) = Some (sample_poll, NormalStage)"
  by (simp add: data_request_def sample_key_def Direction_of_endpoint_def sample_ep_def
      sample_info_def urb_interval_def sample_poll_def)

lemma sample_doorbell: "doorbell fake_ring sample_key sample_engine = Some sample_busy"
proof -
  have hr: "head_request fake_ring SpHigh sample_ep sample_key (TNormal 2)
      = (NSubmit sample_poll NormalStage, sample_ep)"
    using sample_requests by (simp add: head_request_def sample_key_def)
  have su: "submit_urb fake_ring sample_key 0 sample_poll NormalStage sample_ep sample_engine
      = Some (SInFlight, sample_busy)"
    using polled_session_eq(1) sample_engine_eq(2)
    by (simp add: submit_urb_def sample_poll_simps)
      (simp add: sample_busy_def put_ep_def sample_engine_def sample_new_def Engine_new_def
        sample_ep_def sample_flight_def)
  have fi: "fill fake_ring sample_key sample_busy = Some (False, sample_busy)"
    by (subst fill.simps)
      (simp add: fill_round_def sample_busy_eq sample_ep_def sample_info_def depth_def)
  have "pump_round fake_ring sample_key False sample_engine = Some (None, sample_busy)"
    using hr su fi
    by (simp add: pump_round_def sample_engine_eq sample_ep_simps sample_ring_eq
        put_ep_same [OF sample_engine_eq(1)])
  then show ?thesis unfolding doorbell_def by (subst pump.simps) simp
qed

lemma sample_fake_ok: "fake_ok sample_ep"
  by (simp add: fake_ok_def Let_def sample_ep_simps sample_ring_eq message_length_def)

lemma sample_reachable: "(engine_step fake_ring)\<^sup>*\<^sup>* sample_new sample_busy"
proof -
  have "add_endpoint sample_key sample_info sample_ring sample_new = Some sample_engine"
    by (simp add: add_endpoint_def sample_engine_def sample_new_def Engine_new_def sample_ep_def)
  then have "engine_step fake_ring sample_new sample_engine" by (rule engine_step.add)
  moreover have "engine_step fake_ring sample_engine sample_busy"
    using sample_doorbell by (rule engine_step.bell)
  ultimately show ?thesis by (meson converse_rtranclp_into_rtranclp r_into_rtranclp)
qed

theorem doorbell_follows_rules_witness:
  "\<exists>ep'. get_ep sample_busy sample_key = Some ep' \<and> (ep_step fake_ring)\<^sup>*\<^sup>* sample_ep ep'"
  using doorbell_follows_rules [OF sample_doorbell] by (simp add: sample_engine_eq)

lemma sample_finishes:
  "\<exists>en'. finish fake_ring sample_key 0 (Inr (ret_of sample_urb sample_completion)) sample_busy = Some en'"
proof -
  let ?f = "sample_flight\<lparr>fl_result := Some (Inr (ret_of sample_urb sample_completion))\<rparr>"
  let ?ep = "sample_ep\<lparr>ep_in_flight := [?f]\<rparr>"
  have "\<exists>en'. pump fake_ring sample_key False (put_ep sample_key ?ep sample_busy) = Some en'"
    by (rule fake.pump_terminates [of _ _ ?ep])
      (simp_all add: sample_busy_eq polled_session_eq)
  then show ?thesis
    by (simp add: finish_def sample_busy_eq Let_def) (simp add: sample_flight_def)
qed

theorem finish_follows_rules_witness:
  "\<exists>en' ep'. finish fake_ring sample_key 0 (Inr (ret_of sample_urb sample_completion)) sample_busy = Some en' \<and>
     get_ep en' sample_key = Some ep' \<and>
     (ep_step fake_ring)\<^sup>*\<^sup>* (sample_ep\<lparr>ep_in_flight :=
        [sample_flight\<lparr>fl_result := Some (Inr (ret_of sample_urb sample_completion))\<rparr>]\<rparr>) ep'"
proof -
  obtain en' where f: "finish fake_ring sample_key 0 (Inr (ret_of sample_urb sample_completion)) sample_busy = Some en'"
    using sample_finishes by blast
  from finish_follows_rules [OF f sample_busy_eq(1)] f show ?thesis
    by (auto simp: Cons_eq_append_conv sample_flight_def)
qed

theorem no_urb_lost_witness:
  "\<exists>ch. (ch, sample_key, 0) \<in> set (en_waiters sample_busy) \<and>
    (ch \<in> keys (replies polled_session) \<or>
     closed polled_session = None \<and> (1, ch) \<in> waiting_on polled_session)"
  using no_urb_lost [OF sample_reachable [unfolded sample_new_def] session_inv_start _ sample_busy_eq(1),
      of sample_flight]
  by (simp add: sample_busy_eq polled_session_eq) (simp add: sample_flight_def)

theorem in_flight_bounded_witness: "in_flight_count sample_key sample_busy \<le> 32"
  using in_flight_bounded [OF sample_reachable [unfolded sample_new_def] session_inv_start, of sample_key]
  by (simp add: sample_busy_eq polled_session_eq)

theorem doorbell_terminates_witness: "\<exists>en'. doorbell fake_ring sample_key sample_busy = Some en'"
  by (rule doorbell_terminates [of _ "\<lambda>r. length (fr_queue r)"])
    (auto simp: fake.complete_removes [simplified] sample_busy_eq polled_session_eq in_flight_count_def)

theorem doorbell_reads_ahead_witness:
  "\<exists>en' new. doorbell fake_ring sample_key sample_engine = Some en' \<and>
     get_ep en' sample_key = Some (sample_ep\<lparr>ep_in_flight := new\<rparr>) \<and>
     map (\<lambda>f. (fl_message f, fl_length f)) new = [(0, 2)]"
proof -
  have "\<exists>en' new. doorbell fake_ring sample_key sample_engine = Some en' \<and>
     get_ep en' sample_key = Some (sample_ep\<lparr>ep_in_flight := new\<rparr>) \<and>
     map (\<lambda>f. (fl_message f, fl_length f)) new = take (depth (kind (ep_info sample_ep))) [(0, 2)] \<and>
     (\<forall>f\<in>set new. fl_result f = None)"
    by (rule doorbell_reads_ahead [OF sample_key_simps(1,2) sample_engine_eq(1)])
      (simp_all add: sample_engine_eq sample_ep_simps sample_ring_eq)
  moreover have "take (depth (kind (ep_info sample_ep))) [(0::u64, 2::u32)] = [(0, 2)]"
    by (simp add: sample_ep_simps depth_def)
  ultimately show ?thesis by (simp only:) (elim exE conjE, intro exI conjI)
qed

definition sample_paused :: "FakeRing Engine" where
  "sample_paused = put_ep sample_key
     (sample_ep\<lparr>ep_in_flight := [sample_flight\<lparr>fl_unlinking := True\<rparr>]\<rparr>) sample_busy"

theorem paused_read_resubmitted_witness:
  "\<exists>en' new. finish fake_ring sample_key 0 (Inl (Unlinked (-104))) sample_paused = Some en' \<and>
     get_ep en' sample_key = Some (sample_ep\<lparr>ep_in_flight := new\<rparr>) \<and>
     map (\<lambda>f. (fl_message f, fl_length f)) new = [(0, 2)]"
proof -
  let ?f = "sample_flight\<lparr>fl_unlinking := True\<rparr>" and ?ep = "sample_ep\<lparr>ep_in_flight := [sample_flight\<lparr>fl_unlinking := True\<rparr>]\<rparr>"
  have "\<exists>en' new. finish fake_ring sample_key (fl_token ?f) (Inl (Unlinked (-104))) sample_paused = Some en' \<and>
     get_ep en' sample_key = Some (?ep\<lparr>ep_in_flight := new\<rparr>) \<and>
     map (\<lambda>f. (fl_message f, fl_length f)) new = take (depth (kind (ep_info ?ep))) [(0, 2)] \<and>
     (\<forall>f\<in>set new. fl_result f = None)"
    by (rule paused_read_resubmitted [OF sample_key_simps(1,2)])
      (simp_all add: sample_paused_def sample_busy_eq polled_session_eq sample_ep_simps sample_ring_eq)
  moreover have "fl_token ?f = 0" by (simp add: sample_flight_def)
  moreover have "take (depth (kind (ep_info ?ep))) [(0::u64, 2::u32)] = [(0, 2)]"
    by (simp add: sample_ep_simps depth_def)
  moreover have "?ep\<lparr>ep_in_flight := new\<rparr> = sample_ep\<lparr>ep_in_flight := new\<rparr>" for new by simp
  ultimately show ?thesis by (simp only:) (elim exE conjE, intro exI conjI)
qed

theorem pause_unlinks_reads_witness:
  "\<exists>en'. pause_endpoint sample_key sample_busy = Some en' \<and> vals (unlinks (en_session en')) = {1}"
proof -
  obtain st where "unlink 1 polled_session = Some st"
    using unlink_total [of polled_session 1] by (auto simp: polled_session_eq)
  then obtain en' where p: "pause_endpoint sample_key sample_busy = Some en'"
    using sample_key_simps
    by (simp add: pause_endpoint_def sample_busy_eq) (simp add: sample_flight_def)
  from pause_unlinks_reads [OF p sample_busy_eq(1)] p show ?thesis
    by (auto simp: sample_busy_eq polled_session_eq sample_key_simps sample_flight_def)
qed

theorem closed_session_quiet_witness:
  "\<exists>en'. doorbell fake_ring sample_key (sample_engine\<lparr>en_session := Session_close polled_session\<rparr>) = Some en' \<and>
     en_session en' = Session_close polled_session"
proof -
  let ?en = "sample_engine\<lparr>en_session := Session_close polled_session\<rparr>"
  have cl: "closed (en_session ?en) \<noteq> None" by (simp add: Session_close_def)
  obtain en' where d: "doorbell fake_ring sample_key ?en = Some en'"
    using fake.pump_terminates [of ?en sample_key sample_ep False]
    by (auto simp: doorbell_def sample_engine_eq Session_close_def Shared_close_open polled_session_eq
        sample_ep_simps)
  from closed_session_quiet [OF cl disjI1 [OF d]] d show ?thesis by auto
qed

theorem ring_never_panics_witness:
  "\<exists>ep'. get_ep sample_busy sample_key = Some ep' \<and> fake_ok ep' \<and> \<not> fr_panicked (ep_ring ep')"
  using ring_never_panics [OF sample_engine_eq(1) sample_fake_ok disjI1 [OF sample_doorbell]] by blast

text \<open>A full read of 27 bytes, of which the host gets 18, and then a read of the first 9 bytes on the same endpoint.\<close>

definition config_bytes :: bytes where
  "config_bytes = [9, 2, 27, 0, 1, 1, 0, 0x80, 50] @ concat [[9, 4, 0, 0, 2, 8, 6, 0x50, 0], [9, 4, 0, 1, 4, 8, 6, 0x62, 0]]"

definition config_ep :: "FakeRing Endpoint" where
  "config_ep = \<lparr>ep_ring = FakeRing_push (TNormal 9) (replicate 9 0) (FakeRing_push (TNormal 27) (replicate 27 0) FakeRing_new),
     ep_info = \<lparr>kind = Control, max_packet_size = 64, b_interval = 0\<rparr>, ep_in_flight = [],
     ep_setup = Some \<lparr>su_bytes = [0x80, 6, 0, 2, 0, 0, 27, 0], su_data_done = False\<rparr>, ep_hidden_config = None\<rparr>"

definition config_flight :: "u32 \<Rightarrow> InFlight" where
  "config_flight len = \<lparr>fl_token = 0, fl_message = 0, fl_stage = ControlData, fl_direction = In, fl_length = len,
     fl_seqnum = 1, fl_unlinking = False, fl_result = None\<rparr>"

definition config_ret :: "nat \<Rightarrow> RetSubmit" where
  "config_ret n = \<lparr>rs_seqnum = 1, rs_status = 0, rs_actual_length = of_nat n, rs_start_frame = 0, rs_error_count = 0,
     rs_data = take n config_bytes, rs_iso_packets = []\<rparr>"

lemma config_hides:
  "hide_uas config_bytes = ([9, 2, 18, 0, 1, 1, 0, 0x80, 50, 9, 4, 0, 0, 2, 8, 6, 0x50, 0], Some (27, 18))"
  unfolding config_bytes_def
  by (subst hide_uas_eq)
    (simp_all add: wf_config_header_def wf_desc_def Let_def segments_def add_seg_def kept_segs_def hidden_seg_def
      seg_uas_def seg_fallback_def set_total_def u16_le_def from_le_def from_be_def)

theorem short_configuration_read_witness:
  "\<exists>ep1 ep3. fst (snd (apply_flight fake_ring config_ep (config_flight 27) (Inr (config_ret 27)) False)) = ep1 \<and>
     fst (snd (apply_flight fake_ring ep1 (config_flight 9) (Inr (config_ret 9)) True)) = ep3 \<and>
     map cp_buffer (fr_completed (ep_ring ep3)) =
       [[9, 2, 18, 0, 1, 1, 0, 0x80, 50, 9, 4, 0, 0, 2, 8, 6, 0x50, 0] @ replicate 9 0, [9, 2, 18, 0, 1, 1, 0, 0x80, 50]]"
proof -
  obtain flow ep1 w1 where a1: "apply_flight fake_ring config_ep (config_flight 27) (Inr (config_ret 27)) False = (flow, ep1, w1)"
    by (cases "apply_flight fake_ring config_ep (config_flight 27) (Inr (config_ret 27)) False")
  obtain flow2 ep3 w3 where a2: "apply_flight fake_ring ep1 (config_flight 9) (Inr (config_ret 9)) True = (flow2, ep3, w3)"
    by (cases "apply_flight fake_ring ep1 (config_flight 9) (Inr (config_ret 9)) True")
  have len: "length config_bytes = 27" by (simp add: config_bytes_def)
  have s1: "ep_setup ep1 = Some \<lparr>su_bytes = [0x80, 6, 0, 2, 0, 0, 27, 0], su_data_done = True\<rparr>"
    using a1 by (auto simp: apply_flight_def stage_effects_def config_flight_def config_ep_def is_get_configuration_def complete_def
        split: prod.splits)
  have full: "hide_uas (rs_data (config_ret 27)) = ([9, 2, 18, 0, 1, 1, 0, 0x80, 50, 9, 4, 0, 0, 2, 8, 6, 0x50, 0], Some (27, 18))"
    using config_hides len by (simp add: config_ret_def)
  have "ep_ring ep1 = snd (ring_complete fake_ring (ep_ring config_ep) StSuccess [9, 2, 18, 0, 1, 1, 0, 0x80, 50, 9, 4, 0, 0, 2, 8, 6, 0x50, 0] 18) \<and>
      ep_ring ep3 = snd (ring_complete fake_ring (ep_ring ep1) StSuccess [9, 2, 18, 0, 1, 1, 0, 0x80, 50] 9)"
    using short_configuration_read [OF a1 _ _ _ _ _ _ _ full a2, of _ 9 _ SpHigh "(1, 0)" TStatus] s1 len
    by (simp add: config_flight_def config_ret_def config_ep_def)
  then have "map cp_buffer (fr_completed (ep_ring ep3)) =
       [[9, 2, 18, 0, 1, 1, 0, 0x80, 50, 9, 4, 0, 0, 2, 8, 6, 0x50, 0] @ replicate 9 0, [9, 2, 18, 0, 1, 1, 0, 0x80, 50]]"
    by (simp add: config_ep_def fr_complete_def FakeRing_push_def FakeRing_new_def)
  then show ?thesis using a1 a2 by simp
qed

end
