(* ===== verification/Server_Loop.thy ===== *)
theory Server_Loop
  imports Wire
begin

text \<open>
  The URB loop of the reference server, \<open>serve_urbs\<close> and \<open>endpoint_worker\<close> of
  \<open>src/tests/support/server.rs\<close>: the table of pending URBs, the queues of the endpoints, cancelling,
  the frames handed to the writer and the log. The jobs of all endpoints are one list in the
  order of arrival; the queue of an endpoint is its jobs in that list. A job carries whether its
  cancel channel has fired or been dropped. What the emulated device answers is an argument.
\<close>

datatype Outcome = Complete Completion | Raw bytes | Disconnect

datatype Event =
    EvDevList
  | EvImport rstring
  | EvSubmit Urb
  | EvUnlink u32 u32 bool
  | EvCompleted u32
  | EvDisconnected
  | EvReset

definition Completion_ok :: "bytes \<Rightarrow> Completion" where
  "Completion_ok data = \<lparr>c_status = 0, c_data = data, c_actual_length = None, c_iso = [], c_start_frame = 0\<rparr>"

definition Completion_written :: "u32 \<Rightarrow> Completion" where
  "Completion_written len = (Completion_ok [])\<lparr>c_actual_length := Some len\<rparr>"

type_synonym job = "Urb \<times> bool"

record ServerLoop =
  sv_pending :: "u32 list"
  sv_jobs :: "job list"
  sv_out :: "bytes option list"
  sv_log :: "Event list"
  sv_violations :: "violation list"

definition ServerLoop_new :: ServerLoop where
  "ServerLoop_new = \<lparr>sv_pending = [], sv_jobs = [], sv_out = [], sv_log = [], sv_violations = []\<rparr>"

text \<open>A reset of the device, which the server performs itself and completes with nothing written.\<close>

definition is_reset :: "Urb \<Rightarrow> bool" where
  "is_reset u \<longleftrightarrow> u_ep u = 0 \<and> take 4 (u_setup u) = [0x23, 0x03, 0x04, 0x00]"

definition job_outcome :: "Urb \<Rightarrow> Outcome \<Rightarrow> bool" where
  "job_outcome u outcome \<longleftrightarrow> (is_reset u \<longrightarrow> outcome = Complete (Completion_written 0))"

text \<open>Taking an entry out of the table, or replacing it, ends the wait of its job.\<close>

definition cancel_jobs :: "u32 \<Rightarrow> job list \<Rightarrow> job list" where
  "cancel_jobs q jobs = map (\<lambda>(u, cancelled). (u, cancelled \<or> u_seqnum u = q)) jobs"

definition handle_submit :: "Urb \<Rightarrow> ServerLoop \<Rightarrow> ServerLoop" where
  "handle_submit u sv =
     sv\<lparr>sv_log := sv_log sv @ EvSubmit u # (if is_reset u then [EvReset] else []),
        sv_pending := List.insert (u_seqnum u) (sv_pending sv),
        sv_jobs := cancel_jobs (u_seqnum u) (sv_jobs sv) @ [(u, False)]\<rparr>"

definition handle_unlink :: "u32 \<Rightarrow> u32 \<Rightarrow> ServerLoop \<Rightarrow> ServerLoop" where
  "handle_unlink seqnum target sv =
     (let found = target \<in> set (sv_pending sv)
      in sv\<lparr>sv_pending := removeAll target (sv_pending sv),
            sv_jobs := (if found then cancel_jobs target (sv_jobs sv) else sv_jobs sv),
            sv_log := sv_log sv @ [EvUnlink seqnum target found],
            sv_out := sv_out sv @ [Some (ret_unlink seqnum (if found then - ECONNRESET else 0))]\<rparr>)"

definition serve_end :: "ServerLoop \<Rightarrow> ServerLoop" where
  "serve_end sv =
     sv\<lparr>sv_pending := [], sv_jobs := [], sv_log := sv_log sv @ [EvDisconnected], sv_out := sv_out sv @ [None]\<rparr>"

text \<open>
  One round of the loop: the rest of the stream, or nothing when the connection is dropped. A submit
  that is dropped because of its endpoint has been logged by then; it is the one that a device
  without endpoints would have taken.
\<close>

definition Export_devid :: "Export \<Rightarrow> u32" where
  "Export_devid e = push_bit 16 (ex_busnum e) OR ex_devnum e"

definition logged_submit :: "u32 \<Rightarrow> u32 set \<Rightarrow> rstream \<Rightarrow> Event list" where
  "logged_submit dev pend r =
     (case serve_command [] dev pend r of (Some (SubmitCmd u, _), _) \<Rightarrow> [EvSubmit u] | _ \<Rightarrow> [])"

definition serve_urb ::
  "(u8 \<times> u8) list \<Rightarrow> u32 \<Rightarrow> rstream \<Rightarrow> ServerLoop \<Rightarrow> rstream option \<times> ServerLoop" where
  "serve_urb eps dev r sv =
     (case serve_command eps dev (set (sv_pending sv)) r of
        (None, vs) \<Rightarrow>
          (None, serve_end (sv\<lparr>sv_violations := sv_violations sv @ vs,
             sv_log := sv_log sv @ logged_submit dev (set (sv_pending sv)) r\<rparr>))
      | (Some (SubmitCmd u, r), vs) \<Rightarrow> (Some r, handle_submit u (sv\<lparr>sv_violations := sv_violations sv @ vs\<rparr>))
      | (Some (UnlinkCmd seqnum target, r), vs) \<Rightarrow>
          (Some r, handle_unlink seqnum target (sv\<lparr>sv_violations := sv_violations sv @ vs\<rparr>)))"

lemma Export_devid: "ex_devnum e \<le> 0xffff \<Longrightarrow> Export_devid e = devid (device_of e)"
proof -
  assume "ex_devnum e \<le> 0xffff"
  then have "unat (ex_devnum e) < 2 ^ 16" by (simp add: word_le_nat_alt)
  then have "take_bit 16 (ex_devnum e) = ex_devnum e"
    by (simp add: word_unat_eq_iff unsigned_take_bit_eq take_bit_nat_eq_self)
  then have "ex_devnum e AND 0xffff = ex_devnum e" by (simp add: take_bit_eq_mask mask_eq_exp_minus_1)
  then show ?thesis by (simp add: Export_devid_def devid_def device_of_def)
qed

section \<open>Endpoints and the writer\<close>

fun take_job :: "u8 \<Rightarrow> job list \<Rightarrow> (job \<times> job list) option" where
  "take_job a [] = None"
| "take_job a (j # js) =
     (if urb_address (fst j) = a then Some (j, js)
      else map_option (\<lambda>(j', js). (j', j # js)) (take_job a js))"

text \<open>
  A worker with the next job of its endpoint: either the device's outcome or, if the job was
  cancelled, the cancel is seen first.
\<close>

definition endpoint_worker :: "u8 \<Rightarrow> Outcome option \<Rightarrow> ServerLoop \<Rightarrow> ServerLoop option" where
  "endpoint_worker a choice sv =
     (case take_job a (sv_jobs sv) of
        None \<Rightarrow> None
      | Some ((u, cancelled), jobs) \<Rightarrow>
          (case choice of
             None \<Rightarrow> if cancelled then Some (sv\<lparr>sv_jobs := jobs\<rparr>) else None
           | Some outcome \<Rightarrow>
               if u_seqnum u \<notin> set (sv_pending sv) then Some (sv\<lparr>sv_jobs := jobs\<rparr>)
               else Some (sv\<lparr>sv_jobs := cancel_jobs (u_seqnum u) jobs,
                      sv_pending := removeAll (u_seqnum u) (sv_pending sv),
                      sv_log := sv_log sv @ [EvCompleted (u_seqnum u)],
                      sv_out := sv_out sv @ [case outcome of
                          Complete c \<Rightarrow> Some (ret_submit u c)
                        | Raw bs \<Rightarrow> Some bs
                        | Disconnect \<Rightarrow> None]\<rparr>)))"

definition server_write :: "ServerLoop \<Rightarrow> (bytes \<times> ServerLoop) option" where
  "server_write sv =
     (case sv_out sv of Some frame # rest \<Rightarrow> Some (frame, sv\<lparr>sv_out := rest\<rparr>) | _ \<Rightarrow> None)"

section \<open>Jobs\<close>

abbreviation job_seq :: "job \<Rightarrow> u32" where
  "job_seq j \<equiv> u_seqnum (fst j)"

definition live :: "job list \<Rightarrow> u32 set" where
  "live jobs = {q. \<exists>u. (u, False) \<in> set jobs \<and> q = u_seqnum u}"

lemma job_seqs_cancel [simp]: "map job_seq (cancel_jobs q jobs) = map job_seq jobs"
  by (induction jobs) (auto simp: cancel_jobs_def)

lemma fst_cancel_jobs [simp]: "fst ` set (cancel_jobs q jobs) = fst ` set jobs"
  by (force simp: cancel_jobs_def)

lemma live_cancel [simp]: "live (cancel_jobs q jobs) = live jobs - {q}"
  by (force simp: live_def cancel_jobs_def)

lemma live_simps [simp]:
  "live [] = {}" "live ((u, False) # jobs) = insert (u_seqnum u) (live jobs)"
  "live ((u, True) # jobs) = live jobs" "live (jobs @ jobs') = live jobs \<union> live jobs'"
  by (auto simp: live_def)

lemma live_seqs: "live jobs \<subseteq> set (map job_seq jobs)"
  by (force simp: live_def)

lemma cancel_absent: "q \<notin> set (map job_seq jobs) \<Longrightarrow> cancel_jobs q jobs = jobs"
  by (induction jobs) (auto simp: cancel_jobs_def)

lemma take_job_Some:
  assumes "take_job a jobs = Some (j, jobs')"
  obtains xs ys where "jobs = xs @ j # ys" "jobs' = xs @ ys" "urb_address (fst j) = a"
    "\<forall>x\<in>set xs. urb_address (fst x) \<noteq> a"
proof -
  from assms have "\<exists>xs ys. jobs = xs @ j # ys \<and> jobs' = xs @ ys \<and> urb_address (fst j) = a \<and>
    (\<forall>x\<in>set xs. urb_address (fst x) \<noteq> a)"
  proof (induction jobs arbitrary: jobs')
    case (Cons k jobs)
    show ?case
    proof (cases "urb_address (fst k) = a")
      case True
      with Cons.prems show ?thesis by (intro exI [of _ "[]"] exI [of _ jobs]) auto
    next
      case False
      then obtain js where "take_job a jobs = Some (j, js)" "jobs' = k # js" using Cons.prems by auto
      with Cons.IH obtain xs ys where "jobs = xs @ j # ys" "js = xs @ ys" "urb_address (fst j) = a"
        "\<forall>x\<in>set xs. urb_address (fst x) \<noteq> a" by blast
      with False \<open>jobs' = k # js\<close> show ?thesis by (intro exI [of _ "k # xs"] exI [of _ ys]) auto
    qed
  qed simp
  with that show thesis by blast
qed

section \<open>Every round consumes something\<close>

lemma read_exact_length: "read_exact k r = Inr (bs, r') \<Longrightarrow> length (avail r) = k + length (avail r')"
  by (simp add: read_exact_Inr)

lemma serve_submit_consumes:
  assumes "serve_submit eps h vs r = (Some (c, r'), ws)"
  shows "length (avail r') \<le> length (avail r)"
  using assms
  by (auto simp: serve_submit_def Let_def dest!: read_exact_length split: if_splits sum.splits option.splits prod.splits)

lemma serve_command_consumes:
  assumes "serve_command eps dev pend r = (Some (c, r'), vs)"
  shows "length (avail r') < length (avail r)"
  using assms
  by (auto simp: serve_command_def Let_def dest!: read_exact_length serve_submit_consumes split: if_splits sum.splits prod.splits)

lemma serve_urb_consumes:
  assumes "serve_urb eps dev r sv = (Some r', sv')"
  shows "length (avail r') < length (avail r)"
  using assms
  by (auto simp: serve_urb_def dest: serve_command_consumes split: prod.splits option.splits server_cmd.splits)

lemma endpoint_worker_jobs:
  assumes "endpoint_worker a choice sv = Some sv'"
  shows "length (sv_jobs sv') < length (sv_jobs sv)"
proof -
  obtain u b js where t: "take_job a (sv_jobs sv) = Some ((u, b), js)"
    using assms by (auto simp: endpoint_worker_def split: option.splits)
  obtain xs ys where "sv_jobs sv = xs @ (u, b) # ys" "js = xs @ ys" using take_job_Some [OF t] by metis
  then have "length js < length (sv_jobs sv)" by simp
  then show ?thesis using assms t by (auto simp: endpoint_worker_def cancel_jobs_def split: option.splits if_splits)
qed

end
