(* ===== verification/Exchange.thy ===== *)
theory Exchange
  imports Client Server_Loop
begin

text \<open>
  A session and the reference server exchanging messages: the commands that are on their way to
  the server, the jobs of its endpoints, and the replies that are on their way back, together with
  a history of what was issued and what the device did. Bytes, frames and tasks are left out; the
  theory \<open>Network\<close> puts them back. The invariant says where every transfer and every cancel is.
\<close>

section \<open>Messages in transit\<close>

datatype cmd = Sub u32 SubmitRequest | Unl u32 u32

datatype rep = RSub Urb Completion | RUnl u32 i32

primrec cmd_seq :: "cmd \<Rightarrow> u32" where
  "cmd_seq (Sub q req) = q"
| "cmd_seq (Unl q t) = q"

primrec rep_seq :: "rep \<Rightarrow> u32" where
  "rep_seq (RSub u k) = u_seqnum u"
| "rep_seq (RUnl q s) = q"

definition sub_seqs :: "cmd list \<Rightarrow> u32 set" where
  "sub_seqs cs = {q. \<exists>req. Sub q req \<in> set cs}"

definition ret_seqs :: "rep list \<Rightarrow> u32 set" where
  "ret_seqs rs = {q. \<exists>u k. RSub u k \<in> set rs \<and> q = u_seqnum u}"

definition unl_targets :: "cmd list \<Rightarrow> u32 set" where
  "unl_targets cs = {t. \<exists>q. Unl q t \<in> set cs}"

text \<open>A cancel follows the submit that it cancels.\<close>

fun cancels_last :: "cmd list \<Rightarrow> bool" where
  "cancels_last [] \<longleftrightarrow> True"
| "cancels_last (Sub q req # cs) \<longleftrightarrow> cancels_last cs"
| "cancels_last (Unl q t # cs) \<longleftrightarrow> t \<notin> sub_seqs cs \<and> cancels_last cs"

text \<open>A cancel that came too late is answered after the transfer; \<open>U\<close> are the cancels the client waits for.\<close>

fun answered_first :: "(u32, u32) amap \<Rightarrow> u32 set \<Rightarrow> rep list \<Rightarrow> bool" where
  "answered_first U S [] \<longleftrightarrow> True"
| "answered_first U S (RSub u k # rs) \<longleftrightarrow> answered_first U (insert (u_seqnum u) S) rs"
| "answered_first U S (RUnl q s # rs) \<longleftrightarrow>
     (s = 0 \<longrightarrow> (\<forall>t. (q, t) \<in> set U \<longrightarrow> t \<in> S)) \<and> answered_first U S rs"

lemma unl_targets_simps [simp]:
  "unl_targets [] = {}" "unl_targets (Sub q req # cs) = unl_targets cs"
  "unl_targets (Unl q t # cs) = insert t (unl_targets cs)" "unl_targets (cs @ cs') = unl_targets cs \<union> unl_targets cs'"
  by (auto simp: unl_targets_def)

lemma sub_seqs_simps [simp]:
  "sub_seqs [] = {}" "sub_seqs (Sub q req # cs) = insert q (sub_seqs cs)"
  "sub_seqs (Unl q t # cs) = sub_seqs cs" "sub_seqs (cs @ cs') = sub_seqs cs \<union> sub_seqs cs'"
  by (auto simp: sub_seqs_def)

lemma ret_seqs_simps [simp]:
  "ret_seqs [] = {}" "ret_seqs (RSub u k # rs) = insert (u_seqnum u) (ret_seqs rs)"
  "ret_seqs (RUnl q s # rs) = ret_seqs rs" "ret_seqs (rs @ rs') = ret_seqs rs \<union> ret_seqs rs'"
  by (auto simp: ret_seqs_def)

lemma cancels_last_snoc [simp]:
  "cancels_last (cs @ [Sub q req]) \<longleftrightarrow> cancels_last cs \<and> q \<notin> unl_targets cs"
  "cancels_last (cs @ [Unl q t]) \<longleftrightarrow> cancels_last cs"
  by (induction cs rule: cancels_last.induct) auto

lemma answered_first_snoc [simp]:
  "answered_first U S (rs @ [RSub u k]) \<longleftrightarrow> answered_first U S rs"
  "answered_first U S (rs @ [RUnl q s]) \<longleftrightarrow> answered_first U S rs \<and>
     (s = 0 \<longrightarrow> (\<forall>t. (q, t) \<in> set U \<longrightarrow> t \<in> S \<union> ret_seqs rs))"
  by (induction U S rs rule: answered_first.induct) auto

lemma answered_first_mono:
  "\<lbrakk>answered_first U S rs; \<And>q t. \<lbrakk>(q, t) \<in> set U'; RUnl q 0 \<in> set rs\<rbrakk> \<Longrightarrow> (q, t) \<in> set U \<and> (t \<in> S \<longrightarrow> t \<in> S')\<rbrakk> \<Longrightarrow>
     answered_first U' S' rs"
  by (induction U S rs arbitrary: S' rule: answered_first.induct) auto

text \<open>
  \<open>x_issued\<close> lists the accepted transfers: reply channel, sequence number and request.
  \<open>x_done\<close> is what the device completed.
\<close>

record exchange =
  x_sess :: Shared
  x_cmds :: "cmd list"
  x_jobs :: "job list"
  x_reps :: "rep list"
  x_issued :: "(chan \<times> u32 \<times> SubmitRequest) list"
  x_done :: "(Urb \<times> Completion) list"
  x_log :: "Event list"

definition exchange_init :: "ExportedDevice \<Rightarrow> exchange" where
  "exchange_init d = \<lparr>x_sess = Session_start d, x_cmds = [], x_jobs = [], x_reps = [],
     x_issued = [], x_done = [], x_log = []\<rparr>"

abbreviation urb_for :: "exchange \<Rightarrow> u32 \<Rightarrow> SubmitRequest \<Rightarrow> Urb" where
  "urb_for x q req \<equiv> requested_urb q (s_devid (x_sess x)) req"

text \<open>What the tasks of the client change without a message being sent or received.\<close>

definition quiet :: "Shared \<Rightarrow> Shared \<Rightarrow> bool" where
  "quiet st st' \<longleftrightarrow> (\<exists>fs w b un. st' = st\<lparr>frames := fs, written := w, writer_open := b, unlinked := un\<rparr> \<and>
     length un \<le> length (unlinked st) \<and> (closed st = None \<longrightarrow> un = unlinked st))"

text \<open>What ends a session whose server keeps the protocol: the caller, or the connection.\<close>

definition connection_end :: "close_reason \<Rightarrow> bool" where
  "connection_end why =
     (case why of
        ClosedByClient \<Rightarrow> True | WriteFailed e \<Rightarrow> True | ServerClosed \<Rightarrow> True
      | ReadFailed e \<Rightarrow> (\<exists>i. e = Io i) | _ \<Rightarrow> False)"

text \<open>
  Sequence numbers are handed out at most once: the counter does not come round.
\<close>

inductive exchange_step :: "(u8 \<times> u8) list \<Rightarrow> exchange \<Rightarrow> exchange \<Rightarrow> bool" for eps where
  issue: "\<lbrakk>submit req (x_sess x) = Some (Inr (q, ch), st); wf_request eps req; next_seq (x_sess x) \<noteq> -1\<rbrakk> \<Longrightarrow>
    exchange_step eps x (x\<lparr>x_sess := st, x_cmds := x_cmds x @ [Sub q req], x_issued := x_issued x @ [(ch, q, req)]\<rparr>)"
| cancel: "\<lbrakk>unlink t (x_sess x) = Some st; unlinks st = unlinks (x_sess x) @ [(q, t)]; next_seq (x_sess x) \<noteq> -1\<rbrakk> \<Longrightarrow>
    exchange_step eps x (x\<lparr>x_sess := st, x_cmds := x_cmds x @ [Unl q t]\<rparr>)"
| close: "connection_end why \<Longrightarrow> exchange_step eps x (x\<lparr>x_sess := Shared_close why (x_sess x)\<rparr>)"
| quiet: "quiet (x_sess x) st \<Longrightarrow> exchange_step eps x (x\<lparr>x_sess := st\<rparr>)"
| serve_submit: "x_cmds x = Sub q req # cs \<Longrightarrow>
    exchange_step eps x (x\<lparr>x_cmds := cs, x_jobs := x_jobs x @ [(urb_for x q req, False)]\<rparr>)"
| serve_found: "\<lbrakk>x_cmds x = Unl q t # cs; t \<in> live (x_jobs x)\<rbrakk> \<Longrightarrow>
    exchange_step eps x (x\<lparr>x_cmds := cs, x_jobs := cancel_jobs t (x_jobs x),
      x_reps := x_reps x @ [RUnl q (- ECONNRESET)], x_log := x_log x @ [EvUnlink q t True]\<rparr>)"
| serve_missed: "\<lbrakk>x_cmds x = Unl q t # cs; t \<notin> live (x_jobs x)\<rbrakk> \<Longrightarrow>
    exchange_step eps x (x\<lparr>x_cmds := cs, x_reps := x_reps x @ [RUnl q 0], x_log := x_log x @ [EvUnlink q t False]\<rparr>)"
| complete: "\<lbrakk>x_jobs x = js @ (u, False) # js'; wf_completion u k\<rbrakk> \<Longrightarrow>
    exchange_step eps x (x\<lparr>x_jobs := js @ js', x_reps := x_reps x @ [RSub u k], x_done := x_done x @ [(u, k)]\<rparr>)"
| discard: "x_jobs x = js @ (u, True) # js' \<Longrightarrow> exchange_step eps x (x\<lparr>x_jobs := js @ js'\<rparr>)"
| receive: "x_reps x = RSub u k # rs \<Longrightarrow>
    exchange_step eps x (x\<lparr>x_reps := rs, x_sess := resolve_submit (u_seqnum u) (ret_of u k) (x_sess x)\<rparr>)"
| receive_unlink: "x_reps x = RUnl q s # rs \<Longrightarrow>
    exchange_step eps x (x\<lparr>x_reps := rs,
      x_sess := resolve_unlink \<lparr>ru_seqnum = q, ru_status = s\<rparr> (x_sess x)\<rparr>)"

section \<open>Where everything is\<close>

text \<open>Sequence numbers in transit are distinct and have been handed out.\<close>

abbreviation in_transit :: "exchange \<Rightarrow> u32 list" where
  "in_transit x \<equiv> map cmd_seq (x_cmds x) @ map job_seq (x_jobs x) @ map rep_seq (x_reps x)"

definition seqs_ok :: "exchange \<Rightarrow> bool" where
  "seqs_ok x \<longleftrightarrow> distinct (in_transit x) \<and>
     (\<forall>q\<in>set (in_transit x) \<union> seqs_used (x_sess x) \<union> unl_targets (x_cmds x). q \<le> next_seq (x_sess x))"

text \<open>The requests that were issued, in the order of their reply channels.\<close>

definition ledger_ok :: "(u8 \<times> u8) list \<Rightarrow> exchange \<Rightarrow> bool" where
  "ledger_ok eps x \<longleftrightarrow>
     map fst (x_issued x) = [0..<next_chan (x_sess x)] \<and>
     distinct (map (fst \<circ> snd) (x_issued x)) \<and>
     (\<forall>y\<in>set (x_issued x). wf_request eps (snd (snd y)) \<and> fst (snd y) \<le> next_seq (x_sess x))"

text \<open>Every URB comes from a request that was issued.\<close>

definition issued_urb :: "exchange \<Rightarrow> Urb \<Rightarrow> bool" where
  "issued_urb x u \<longleftrightarrow> (\<exists>ch q req. (ch, q, req) \<in> set (x_issued x) \<and> u = urb_for x q req)"

definition issued_cmd :: "exchange \<Rightarrow> cmd \<Rightarrow> bool" where
  "issued_cmd x c = (case c of Sub q req \<Rightarrow> (\<exists>ch. (ch, q, req) \<in> set (x_issued x)) | Unl q t \<Rightarrow> True)"

definition done_rep :: "exchange \<Rightarrow> rep \<Rightarrow> bool" where
  "done_rep x r = (case r of RSub u k \<Rightarrow> (u, k) \<in> set (x_done x) \<and> wf_completion u k | RUnl q s \<Rightarrow> True)"

definition urbs_ok :: "exchange \<Rightarrow> bool" where
  "urbs_ok x \<longleftrightarrow> (\<forall>c\<in>set (x_cmds x). issued_cmd x c) \<and>
     (\<forall>u\<in>fst ` set (x_jobs x) \<union> fst ` set (x_done x). issued_urb x u) \<and>
     (\<forall>r\<in>set (x_reps x). done_rep x r)"

text \<open>What was completed is not completed again, and what was cancelled is never completed.\<close>

abbreviation done_seqs :: "exchange \<Rightarrow> u32 set" where
  "done_seqs x \<equiv> (\<lambda>d. u_seqnum (fst d)) ` set (x_done x)"

definition found_seqs :: "exchange \<Rightarrow> u32 set" where
  "found_seqs x = {t. \<exists>q. EvUnlink q t True \<in> set (x_log x)}"

definition done_ok :: "exchange \<Rightarrow> bool" where
  "done_ok x \<longleftrightarrow> (\<forall>q\<in>done_seqs x \<union> found_seqs x. q \<le> next_seq (x_sess x)) \<and>
     (done_seqs x \<union> found_seqs x) \<inter> (sub_seqs (x_cmds x) \<union> live (x_jobs x)) = {} \<and>
     done_seqs x \<inter> found_seqs x = {}"

text \<open>A transfer was answered with what the device did for its own request.\<close>

definition answer_ok :: "exchange \<Rightarrow> chan \<Rightarrow> TransferResult \<Rightarrow> bool" where
  "answer_ok x ch r \<longleftrightarrow> (\<exists>q req. (ch, q, req) \<in> set (x_issued x) \<and>
     (case r of
        Inr ret \<Rightarrow> \<exists>k. (urb_for x q req, k) \<in> set (x_done x) \<and> ret = ret_of (urb_for x q req) k
      | Inl (Unlinked s) \<Rightarrow> s = - ECONNRESET \<and> q \<in> found_seqs x
      | Inl (Disconnected why) \<Rightarrow> connection_end why
      | Inl (InvalidRequest e) \<Rightarrow> False))"

text \<open>While the session is open, what it waits for is somewhere on the way.\<close>

definition cancelled_by :: "exchange \<Rightarrow> u32 set" where
  "cancelled_by x = {t. \<exists>q s. RUnl q s \<in> set (x_reps x) \<and> s \<noteq> 0 \<and> (q, t) \<in> set (unlinks (x_sess x))}"

definition submits_ok :: "exchange \<Rightarrow> bool" where
  "submits_ok x \<longleftrightarrow>
     (\<forall>(q, p)\<in>set (submits (x_sess x)). \<exists>req. (ps_reply p, q, req) \<in> set (x_issued x) \<and>
        ps_direction p = sr_direction req \<and> ps_length p = sr_length req) \<and>
     keys (submits (x_sess x)) =
       sub_seqs (x_cmds x) \<union> live (x_jobs x) \<union> ret_seqs (x_reps x) \<union> cancelled_by x"

definition cancel_known :: "exchange \<Rightarrow> u32 \<Rightarrow> i32 \<Rightarrow> bool" where
  "cancel_known x q s \<longleftrightarrow> s = 0 \<or> s = - ECONNRESET \<and>
     (\<exists>t. EvUnlink q t True \<in> set (x_log x) \<and> (\<forall>t'. (q, t') \<in> set (unlinks (x_sess x)) \<longrightarrow> t' = t))"

definition unlinks_ok :: "exchange \<Rightarrow> bool" where
  "unlinks_ok x \<longleftrightarrow> cancels_last (x_cmds x) \<and> answered_first (unlinks (x_sess x)) {} (x_reps x) \<and>
     (\<forall>q t. Unl q t \<in> set (x_cmds x) \<and> t \<in> keys (submits (x_sess x)) \<longrightarrow> (q, t) \<in> set (unlinks (x_sess x))) \<and>
     (\<forall>q t. (q, t) \<in> set (unlinks (x_sess x)) \<longrightarrow> Unl q t \<in> set (x_cmds x) \<or> (\<exists>s. RUnl q s \<in> set (x_reps x))) \<and>
     (\<forall>q s. RUnl q s \<in> set (x_reps x) \<longrightarrow> cancel_known x q s)"

definition exchange_inv :: "(u8 \<times> u8) list \<Rightarrow> exchange \<Rightarrow> bool" where
  "exchange_inv eps x \<longleftrightarrow> session_inv (x_sess x) \<and> seqs_ok x \<and> ledger_ok eps x \<and> urbs_ok x \<and> done_ok x \<and>
     (\<forall>(ch, r)\<in>set (replies (x_sess x)). answer_ok x ch r) \<and>
     (closed (x_sess x) = None \<longrightarrow> submits_ok x \<and> unlinks_ok x)"

section \<open>Sequence numbers\<close>

lemma less_succ: "w \<noteq> -1 \<Longrightarrow> w < w + 1" for w :: u32
proof -
  assume "w \<noteq> -1"
  then have "unat w \<noteq> 2 ^ 32 - 1" by (auto simp: word_unat_eq_iff unsigned_minus_1_eq_mask mask_eq_exp_minus_1)
  then have "Suc (unat w) < 2 ^ 32" using unsigned_less [where ?'a = nat, of w] by simp
  then show ?thesis by (simp add: word_less_nat_alt unat_word_ariths)
qed

lemma succ_fresh:
  fixes w :: u32
  assumes "\<forall>q\<in>A. q \<le> w" "w \<noteq> -1"
  shows "w + 1 \<notin> A" "\<forall>q\<in>A. q \<le> w + 1" "w + 1 \<noteq> 0"
  using assms less_succ [OF assms(2)] by (auto simp: not_le [symmetric] intro: order.trans less_imp_le)

lemma next_seqnum_succ:
  assumes "\<forall>q\<in>seqs_used st. q \<le> next_seq st" "next_seq st \<noteq> -1"
  shows "next_seqnum st = Some (next_seq st + 1, st\<lparr>next_seq := next_seq st + 1\<rparr>)"
  using succ_fresh [OF assms] by (subst next_seqnum.simps) (simp add: Let_def amap_simps)

lemma submit_seq:
  assumes "submit req st = Some (Inr (q, ch), st')" "\<forall>q\<in>seqs_used st. q \<le> next_seq st" "next_seq st \<noteq> -1"
  shows "q = next_seq st + 1"
  using assms(1) next_seqnum_succ [OF assms(2,3)]
  by (auto simp: submit_def Let_def split: if_splits option.splits)

lemma unlink_seq:
  assumes "unlink t st = Some st'" "unlinks st' = unlinks st @ [(q, t)]"
    "\<forall>q\<in>seqs_used st. q \<le> next_seq st" "next_seq st \<noteq> -1"
  shows "q = next_seq st + 1"
proof -
  have "next_seq st + 1 \<notin> keys (unlinks st)" using succ_fresh [OF assms(3,4)] by blast
  then show ?thesis
    using assms(1,2) next_seqnum_succ [OF assms(3,4)]
    by (auto simp: unlink_def Let_def update_new split: if_splits option.splits)
qed

lemma unlink_sent:
  assumes "unlink t st = Some st'" "unlinks st' = unlinks st @ [(q, t)]"
  shows "closed st = None" "t \<in> keys (submits st)" "t \<notin> vals (unlinks st)"
    "st' = send_frame (CmdUnlink_encode \<lparr>cu_seqnum = q, cu_devid = s_devid st, cu_unlink_seqnum = t\<rparr> [])
       (st\<lparr>next_seq := q, unlinks := unlinks st @ [(q, t)]\<rparr>)"
  using assms by (auto elim!: unlink_cases)

section \<open>History only grows\<close>

definition extends :: "exchange \<Rightarrow> exchange \<Rightarrow> bool" where
  "extends x x' \<longleftrightarrow> s_devid (x_sess x') = s_devid (x_sess x) \<and> set (x_issued x) \<subseteq> set (x_issued x') \<and>
     set (x_done x) \<subseteq> set (x_done x') \<and> set (x_log x) \<subseteq> set (x_log x')"

lemma extends_mono:
  assumes "extends x x'"
  shows "issued_urb x u \<Longrightarrow> issued_urb x' u" "issued_cmd x c \<Longrightarrow> issued_cmd x' c"
    "done_rep x r \<Longrightarrow> done_rep x' r" "found_seqs x \<subseteq> found_seqs x'"
proof -
  have e: "set (x_issued x) \<subseteq> set (x_issued x')" "set (x_done x) \<subseteq> set (x_done x')" "set (x_log x) \<subseteq> set (x_log x')"
    "s_devid (x_sess x') = s_devid (x_sess x)" using assms by (simp_all add: extends_def)
  show "issued_urb x u \<Longrightarrow> issued_urb x' u" using e(1) unfolding issued_urb_def e(4) by blast
  show "issued_cmd x c \<Longrightarrow> issued_cmd x' c" using e(1) by (cases c) (auto simp: issued_cmd_def)
  show "done_rep x r \<Longrightarrow> done_rep x' r" using e(2) by (cases r) (auto simp: done_rep_def)
  show "found_seqs x \<subseteq> found_seqs x'" using e(3) by (auto simp: found_seqs_def)
qed

lemma answer_ok_mono:
  assumes "extends x x'" "answer_ok x ch r"
  shows "answer_ok x' ch r"
proof -
  obtain q req where iss: "(ch, q, req) \<in> set (x_issued x)" and r: "case r of
        Inr ret \<Rightarrow> \<exists>k. (urb_for x q req, k) \<in> set (x_done x) \<and> ret = ret_of (urb_for x q req) k
      | Inl (Unlinked s) \<Rightarrow> s = - ECONNRESET \<and> q \<in> found_seqs x
      | Inl (Disconnected why) \<Rightarrow> connection_end why
      | Inl (InvalidRequest e) \<Rightarrow> False"
    using assms(2) by (auto simp: answer_ok_def)
  have "(ch, q, req) \<in> set (x_issued x')" "urb_for x' q req = urb_for x q req"
    "set (x_done x) \<subseteq> set (x_done x')" using assms(1) iss by (auto simp: extends_def)
  then show ?thesis
    using r extends_mono(4) [OF assms(1)] unfolding answer_ok_def
    by (intro exI [of _ q] exI [of _ req]) (auto split: sum.splits TransferError.splits)
qed

lemma answers_same:
  "\<lbrakk>\<forall>(ch, r)\<in>set (replies (x_sess x)). answer_ok x ch r; extends x x'; replies (x_sess x') = replies (x_sess x)\<rbrakk> \<Longrightarrow>
     \<forall>(ch, r)\<in>set (replies (x_sess x')). answer_ok x' ch r"
  using answer_ok_mono by fastforce

section \<open>The cancels\<close>

lemma unlinks_okI:
  assumes "cancels_last (x_cmds x)" "answered_first (unlinks (x_sess x)) {} (x_reps x)"
    and "\<And>q t. \<lbrakk>Unl q t \<in> set (x_cmds x); t \<in> keys (submits (x_sess x))\<rbrakk> \<Longrightarrow> (q, t) \<in> set (unlinks (x_sess x))"
    and "\<And>q t. (q, t) \<in> set (unlinks (x_sess x)) \<Longrightarrow> Unl q t \<in> set (x_cmds x) \<or> (\<exists>s. RUnl q s \<in> set (x_reps x))"
    and "\<And>q s. RUnl q s \<in> set (x_reps x) \<Longrightarrow> cancel_known x q s"
  shows "unlinks_ok x"
  unfolding unlinks_ok_def using assms by blast

lemma unlinks_okD:
  assumes "unlinks_ok x"
  shows "cancels_last (x_cmds x)" "answered_first (unlinks (x_sess x)) {} (x_reps x)"
    and "\<lbrakk>Unl q t \<in> set (x_cmds x); t \<in> keys (submits (x_sess x))\<rbrakk> \<Longrightarrow> (q, t) \<in> set (unlinks (x_sess x))"
    and "(q, t) \<in> set (unlinks (x_sess x)) \<Longrightarrow> Unl q t \<in> set (x_cmds x) \<or> (\<exists>s. RUnl q s \<in> set (x_reps x))"
    and "RUnl q s \<in> set (x_reps x) \<Longrightarrow> cancel_known x q s"
  using assms unfolding unlinks_ok_def by blast+

section \<open>Issuing\<close>

lemma session_fields [simp]:
  "s_devid (resolve_submit q ret st) = s_devid st" "s_devid (resolve_unlink ru st) = s_devid st"
  "next_seq (resolve_submit q ret st) = next_seq st" "next_seq (resolve_unlink ru st) = next_seq st"
  "next_chan (resolve_submit q ret st) = next_chan st" "next_chan (resolve_unlink ru st) = next_chan st"
  "s_devid (Shared_close why st) = s_devid st" "next_seq (Shared_close why st) = next_seq st"
  by (simp_all add: resolve_submit_def resolve_unlink_def Let_def send_reply_def split: option.split)
    (cases "closed st"; simp add: Shared_close_open)+

lemma seq_of_urb [simp]: "u_seqnum (requested_urb q dev req) = q"
  by (simp add: requested_urb_def)

lemma seqs_used_ok: "seqs_ok x \<Longrightarrow> \<forall>q\<in>seqs_used (x_sess x). q \<le> next_seq (x_sess x)"
  by (simp add: seqs_ok_def)

lemma inv_issue:
  assumes inv: "exchange_inv eps x" and sub: "submit req (x_sess x) = Some (Inr (q, ch), st)"
    and wf: "wf_request eps req" and nw: "next_seq (x_sess x) \<noteq> -1"
  shows "exchange_inv eps (x\<lparr>x_sess := st, x_cmds := x_cmds x @ [Sub q req], x_issued := x_issued x @ [(ch, q, req)]\<rparr>)"
    (is "exchange_inv eps ?x")
proof -
  note s = submit_Inr [OF sub]
  have so: "seqs_ok x" and lo: "ledger_ok eps x" and uo: "urbs_ok x" and don: "done_ok x" and si: "session_inv (x_sess x)"
    using inv by (simp_all add: exchange_inv_def)
  have q: "q = next_seq (x_sess x) + 1" by (rule submit_seq [OF sub seqs_used_ok [OF so] nw])
  have st: "s_devid st = s_devid (x_sess x)" "next_seq st = q" "next_chan st = Suc ch" "replies st = replies (x_sess x)"
    "unlinks st = unlinks (x_sess x)" "closed st = None"
    "submits st = submits (x_sess x) @ [(q, \<lparr>ps_direction = sr_direction req, ps_length = sr_length req, ps_reply = ch\<rparr>)]"
    using s by simp_all
  have ext: "extends x ?x" by (auto simp: extends_def st)
  have "\<forall>r\<in>set (in_transit x) \<union> seqs_used (x_sess x) \<union> (fst \<circ> snd) ` set (x_issued x) \<union> done_seqs x \<union> found_seqs x \<union>
      unl_targets (x_cmds x). r \<le> next_seq (x_sess x)"
    using so lo don by (auto simp: seqs_ok_def ledger_ok_def done_ok_def)
  note fresh = succ_fresh [OF this nw, folded q]
  have "seqs_ok ?x" using so fresh by (auto simp: seqs_ok_def st)
  moreover have "ledger_ok eps ?x" using lo fresh s(4) wf by (auto simp: ledger_ok_def st)
  moreover have "urbs_ok ?x"
    using uo extends_mono [OF ext] by (auto simp: urbs_ok_def issued_cmd_def)
  moreover have "done_ok ?x" using don fresh by (auto simp: done_ok_def st found_seqs_def)
  moreover have "session_inv st" using session_inv_submit [OF si sub] .
  moreover have "\<forall>(ch, r)\<in>set (replies st). answer_ok ?x ch r"
    using inv answers_same [OF _ ext] by (auto simp: exchange_inv_def st)
  moreover have "submits_ok ?x"
    using inv s(1) by (fastforce simp: exchange_inv_def submits_ok_def st cancelled_by_def)
  moreover have "unlinks_ok ?x"
  proof -
    have un: "unlinks_ok x" using inv s(1) by (simp add: exchange_inv_def)
    have "q \<notin> unl_targets (x_cmds x)" using fresh(1) by simp
    then have "Unl p q \<notin> set (x_cmds x)" for p by (auto simp: unl_targets_def)
    with \<open>q \<notin> unl_targets (x_cmds x)\<close> show ?thesis using unlinks_okD [OF un]
      by (intro unlinks_okI) (auto simp: st cancel_known_def)
  qed
  ultimately show ?thesis by (simp add: exchange_inv_def st)
qed

lemma unl_absent: "q \<notin> rep_seq ` set rs \<Longrightarrow> RUnl q s \<notin> set rs"
  by force

lemma inv_cancel:
  assumes inv: "exchange_inv eps x" and unl: "unlink t (x_sess x) = Some st" "unlinks st = unlinks (x_sess x) @ [(q, t)]"
    and nw: "next_seq (x_sess x) \<noteq> -1"
  shows "exchange_inv eps (x\<lparr>x_sess := st, x_cmds := x_cmds x @ [Unl q t]\<rparr>)"
    (is "exchange_inv eps ?x")
proof -
  note s = unlink_sent [OF unl]
  have so: "seqs_ok x" and lo: "ledger_ok eps x" and uo: "urbs_ok x" and don: "done_ok x" and si: "session_inv (x_sess x)"
    and sm: "submits_ok x" and un: "unlinks_ok x"
    using inv s(1) by (simp_all add: exchange_inv_def)
  have q: "q = next_seq (x_sess x) + 1" by (rule unlink_seq [OF unl seqs_used_ok [OF so] nw])
  have st: "s_devid st = s_devid (x_sess x)" "next_seq st = q" "next_chan st = next_chan (x_sess x)"
    "replies st = replies (x_sess x)" "unlinks st = unlinks (x_sess x) @ [(q, t)]" "closed st = None"
    "submits st = submits (x_sess x)"
    using s by simp_all
  have ext: "extends x ?x" by (auto simp: extends_def st)
  have "\<forall>r\<in>set (in_transit x) \<union> seqs_used (x_sess x) \<union> (fst \<circ> snd) ` set (x_issued x) \<union> done_seqs x \<union> found_seqs x \<union>
      unl_targets (x_cmds x). r \<le> next_seq (x_sess x)"
    using so lo don by (auto simp: seqs_ok_def ledger_ok_def done_ok_def)
  note fresh = succ_fresh [OF this nw, folded q]
  have "seqs_ok ?x" using so fresh s(2) by (auto simp: seqs_ok_def st)
  moreover have "ledger_ok eps ?x" using lo fresh by (auto simp: ledger_ok_def st)
  moreover have "urbs_ok ?x"
    using uo extends_mono [OF ext] by (auto simp: urbs_ok_def issued_cmd_def)
  moreover have "done_ok ?x" using don fresh by (auto simp: done_ok_def st found_seqs_def)
  moreover have "session_inv st" using session_inv_unlink [OF si unl(1)] .
  moreover have "\<forall>(ch, r)\<in>set (replies st). answer_ok ?x ch r"
    using inv answers_same [OF _ ext] by (auto simp: exchange_inv_def st)
  moreover have "submits_ok ?x"
  proof -
    have "RUnl q s \<notin> set (x_reps x)" for s by (rule unl_absent) (use fresh(1) in simp)
    then have "cancelled_by ?x = cancelled_by x" by (auto simp: cancelled_by_def st)
    then show ?thesis using sm by (simp add: submits_ok_def st)
  qed
  moreover have "unlinks_ok ?x"
  proof -
    have r: "RUnl q s \<notin> set (x_reps x)" for s by (rule unl_absent) (use fresh(1) in simp)
    have "answered_first (unlinks (x_sess x)) {} (x_reps x)" using un by (simp add: unlinks_ok_def)
    then have "answered_first (unlinks st) {} (x_reps x)"
      by (rule answered_first_mono) (use r in \<open>auto simp: st\<close>)
    moreover have "cancel_known ?x q' s" if "RUnl q' s \<in> set (x_reps x)" for q' s
    proof -
      have "q' \<noteq> q" using that r by blast
      then show ?thesis using unlinks_okD(5) [OF un that] by (simp add: cancel_known_def st)
    qed
    moreover have "(q', t') \<in> set (unlinks st)" if "q' = q \<and> t' = t \<or> Unl q' t' \<in> set (x_cmds x)" "t' \<in> keys (submits (x_sess x))" for q' t'
      using that unlinks_okD(3) [OF un, of q' t'] by (cases "q' = q \<and> t' = t") (simp_all add: st)
    moreover have "Unl q' t' \<in> set (x_cmds x @ [Unl q t]) \<or> (\<exists>s. RUnl q' s \<in> set (x_reps x))" if "(q', t') \<in> set (unlinks st)" for q' t'
      using that unlinks_okD(4) [OF un, of q' t'] by (cases "q' = q \<and> t' = t") (simp_all add: st)
    ultimately show ?thesis using unlinks_okD(1) [OF un] by (intro unlinks_okI) (simp_all add: st(7))
  qed
  ultimately show ?thesis by (simp add: exchange_inv_def st)
qed

lemma seqs_shrink:
  assumes "seqs_ok x" "distinct (in_transit x')" "set (in_transit x') \<subseteq> set (in_transit x)"
    "seqs_used (x_sess x') \<subseteq> seqs_used (x_sess x)" "unl_targets (x_cmds x') \<subseteq> unl_targets (x_cmds x)"
    "next_seq (x_sess x') = next_seq (x_sess x)"
  shows "seqs_ok x'"
proof -
  have "q \<le> next_seq (x_sess x)"
    if "q \<in> set (in_transit x) \<union> seqs_used (x_sess x) \<union> unl_targets (x_cmds x)" for q
    using assms(1) that unfolding seqs_ok_def by blast
  then have "\<forall>q\<in>set (in_transit x') \<union> seqs_used (x_sess x') \<union> unl_targets (x_cmds x'). q \<le> next_seq (x_sess x)"
    using assms(3-5) by (meson Un_mono subsetD)
  then show ?thesis using assms(2,6) by (simp add: seqs_ok_def)
qed

lemma inv_same:
  assumes "exchange_inv eps x" "session_inv (x_sess x')" "s_devid (x_sess x') = s_devid (x_sess x)"
    "next_seq (x_sess x') = next_seq (x_sess x)" "next_chan (x_sess x') = next_chan (x_sess x)"
    "seqs_used (x_sess x') \<subseteq> seqs_used (x_sess x)"
    "x_cmds x' = x_cmds x" "x_jobs x' = x_jobs x" "x_reps x' = x_reps x" "x_issued x' = x_issued x"
    "x_done x' = x_done x" "x_log x' = x_log x"
    "\<forall>(ch, r)\<in>set (replies (x_sess x')). answer_ok x' ch r"
    "closed (x_sess x') = None \<longrightarrow> submits_ok x' \<and> unlinks_ok x'"
  shows "exchange_inv eps x'"
proof -
  have "extends x x'" using assms by (simp add: extends_def)
  note m = extends_mono [OF this]
  have f: "found_seqs x' = found_seqs x" using assms by (simp add: found_seqs_def)
  have x: "seqs_ok x" "ledger_ok eps x" "urbs_ok x" "done_ok x" using assms(1) by (simp_all add: exchange_inv_def)
  have "distinct (in_transit x')" using x(1) by (simp add: seqs_ok_def assms(7-9))
  then have "seqs_ok x'" by (rule seqs_shrink [OF x(1) _ _ assms(6) _ assms(4)]) (simp_all add: assms(7-9))
  moreover have "ledger_ok eps x'" using x(2) unfolding ledger_ok_def assms(4,5,10) .
  moreover have "urbs_ok x'" using x(3) m unfolding urbs_ok_def assms(7-9,11) by blast
  moreover have "done_ok x'" using x(4) unfolding done_ok_def assms(4,7,8,11) f .
  ultimately show ?thesis using assms(2,13,14) by (simp add: exchange_inv_def)
qed

lemma inv_quiet:
  assumes inv: "exchange_inv eps x" and q: "quiet (x_sess x) st"
  shows "exchange_inv eps (x\<lparr>x_sess := st\<rparr>)" (is "exchange_inv eps ?x")
proof -
  obtain fs w b un where st: "st = (x_sess x)\<lparr>frames := fs, written := w, writer_open := b, unlinked := un\<rparr>"
    "length un \<le> length (unlinked (x_sess x))" using q by (auto simp: quiet_def)
  have e: "extends x ?x" by (simp add: extends_def st)
  show ?thesis
  proof (rule inv_same [OF inv])
    show "session_inv (x_sess ?x)" using inv st(2) by (simp add: exchange_inv_def session_inv_def st(1))
    show "\<forall>(ch, r)\<in>set (replies (x_sess ?x)). answer_ok ?x ch r"
      using inv answers_same [OF _ e] by (simp add: exchange_inv_def st)
    have c: "cancelled_by ?x = cancelled_by x" "cancel_known ?x = cancel_known x"
      by (auto simp: cancelled_by_def cancel_known_def st fun_eq_iff)
    show "closed (x_sess ?x) = None \<longrightarrow> submits_ok ?x \<and> unlinks_ok ?x"
      using inv by (simp add: exchange_inv_def submits_ok_def unlinks_ok_def c) (simp add: st)
  qed (simp_all add: st)
qed

lemma inv_close:
  assumes inv: "exchange_inv eps x" and why: "connection_end why"
  shows "exchange_inv eps (x\<lparr>x_sess := Shared_close why (x_sess x)\<rparr>)" (is "exchange_inv eps ?x")
proof (cases "closed (x_sess x)")
  case (Some r)
  then have "?x = x" by (simp add: Shared_close_def)
  then show ?thesis using inv by simp
next
  case None
  let ?st = "Shared_close why (x_sess x)"
  have st: "submits ?st = []" "unlinks ?st = []" "closed ?st \<noteq> None" "next_chan ?st = next_chan (x_sess x)"
    "replies ?st = replies (x_sess x) @ map (\<lambda>p. (ps_reply (snd p), Inl (Disconnected why))) (submits (x_sess x))"
    "s_devid ?st = s_devid (x_sess x)" "next_seq ?st = next_seq (x_sess x)"
    by (simp_all add: Shared_close_open None)
  have e: "extends x ?x" by (simp add: extends_def st)
  show ?thesis
  proof (rule inv_same [OF inv])
    show "session_inv (x_sess ?x)" using inv by (simp add: exchange_inv_def session_inv_close)
    have "answer_ok ?x (ps_reply p) (Inl (Disconnected why))" if "(q, p) \<in> set (submits (x_sess x))" for q p
      using inv None why that by (force simp: exchange_inv_def submits_ok_def answer_ok_def)
    moreover have "answer_ok ?x ch r" if "(ch, r) \<in> set (replies (x_sess x))" for ch r
      using inv that answer_ok_mono [OF e] by (auto simp: exchange_inv_def)
    ultimately show "\<forall>(ch, r)\<in>set (replies (x_sess ?x)). answer_ok ?x ch r" by (auto simp: st)
  qed (simp_all add: st)
qed

section \<open>The server's side\<close>

lemma econnreset_nonzero [simp]: "- ECONNRESET \<noteq> 0" "ECONNRESET \<noteq> 0"
  by (simp_all add: ECONNRESET_def)

lemma sub_cmd_seqs: "sub_seqs cs \<subseteq> cmd_seq ` set cs"
  by (force simp: sub_seqs_def)

lemma ret_rep_seqs: "ret_seqs rs \<subseteq> rep_seq ` set rs"
  by (force simp: ret_seqs_def)

lemma inv_server:
  assumes inv: "exchange_inv eps x"
    and x: "x_sess x' = x_sess x" "x_issued x' = x_issued x" "extends x x'"
    and seqs: "distinct (in_transit x')" "set (in_transit x') \<subseteq> set (in_transit x)" "unl_targets (x_cmds x') \<subseteq> unl_targets (x_cmds x)"
    and urbs: "urbs_ok x'" and don: "done_ok x'"
    and links: "closed (x_sess x) = None \<Longrightarrow> submits_ok x' \<and> unlinks_ok x'"
  shows "exchange_inv eps x'"
proof -
  have "seqs_ok x" using inv by (simp add: exchange_inv_def)
  then have "seqs_ok x'" by (rule seqs_shrink [OF _ seqs(1,2) _ seqs(3)]) (simp_all add: x)
  moreover have "ledger_ok eps x'" using inv unfolding exchange_inv_def ledger_ok_def x by blast
  moreover have "\<forall>(ch, r)\<in>set (replies (x_sess x')). answer_ok x' ch r"
    using inv answers_same [OF _ x(3)] unfolding exchange_inv_def x(1) by blast
  ultimately show ?thesis using inv urbs don links by (simp add: exchange_inv_def x(1))
qed

lemma inv_serve_submit:
  assumes inv: "exchange_inv eps x" and c: "x_cmds x = Sub q req # cs"
  shows "exchange_inv eps (x\<lparr>x_cmds := cs, x_jobs := x_jobs x @ [(urb_for x q req, False)]\<rparr>)"
    (is "exchange_inv eps ?x")
proof (rule inv_server [OF inv])
  have ext: "extends x ?x" by (simp add: extends_def)
  then show "extends x ?x" .
  show "distinct (in_transit ?x)" using inv by (auto simp: exchange_inv_def seqs_ok_def c)
  have uo: "urbs_ok x" using inv by (simp add: exchange_inv_def)
  then have "issued_urb x (urb_for x q req)" by (auto simp: urbs_ok_def issued_cmd_def c issued_urb_def)
  then show "urbs_ok ?x" using uo extends_mono [OF ext] by (auto simp: urbs_ok_def c)
  show "done_ok ?x" using inv by (auto simp: exchange_inv_def done_ok_def c found_seqs_def)
  assume "closed (x_sess x) = None"
  then have "submits_ok x" "unlinks_ok x" using inv by (simp_all add: exchange_inv_def)
  then show "submits_ok ?x \<and> unlinks_ok ?x"
    by (auto simp: submits_ok_def unlinks_ok_def c cancelled_by_def cancel_known_def)
qed (auto simp: c)

lemma unlink_pair:
  assumes "exchange_inv eps x" "closed (x_sess x) = None" "x_cmds x = Unl q t # cs" "(q, t') \<in> set (unlinks (x_sess x))"
  shows "t' = t"
proof -
  have "Unl q t' \<in> set (x_cmds x) \<or> (\<exists>s. RUnl q s \<in> set (x_reps x))"
    using assms unlinks_okD(4) [of x q t'] by (simp add: exchange_inv_def)
  moreover have d: "q \<notin> cmd_seq ` set cs" "q \<notin> rep_seq ` set (x_reps x)"
    using assms(1,3) by (auto simp: exchange_inv_def seqs_ok_def)
  ultimately show ?thesis using assms(3) unl_absent [OF d(2)] by force
qed

lemma inv_serve_found:
  assumes inv: "exchange_inv eps x" and c: "x_cmds x = Unl q t # cs" and t: "t \<in> live (x_jobs x)"
  shows "exchange_inv eps (x\<lparr>x_cmds := cs, x_jobs := cancel_jobs t (x_jobs x),
      x_reps := x_reps x @ [RUnl q (- ECONNRESET)], x_log := x_log x @ [EvUnlink q t True]\<rparr>)"
    (is "exchange_inv eps ?x")
proof (rule inv_server [OF inv])
  have ext: "extends x ?x" by (auto simp: extends_def)
  then show "extends x ?x" .
  have d: "distinct (in_transit x)" and le: "\<forall>q\<in>set (in_transit x). q \<le> next_seq (x_sess x)"
    using inv by (auto simp: exchange_inv_def seqs_ok_def)
  then show "distinct (in_transit ?x)" by (auto simp: c)
  show "urbs_ok ?x" using inv extends_mono [OF ext] by (auto simp: exchange_inv_def urbs_ok_def c done_rep_def)
  have tj: "t \<in> set (map job_seq (x_jobs x))" using t live_seqs by blast
  then have ts: "t \<notin> sub_seqs cs" using d sub_cmd_seqs [of cs] by (auto simp: c)
  have f: "found_seqs ?x = insert t (found_seqs x)" by (auto simp: found_seqs_def)
  have "done_ok x" using inv by (simp add: exchange_inv_def)
  then show "done_ok ?x" using ts t le tj unfolding done_ok_def f by (auto simp: c)
  assume op: "closed (x_sess x) = None"
  then have sm: "submits_ok x" and un: "unlinks_ok x" and wf: "wf_amap (unlinks (x_sess x))"
    using inv by (simp_all add: exchange_inv_def session_inv_def)
  have "t \<in> keys (submits (x_sess x))" using sm t by (simp add: submits_ok_def)
  then have qt: "(q, t) \<in> set (unlinks (x_sess x))" using unlinks_okD(3) [OF un] by (simp add: c)
  note pair = unlink_pair [OF inv op c]
  have "cancelled_by ?x = cancelled_by x \<union> {t'. (q, t') \<in> set (unlinks (x_sess x))}"
    unfolding cancelled_by_def by simp (use econnreset_nonzero(1) in blast)
  moreover have "{t'. (q, t') \<in> set (unlinks (x_sess x))} = {t}" using qt pair by blast
  ultimately have "submits_ok ?x" using sm t by (auto simp: submits_ok_def c)
  moreover have "unlinks_ok ?x"
  proof (rule unlinks_okI)
    show "cancel_known ?x q' s" if "RUnl q' s \<in> set (x_reps ?x)" for q' s
      using that pair unlinks_okD(5) [OF un, of q' s] by (auto simp: cancel_known_def)
    show "Unl q' t' \<in> set (x_cmds ?x) \<or> (\<exists>s. RUnl q' s \<in> set (x_reps ?x))" if "(q', t') \<in> set (unlinks (x_sess ?x))" for q' t'
      using that unlinks_okD(4) [OF un, of q' t'] by (auto simp: c)
  qed (use unlinks_okD [OF un] in \<open>simp_all add: c\<close>)
  ultimately show "submits_ok ?x \<and> unlinks_ok ?x" by blast
qed (auto simp: c)

lemma inv_serve_missed:
  assumes inv: "exchange_inv eps x" and c: "x_cmds x = Unl q t # cs" and t: "t \<notin> live (x_jobs x)"
  shows "exchange_inv eps (x\<lparr>x_cmds := cs, x_reps := x_reps x @ [RUnl q 0], x_log := x_log x @ [EvUnlink q t False]\<rparr>)"
    (is "exchange_inv eps ?x")
proof (rule inv_server [OF inv])
  have ext: "extends x ?x" by (auto simp: extends_def)
  then show "extends x ?x" .
  have d: "distinct (in_transit x)" using inv by (auto simp: exchange_inv_def seqs_ok_def)
  then show "distinct (in_transit ?x)" by (auto simp: c)
  show "urbs_ok ?x" using inv extends_mono [OF ext] by (auto simp: exchange_inv_def urbs_ok_def c done_rep_def)
  show "done_ok ?x" using inv by (auto simp: exchange_inv_def done_ok_def c found_seqs_def)
  assume op: "closed (x_sess x) = None"
  then have sm: "submits_ok x" and un: "unlinks_ok x" and si: "session_inv (x_sess x)"
    using inv by (simp_all add: exchange_inv_def)
  note pair = unlink_pair [OF inv op c]
  have qr: "q \<notin> rep_seq ` set (x_reps x)" using d by (auto simp: c)
  have "t \<in> ret_seqs (x_reps x)" if qt: "(q, t) \<in> set (unlinks (x_sess x))"
  proof -
    have "t \<in> keys (submits (x_sess x))" using si qt by (force simp: session_inv_def)
    moreover have "t \<notin> sub_seqs (x_cmds x)" using un by (simp add: unlinks_ok_def c)
    moreover have "t \<notin> cancelled_by x"
    proof
      assume "t \<in> cancelled_by x"
      then obtain q' s where "RUnl q' s \<in> set (x_reps x)" "(q', t) \<in> set (unlinks (x_sess x))"
        by (auto simp: cancelled_by_def)
      moreover have "q' = q"
        using calculation(2) qt si inj_onD [of snd "set (unlinks (x_sess x))" "(q', t)" "(q, t)"]
        by (simp add: session_inv_def distinct_map)
      ultimately show False using unl_absent [OF qr] by blast
    qed
    ultimately show ?thesis using sm t by (auto simp: submits_ok_def)
  qed
  note first = this
  have "unlinks_ok ?x"
  proof (rule unlinks_okI)
    show "cancel_known ?x q' s" if "RUnl q' s \<in> set (x_reps ?x)" for q' s
      using that unlinks_okD(5) [OF un, of q' s] by (auto simp: cancel_known_def)
    show "Unl q' t' \<in> set (x_cmds ?x) \<or> (\<exists>s. RUnl q' s \<in> set (x_reps ?x))" if "(q', t') \<in> set (unlinks (x_sess ?x))" for q' t'
      using that unlinks_okD(4) [OF un, of q' t'] by (auto simp: c)
    have "t' \<in> ret_seqs (x_reps x)" if "(q, t') \<in> set (unlinks (x_sess x))" for t'
      using that pair [OF that] first by simp
    then show "answered_first (unlinks (x_sess ?x)) {} (x_reps ?x)" using unlinks_okD(2) [OF un] by simp
  qed (use unlinks_okD [OF un] in \<open>simp_all add: c\<close>)
  moreover have "cancelled_by ?x = cancelled_by x" by (auto simp: cancelled_by_def)
  then have "submits_ok ?x" using sm by (auto simp: submits_ok_def c)
  ultimately show "submits_ok ?x \<and> unlinks_ok ?x" by blast
qed (auto simp: c)

lemma inv_complete:
  assumes inv: "exchange_inv eps x" and j: "x_jobs x = js @ (u, False) # js'" and wf: "wf_completion u k"
  shows "exchange_inv eps (x\<lparr>x_jobs := js @ js', x_reps := x_reps x @ [RSub u k], x_done := x_done x @ [(u, k)]\<rparr>)"
    (is "exchange_inv eps ?x")
proof (rule inv_server [OF inv])
  have ext: "extends x ?x" by (auto simp: extends_def)
  then show "extends x ?x" .
  have d: "distinct (in_transit x)" and le: "\<forall>q\<in>set (in_transit x). q \<le> next_seq (x_sess x)"
    using inv by (auto simp: exchange_inv_def seqs_ok_def)
  then show "distinct (in_transit ?x)" by (auto simp: j)
  have uo: "urbs_ok x" using inv by (simp add: exchange_inv_def)
  then show "urbs_ok ?x" using wf extends_mono [OF ext] by (auto simp: urbs_ok_def j done_rep_def)
  have "u_seqnum u \<notin> sub_seqs (x_cmds x)" using d sub_cmd_seqs by (auto simp: j)
  moreover have "u_seqnum u \<notin> live (js @ js')" using d live_seqs [of "js @ js'"] by (auto simp: j)
  moreover have "done_ok x" using inv by (simp add: exchange_inv_def)
  ultimately show "done_ok ?x" using le by (auto simp: done_ok_def j found_seqs_def)
  assume "closed (x_sess x) = None"
  then have "submits_ok x" "unlinks_ok x" using inv by (simp_all add: exchange_inv_def)
  then show "submits_ok ?x \<and> unlinks_ok ?x"
    by (auto simp: submits_ok_def unlinks_ok_def j cancelled_by_def cancel_known_def)
qed (auto simp: j)

lemma inv_discard:
  assumes inv: "exchange_inv eps x" and j: "x_jobs x = js @ (u, True) # js'"
  shows "exchange_inv eps (x\<lparr>x_jobs := js @ js'\<rparr>)" (is "exchange_inv eps ?x")
proof (rule inv_server [OF inv])
  have ext: "extends x ?x" by (auto simp: extends_def)
  then show "extends x ?x" .
  show "distinct (in_transit ?x)" using inv by (auto simp: exchange_inv_def seqs_ok_def j)
  show "urbs_ok ?x" using inv extends_mono [OF ext] by (auto simp: exchange_inv_def urbs_ok_def j)
  show "done_ok ?x" using inv by (auto simp: exchange_inv_def done_ok_def j found_seqs_def)
  assume "closed (x_sess x) = None"
  then have "submits_ok x" "unlinks_ok x" using inv by (simp_all add: exchange_inv_def)
  then show "submits_ok ?x \<and> unlinks_ok ?x"
    by (auto simp: submits_ok_def unlinks_ok_def j cancelled_by_def cancel_known_def)
qed (auto simp: j)

section \<open>Receiving\<close>

lemma resolve_submit_tables:
  "submits (resolve_submit q ret st) = AList.delete q (submits st)"
  "unlinks (resolve_submit q ret st) = retain (\<lambda>_ t. t \<noteq> q) (unlinks st)"
  by (simp_all add: resolve_submit_def Let_def send_reply_def split: option.split)

lemma cancel_known_mono:
  "\<lbrakk>cancel_known x q s; set (x_log x) \<subseteq> set (x_log x'); set (unlinks (x_sess x')) \<subseteq> set (unlinks (x_sess x))\<rbrakk> \<Longrightarrow>
     cancel_known x' q s"
  unfolding cancel_known_def by blast

lemma cancelled_found: "unlinks_ok x \<Longrightarrow> cancelled_by x \<subseteq> found_seqs x"
  using unlinks_okD(5) unfolding cancelled_by_def cancel_known_def found_seqs_def by blast

lemma ret_done:
  assumes "urbs_ok x"
  shows "ret_seqs (x_reps x) \<subseteq> done_seqs x"
proof
  fix q
  assume "q \<in> ret_seqs (x_reps x)"
  then obtain u k where q: "RSub u k \<in> set (x_reps x)" "q = u_seqnum u" by (auto simp: ret_seqs_def)
  then have "done_rep x (RSub u k)" using assms by (simp add: urbs_ok_def)
  then show "q \<in> done_seqs x" using q(2) by (force simp: done_rep_def)
qed

lemma reps_shrink:
  assumes inv: "exchange_inv eps x" and r: "x_reps x = r # rs"
    and st: "s_devid st = s_devid (x_sess x)" "next_seq st = next_seq (x_sess x)" "next_chan st = next_chan (x_sess x)"
      "seqs_used st \<subseteq> seqs_used (x_sess x)" "session_inv st" "closed st = closed (x_sess x)"
    and ans: "\<forall>(ch, a)\<in>set (replies st). answer_ok x ch a"
    and links: "closed (x_sess x) = None \<Longrightarrow> submits_ok (x\<lparr>x_reps := rs, x_sess := st\<rparr>) \<and> unlinks_ok (x\<lparr>x_reps := rs, x_sess := st\<rparr>)"
  shows "exchange_inv eps (x\<lparr>x_reps := rs, x_sess := st\<rparr>)" (is "exchange_inv eps ?x")
proof -
  have so: "seqs_ok x" and lo: "ledger_ok eps x" and uo: "urbs_ok x" and don: "done_ok x"
    using inv by (simp_all add: exchange_inv_def)
  have ext: "extends x ?x" by (simp add: extends_def st)
  have "distinct (in_transit ?x)" using so by (auto simp: seqs_ok_def r)
  then have "seqs_ok ?x" by (rule seqs_shrink [OF so]) (use st(2,4) in \<open>auto simp: r\<close>)
  moreover have "ledger_ok eps ?x" using lo by (simp add: ledger_ok_def st)
  moreover have "urbs_ok ?x" using uo extends_mono [OF ext] by (auto simp: urbs_ok_def r)
  moreover have "done_ok ?x" using don by (simp add: done_ok_def found_seqs_def st)
  moreover have "\<forall>(ch, a)\<in>set (replies st). answer_ok ?x ch a" using ans answer_ok_mono [OF ext] by blast
  ultimately show ?thesis using links st(5,6) by (simp add: exchange_inv_def)
qed

lemma receive_links:
  assumes inv: "exchange_inv eps x" and r: "x_reps x = RSub u k # rs" and op: "closed (x_sess x) = None"
  shows "submits_ok (x\<lparr>x_reps := rs, x_sess := resolve_submit (u_seqnum u) ret (x_sess x)\<rparr>)" (is "submits_ok ?x")
    and "unlinks_ok (x\<lparr>x_reps := rs, x_sess := resolve_submit (u_seqnum u) ret (x_sess x)\<rparr>)"
proof -
  let ?q = "u_seqnum u"
  have sm: "submits_ok x" and un: "unlinks_ok x" using inv op by (simp_all add: exchange_inv_def)
  have "?q \<in> done_seqs x" using ret_done [of x] inv by (simp add: exchange_inv_def r)
  then have away: "?q \<notin> found_seqs x" "?q \<notin> sub_seqs (x_cmds x)" "?q \<notin> live (x_jobs x)"
    using inv by (auto simp: exchange_inv_def done_ok_def)
  have "?q \<notin> rep_seq ` set rs" using inv by (auto simp: exchange_inv_def seqs_ok_def r)
  then have qr: "?q \<notin> ret_seqs rs" using ret_rep_seqs by blast
  have qc: "?q \<notin> cancelled_by x"
    using cancelled_found [OF un] away(1) by blast
  have u: "set (unlinks (x_sess ?x)) = {(q, t) \<in> set (unlinks (x_sess x)). t \<noteq> ?q}"
    by (auto simp: resolve_submit_tables set_retain)
  have "cancelled_by ?x = cancelled_by x - {?q}" unfolding cancelled_by_def u by (auto simp: r)
  moreover have "keys (submits (x_sess x)) =
      sub_seqs (x_cmds x) \<union> live (x_jobs x) \<union> insert ?q (ret_seqs rs) \<union> cancelled_by x"
    using sm by (simp add: submits_ok_def r)
  ultimately have "keys (submits (x_sess ?x)) =
      sub_seqs (x_cmds ?x) \<union> live (x_jobs ?x) \<union> ret_seqs (x_reps ?x) \<union> cancelled_by ?x"
    using away(2,3) qr by (simp add: resolve_submit_tables keys_delete) blast
  then show "submits_ok ?x"
    using sm unfolding submits_ok_def by (auto simp: resolve_submit_tables set_delete_eq)
  have sub: "t \<in> keys (submits (x_sess x)) \<and> t \<noteq> ?q" if "t \<in> keys (submits (x_sess ?x))" for t
    using that by (simp add: resolve_submit_tables keys_delete)
  show "unlinks_ok ?x"
  proof (rule unlinks_okI)
    have "answered_first (unlinks (x_sess x)) {?q} rs" using unlinks_okD(2) [OF un] by (simp add: r)
    then show "answered_first (unlinks (x_sess ?x)) {} (x_reps ?x)"
      by (simp, elim answered_first_mono) (use u in auto)
    show "cancel_known ?x q s" if "RUnl q s \<in> set (x_reps ?x)" for q s
      by (rule cancel_known_mono [of x]) (use that unlinks_okD(5) [OF un, of q s] u in \<open>auto simp: r\<close>)
    show "(q, t) \<in> set (unlinks (x_sess ?x))" if "Unl q t \<in> set (x_cmds ?x)" "t \<in> keys (submits (x_sess ?x))" for q t
      using that(1) sub [OF that(2)] unlinks_okD(3) [OF un, of q t] u by simp
    show "Unl q t \<in> set (x_cmds ?x) \<or> (\<exists>s. RUnl q s \<in> set (x_reps ?x))" if "(q, t) \<in> set (unlinks (x_sess ?x))" for q t
      using that unlinks_okD(4) [OF un, of q t] u by (auto simp: r)
  qed (use unlinks_okD(1) [OF un] in simp)
qed

lemma receive_answer:
  assumes inv: "exchange_inv eps x" and r: "x_reps x = RSub u k # rs"
    and p: "map_of (submits (x_sess x)) (u_seqnum u) = Some p"
  shows "answer_ok x (ps_reply p) (Inr (ret_of u k))"
proof -
  let ?q = "u_seqnum u"
  have lo: "ledger_ok eps x" and uo: "urbs_ok x" using inv by (simp_all add: exchange_inv_def)
  have "submits (x_sess x) \<noteq> []" using p by auto
  then have "closed (x_sess x) = None" using inv by (auto simp: exchange_inv_def session_inv_def)
  then obtain req where req: "(ps_reply p, ?q, req) \<in> set (x_issued x)"
    using inv map_of_SomeD [OF p] by (fastforce simp: exchange_inv_def submits_ok_def)
  have uk: "(u, k) \<in> set (x_done x)" using uo by (simp add: urbs_ok_def r done_rep_def)
  then obtain ch' q' req' where u: "(ch', q', req') \<in> set (x_issued x)" "u = urb_for x q' req'"
    using uo by (force simp: urbs_ok_def issued_urb_def)
  have "(ch', q', req') = (ps_reply p, ?q, req)"
    using lo req u inj_onD [of "fst \<circ> snd" "set (x_issued x)" "(ch', q', req')" "(ps_reply p, ?q, req)"]
    by (simp add: ledger_ok_def distinct_map)
  then show ?thesis using req uk u(2) by (auto simp: answer_ok_def)
qed

lemma inv_receive:
  assumes inv: "exchange_inv eps x" and r: "x_reps x = RSub u k # rs"
  shows "exchange_inv eps (x\<lparr>x_reps := rs, x_sess := resolve_submit (u_seqnum u) (ret_of u k) (x_sess x)\<rparr>)"
proof (rule reps_shrink [OF inv r])
  let ?st = "resolve_submit (u_seqnum u) (ret_of u k) (x_sess x)"
  show "seqs_used ?st \<subseteq> seqs_used (x_sess x)" by (auto simp: resolve_submit_tables set_delete_eq set_retain)
  show "session_inv ?st" using inv by (simp add: exchange_inv_def session_inv_resolve_submit)
  have "replies ?st = replies (x_sess x) @ (case map_of (submits (x_sess x)) (u_seqnum u) of
      None \<Rightarrow> [] | Some p \<Rightarrow> [(ps_reply p, Inr (ret_of u k))])"
    by (simp add: resolve_submit_def Let_def send_reply_def split: option.split)
  then show "\<forall>(ch, a)\<in>set (replies ?st). answer_ok x ch a"
    using inv receive_answer [OF inv r] by (auto simp: exchange_inv_def split: option.splits)
qed (use receive_links [OF inv r] in simp_all)

lemma receive_unlink_missed:
  assumes inv: "exchange_inv eps x" and r: "x_reps x = RUnl q s # rs" and u: "q \<notin> keys (unlinks (x_sess x))"
  shows "exchange_inv eps (x\<lparr>x_reps := rs, x_sess := x_sess x\<rparr>)" (is "exchange_inv eps ?x")
proof (rule reps_shrink [OF inv r])
  assume "closed (x_sess x) = None"
  then have sm: "submits_ok x" and un: "unlinks_ok x" using inv by (simp_all add: exchange_inv_def)
  have u: "(q, t) \<notin> set (unlinks (x_sess x))" for t using u by force
  then have "cancelled_by ?x = cancelled_by x" by (auto simp: cancelled_by_def r)
  then have "submits_ok ?x" using sm by (simp add: submits_ok_def r)
  moreover have "unlinks_ok ?x"
  proof (rule unlinks_okI)
    show "cancel_known ?x q' s'" if "RUnl q' s' \<in> set (x_reps ?x)" for q' s'
      by (rule cancel_known_mono [of x]) (use that unlinks_okD(5) [OF un, of q' s'] in \<open>auto simp: r\<close>)
    show "Unl q' t \<in> set (x_cmds ?x) \<or> (\<exists>s. RUnl q' s \<in> set (x_reps ?x))" if "(q', t) \<in> set (unlinks (x_sess ?x))" for q' t
      using that unlinks_okD(4) [OF un, of q' t] u by (cases "q' = q") (auto simp: r)
  qed (use unlinks_okD [OF un] in \<open>simp_all add: r\<close>)
  ultimately show "submits_ok ?x \<and> unlinks_ok ?x" by blast
qed (use inv in \<open>simp_all add: exchange_inv_def\<close>)

lemma unlink_reply:
  assumes inv: "exchange_inv eps x" and r: "x_reps x = RUnl q s # rs" and u: "(q, t) \<in> set (unlinks (x_sess x))"
  shows "closed (x_sess x) = None" "s = - ECONNRESET" "t \<in> found_seqs x" "t \<in> keys (submits (x_sess x))"
proof -
  have si: "session_inv (x_sess x)" using inv by (simp add: exchange_inv_def)
  show op: "closed (x_sess x) = None" using si u by (auto simp: session_inv_def)
  then have un: "unlinks_ok x" using inv by (simp add: exchange_inv_def)
  have "s \<noteq> 0" using unlinks_okD(2) [OF un] u by (auto simp: r)
  moreover have "cancel_known x q s" using unlinks_okD(5) [OF un] by (simp add: r)
  ultimately show "s = - ECONNRESET" "t \<in> found_seqs x" using u unfolding cancel_known_def found_seqs_def by blast+
  show "t \<in> keys (submits (x_sess x))" using si u by (force simp: session_inv_def)
qed

lemma receive_unlink_links:
  assumes inv: "exchange_inv eps x" and r: "x_reps x = RUnl q s # rs" and u: "(q, t) \<in> set (unlinks (x_sess x))"
    and st: "submits st = AList.delete t (submits (x_sess x))" "unlinks st = AList.delete q (unlinks (x_sess x))"
  shows "submits_ok (x\<lparr>x_reps := rs, x_sess := st\<rparr>)" (is "submits_ok ?x") and "unlinks_ok (x\<lparr>x_reps := rs, x_sess := st\<rparr>)"
proof -
  note t = unlink_reply [OF inv r u]
  have sm: "submits_ok x" and un: "unlinks_ok x" and si: "session_inv (x_sess x)"
    using inv t(1) by (simp_all add: exchange_inv_def)
  have away: "t \<notin> done_seqs x" "t \<notin> sub_seqs (x_cmds x)" "t \<notin> live (x_jobs x)"
    using inv t(3) by (auto simp: exchange_inv_def done_ok_def)
  have "ret_seqs rs \<subseteq> done_seqs x" using ret_done [of x] inv by (simp add: exchange_inv_def r)
  then have tr: "t \<notin> ret_seqs rs" using away(1) by blast
  have U: "set (unlinks st) = {(q', t') \<in> set (unlinks (x_sess x)). q' \<noteq> q}"
    by (auto simp: st set_delete_eq)
  have one: "q' = q \<longleftrightarrow> t' = t" if "(q', t') \<in> set (unlinks (x_sess x))" for q' t'
  proof -
    have "inj_on fst (set (unlinks (x_sess x)))" "inj_on snd (set (unlinks (x_sess x)))"
      using si by (simp_all add: session_inv_def distinct_map)
    from inj_onD [OF this(1) _ that u] inj_onD [OF this(2) _ that u] show ?thesis by auto
  qed
  have "RUnl q s \<in> set (x_reps x) \<and> s \<noteq> 0" using t(2) by (simp add: r)
  then have "t \<in> cancelled_by x" using u unfolding cancelled_by_def by blast
  moreover have "cancelled_by ?x \<subseteq> cancelled_by x" unfolding cancelled_by_def r by (auto simp: U)
  moreover have "cancelled_by x \<subseteq> insert t (cancelled_by ?x)"
    using one unfolding cancelled_by_def r by (auto simp: U)
  ultimately have "cancelled_by x = insert t (cancelled_by ?x)" by blast
  moreover have "t \<notin> cancelled_by ?x" using one unfolding cancelled_by_def by (auto simp: U)
  moreover have "keys (submits (x_sess x)) =
      sub_seqs (x_cmds x) \<union> live (x_jobs x) \<union> ret_seqs rs \<union> cancelled_by x"
    using sm by (simp add: submits_ok_def r)
  ultimately have "keys (submits (x_sess ?x)) =
      sub_seqs (x_cmds ?x) \<union> live (x_jobs ?x) \<union> ret_seqs (x_reps ?x) \<union> cancelled_by ?x"
    using away(2,3) tr by (simp add: st keys_delete)
  then show "submits_ok ?x" using sm unfolding submits_ok_def by (auto simp: st set_delete_eq)
  have sub: "t' \<in> keys (submits (x_sess x))" if "t' \<in> keys (submits (x_sess ?x))" for t'
    using that by (simp add: st keys_delete)
  have qc: "q \<notin> cmd_seq ` set (x_cmds x)" using inv by (auto simp: exchange_inv_def seqs_ok_def r)
  show "unlinks_ok ?x"
  proof (rule unlinks_okI)
    have "answered_first (unlinks (x_sess x)) {} rs" using unlinks_okD(2) [OF un] by (simp add: r)
    then show "answered_first (unlinks (x_sess ?x)) {} (x_reps ?x)"
      by (simp, elim answered_first_mono) (use U in auto)
    show "cancel_known ?x q' s'" if "RUnl q' s' \<in> set (x_reps ?x)" for q' s'
      by (rule cancel_known_mono [of x]) (use that unlinks_okD(5) [OF un, of q' s'] U in \<open>auto simp: r\<close>)
    show "(q', t') \<in> set (unlinks (x_sess ?x))" if c: "Unl q' t' \<in> set (x_cmds ?x)" "t' \<in> keys (submits (x_sess ?x))" for q' t'
    proof -
      have "q' \<noteq> q" using c(1) qc by force
      then show ?thesis using c(1) unlinks_okD(3) [OF un _ sub [OF c(2)], of q'] U by simp
    qed
    show "Unl q' t' \<in> set (x_cmds ?x) \<or> (\<exists>s. RUnl q' s \<in> set (x_reps ?x))" if "(q', t') \<in> set (unlinks (x_sess ?x))" for q' t'
      using that unlinks_okD(4) [OF un, of q' t'] U by (auto simp: r)
  qed (use unlinks_okD(1) [OF un] in simp)
qed

lemma inv_receive_unlink:
  assumes inv: "exchange_inv eps x" and r: "x_reps x = RUnl q s # rs"
  shows "exchange_inv eps (x\<lparr>x_reps := rs, x_sess := resolve_unlink \<lparr>ru_seqnum = q, ru_status = s\<rparr> (x_sess x)\<rparr>)"
    (is "exchange_inv eps (x\<lparr>x_reps := rs, x_sess := ?st\<rparr>)")
proof (cases "map_of (unlinks (x_sess x)) q")
  case None
  then have "?st = x_sess x" by (simp add: resolve_unlink_def delete_absent)
  moreover have "q \<notin> keys (unlinks (x_sess x))" using None by (simp add: map_of_eq_None_iff)
  ultimately show ?thesis using receive_unlink_missed [OF inv r] by simp
next
  case (Some t)
  note u = map_of_SomeD [OF Some]
  note t = unlink_reply [OF inv r u]
  obtain p where p: "map_of (submits (x_sess x)) t = Some p" using t(4) by (metis map_of_eq_None_iff not_Some_eq)
  have st: "submits ?st = AList.delete t (submits (x_sess x))" "unlinks ?st = AList.delete q (unlinks (x_sess x))"
    "replies ?st = replies (x_sess x) @ [(ps_reply p, Inl (Unlinked s))]"
    using Some p by (simp_all add: resolve_unlink_def Let_def send_reply_def)
  show ?thesis
  proof (rule reps_shrink [OF inv r])
    show "seqs_used ?st \<subseteq> seqs_used (x_sess x)" by (auto simp: st set_delete_eq)
    show "session_inv ?st" using inv by (simp add: exchange_inv_def session_inv_resolve_unlink)
    obtain req where "(ps_reply p, t, req) \<in> set (x_issued x)"
      using inv t(1) map_of_SomeD [OF p] by (fastforce simp: exchange_inv_def submits_ok_def)
    then have "answer_ok x (ps_reply p) (Inl (Unlinked s))" using t(2,3) by (auto simp: answer_ok_def)
    then show "\<forall>(ch, a)\<in>set (replies ?st). answer_ok x ch a" using inv by (auto simp: st exchange_inv_def)
  qed (use receive_unlink_links [OF inv r u st(1,2)] in simp_all)
qed

section \<open>Every reachable exchange\<close>

lemma exchange_inv_init: "exchange_inv eps (exchange_init d)"
  by (simp add: exchange_inv_def exchange_init_def seqs_ok_def ledger_ok_def urbs_ok_def done_ok_def submits_ok_def
      unlinks_ok_def cancelled_by_def found_seqs_def Session_start_def session_inv_def)

lemma exchange_inv_step: "\<lbrakk>exchange_step eps x x'; exchange_inv eps x\<rbrakk> \<Longrightarrow> exchange_inv eps x'"
  by (induction rule: exchange_step.induct)
    (blast intro: inv_issue inv_cancel inv_close inv_quiet inv_serve_submit inv_serve_found inv_serve_missed
      inv_complete inv_discard inv_receive inv_receive_unlink)+

end
