(* ===== verification/Network.thy ===== *)
theory Network
  imports Exchange "HOL-Library.Sublist"
begin

text \<open>
  The client of \<open>src/src/client.rs\<close> connected to the reference server of
  \<open>src/tests/support/server.rs\<close>, byte by byte: the writer's batches, the two directions of the
  stream, the server's rounds, its endpoint workers and its writer, segments of any size arriving
  at the client, and the reader's two critical sections. The connection may break at any time, for
  either side. Every step is a few steps of the message exchange of \<open>Exchange\<close>, or none.
\<close>

section \<open>The connection\<close>

text \<open>
  \<open>n_up\<close> are the bytes written by the client that the server has not read, \<open>n_down\<close> those written by
  the server that have not arrived. \<open>n_issued\<close> and \<open>n_done\<close> are the history: the transfers that were
  accepted, and what the device completed.
\<close>

record network =
  n_client :: client
  n_up :: bytes
  n_serving :: bool
  n_server :: ServerLoop
  n_down :: bytes
  n_issued :: "(chan \<times> u32 \<times> SubmitRequest) list"
  n_done :: "(Urb \<times> Completion) list"

abbreviation n_sess :: "network \<Rightarrow> Shared" where
  "n_sess n \<equiv> cl_sess (n_client n)"

abbreviation set_sess :: "Shared \<Rightarrow> network \<Rightarrow> network" where
  "set_sess st n \<equiv> n\<lparr>n_client := (n_client n)\<lparr>cl_sess := st\<rparr>\<rparr>"

definition network_init :: "ExportedDevice \<Rightarrow> network" where
  "network_init d = \<lparr>n_client = client_init d, n_up = [], n_serving = True, n_server = ServerLoop_new,
     n_down = [], n_issued = [], n_done = []\<rparr>"

text \<open>The device completes the URB, within its length; a reset completes with nothing written.\<close>

definition completes :: "Urb \<Rightarrow> Outcome option \<Rightarrow> bool" where
  "completes u choice \<longleftrightarrow>
     (case choice of
        None \<Rightarrow> True
      | Some (Complete k) \<Rightarrow> wf_completion u k \<and> job_outcome u (Complete k)
      | Some _ \<Rightarrow> False)"

definition completed :: "Urb \<Rightarrow> Outcome option \<Rightarrow> ServerLoop \<Rightarrow> (Urb \<times> Completion) list" where
  "completed u choice sv =
     (case choice of Some (Complete k) \<Rightarrow> if u_seqnum u \<in> set (sv_pending sv) then [(u, k)] else [] | _ \<Rightarrow> [])"

text \<open>What the tasks of both sides do by themselves.\<close>

inductive net_move :: "(u8 \<times> u8) list \<Rightarrow> u32 \<Rightarrow> network \<Rightarrow> network \<Rightarrow> bool" for eps dev where
  write_out: "\<lbrakk>writer_open (n_sess n); frames (n_sess n) \<noteq> []; st = write_round (Inr ()) (n_sess n);
      written st = written (n_sess n) @ batch\<rbrakk> \<Longrightarrow>
    net_move eps dev n ((set_sess st n)\<lparr>n_up := n_up n @ batch\<rparr>)"
| serve: "\<lbrakk>n_serving n; n_up n \<noteq> [];
      serve_urb eps dev \<lparr>avail = n_up n, ending = UnexpectedEof\<rparr> (n_server n) = (r, sv)\<rbrakk> \<Longrightarrow>
    net_move eps dev n (n\<lparr>n_server := sv, n_serving := r \<noteq> None,
      n_up := (case r of None \<Rightarrow> [] | Some r \<Rightarrow> avail r)\<rparr>)"
| work: "\<lbrakk>n_serving n; take_job a (sv_jobs (n_server n)) = Some ((u, b), js); completes u choice;
      endpoint_worker a choice (n_server n) = Some sv\<rbrakk> \<Longrightarrow>
    net_move eps dev n (n\<lparr>n_server := sv, n_done := n_done n @ completed u choice (n_server n)\<rparr>)"
| send: "server_write (n_server n) = Some (frame, sv) \<Longrightarrow>
    net_move eps dev n (n\<lparr>n_server := sv, n_down := n_down n @ frame\<rparr>)"
| arrive: "\<lbrakk>n_down n = seg @ rest; seg \<noteq> []; cl_eof (n_client n) = None\<rbrakk> \<Longrightarrow>
    net_move eps dev n (n\<lparr>n_client := (n_client n)\<lparr>cl_in := cl_in (n_client n) @ seg\<rparr>, n_down := rest\<rparr>)"
| shut: "\<lbrakk>sv_out (n_server n) = None # out; n_down n = []; cl_eof (n_client n) = None\<rbrakk> \<Longrightarrow>
    net_move eps dev n (n\<lparr>n_server := (n_server n)\<lparr>sv_out := out\<rparr>,
      n_client := (n_client n)\<lparr>cl_eof := Some UnexpectedEof\<rparr>\<rparr>)"
| read: "reader_step (n_client n) = Some c \<Longrightarrow> net_move eps dev n (n\<lparr>n_client := c\<rparr>)"

text \<open>
  All steps: what the callers ask for, the tasks, the stop of the tasks once the session is closed, and
  the connection breaking: a write that fails after some bytes, the client's stream ending, and the
  server losing the connection with part of the bytes read. Sequence numbers are handed out at
  most once: the counter does not come round.
\<close>

inductive net_step :: "(u8 \<times> u8) list \<Rightarrow> u32 \<Rightarrow> network \<Rightarrow> network \<Rightarrow> bool" for eps dev where
  issue: "\<lbrakk>submit req (n_sess n) = Some (Inr (q, ch), st); wf_request eps req; next_seq (n_sess n) \<noteq> -1\<rbrakk> \<Longrightarrow>
    net_step eps dev n ((set_sess st n)\<lparr>n_issued := n_issued n @ [(ch, q, req)]\<rparr>)"
| refuse: "submit req (n_sess n) = Some (Inl e, st) \<Longrightarrow> net_step eps dev n (set_sess st n)"
| cancel: "\<lbrakk>unlink t (n_sess n) = Some st; next_seq (n_sess n) \<noteq> -1\<rbrakk> \<Longrightarrow> net_step eps dev n (set_sess st n)"
| close: "net_step eps dev n (set_sess (Session_close (n_sess n)) n)"
| move: "net_move eps dev n n' \<Longrightarrow> net_step eps dev n n'"
| write_stop: "closed_tx (n_sess n) \<noteq> None \<Longrightarrow> net_step eps dev n (set_sess (write_stop (n_sess n)) n)"
| read_stop: "closed_tx (n_sess n) \<noteq> None \<Longrightarrow>
    net_step eps dev n (n\<lparr>n_client := (n_client n)\<lparr>cl_reader := RDone\<rparr>\<rparr>)"
| write_fail: "\<lbrakk>writer_open (n_sess n); frames (n_sess n) \<noteq> []; st = write_round (Inl (e, k)) (n_sess n);
      written st = written (n_sess n) @ batch\<rbrakk> \<Longrightarrow>
    net_step eps dev n ((set_sess st n)\<lparr>n_up := n_up n @ batch\<rparr>)"
| hangup: "cl_eof (n_client n) = None \<Longrightarrow>
    net_step eps dev n (n\<lparr>n_client := (n_client n)\<lparr>cl_eof := Some e\<rparr>\<rparr>)"
| serve_lost: "\<lbrakk>n_serving n; n_up n = bs @ rest; serve_urb eps dev \<lparr>avail = bs, ending = e\<rparr> (n_server n) = (None, sv)\<rbrakk> \<Longrightarrow>
    net_step eps dev n (n\<lparr>n_server := sv, n_serving := False\<rparr>)"

abbreviation net_run :: "(u8 \<times> u8) list \<Rightarrow> Export \<Rightarrow> network \<Rightarrow> bool" where
  "net_run eps ex n \<equiv> (net_step eps (Export_devid ex))\<^sup>*\<^sup>* (network_init (device_of ex)) n"

section \<open>Bytes and messages\<close>

definition cmd_bytes :: "u32 \<Rightarrow> cmd \<Rightarrow> bytes" where
  "cmd_bytes dev c =
     (case c of
        Sub q req \<Rightarrow> CmdSubmit_encode (cmd_of q dev req) []
      | Unl q t \<Rightarrow> CmdUnlink_encode \<lparr>cu_seqnum = q, cu_devid = dev, cu_unlink_seqnum = t\<rparr> [])"

definition rep_bytes :: "rep \<Rightarrow> bytes" where
  "rep_bytes r = (case r of RSub u k \<Rightarrow> ret_submit u k | RUnl q s \<Rightarrow> ret_unlink q s)"

definition ret_header :: "Urb \<Rightarrow> Completion \<Rightarrow> Reply" where
  "ret_header u k = ReplySubmit (u_seqnum u) (c_status k) (rs_actual_length (ret_of u k)) (c_start_frame k)
     (of_nat (length (rs_iso_packets (ret_of u k)))) 0"

definition urb_direction :: "Urb \<Rightarrow> Direction" where
  "urb_direction u = (if is_in u then In else Out)"

text \<open>Where the reader is in the replies that are on their way.\<close>

definition stream_ok :: "reader \<Rightarrow> bytes \<Rightarrow> rep list \<Rightarrow> bool" where
  "stream_ok rd bs rs =
     (case rd of
        RHeader \<Rightarrow> bs = concat (map rep_bytes rs)
      | RPayload h q d len \<Rightarrow>
          (\<exists>u k rs'. rs = RSub u k # rs' \<and> h = ret_header u k \<and> q = u_seqnum u \<and> d = urb_direction u \<and>
             len = u_length u \<and> bs = drop 48 (ret_submit u k) @ concat (map rep_bytes rs'))
      | RDone \<Rightarrow> False)"

definition is_unlink :: "Event \<Rightarrow> bool" where
  "is_unlink ev = (case ev of EvUnlink _ _ _ \<Rightarrow> True | _ \<Rightarrow> False)"

text \<open>The network and the exchange it implements.\<close>

definition up_ok :: "u32 \<Rightarrow> network \<Rightarrow> exchange \<Rightarrow> bool" where
  "up_ok dev n x \<longleftrightarrow> (\<exists>cs cs' part. x_cmds x = cs @ cs' \<and> n_up n = concat (map (cmd_bytes dev) cs) @ part \<and>
     (part \<noteq> [] \<longrightarrow> cs' \<noteq> [] \<and> strict_prefix part (cmd_bytes dev (hd cs'))) \<and>
     (writer_open (n_sess n) \<longrightarrow> part = [] \<and> frames (n_sess n) = map (cmd_bytes dev) cs'))"

definition out_ok :: "bool \<Rightarrow> io_error option \<Rightarrow> bytes option list \<Rightarrow> rep list \<Rightarrow> bool" where
  "out_ok serving eof out rs \<longleftrightarrow>
     (if serving then out = map (\<lambda>r. Some (rep_bytes r)) rs
      else out = map (\<lambda>r. Some (rep_bytes r)) rs @ [None] \<or> out = [] \<and> eof \<noteq> None)"

definition down_ok :: "network \<Rightarrow> exchange \<Rightarrow> bool" where
  "down_ok n x \<longleftrightarrow> (\<exists>rs rs'. x_reps x = rs @ rs' \<and> stream_ok (cl_reader (n_client n)) (cl_in (n_client n) @ n_down n) rs \<and>
     out_ok (n_serving n) (cl_eof (n_client n)) (sv_out (n_server n)) rs')"

definition implements :: "u32 \<Rightarrow> network \<Rightarrow> exchange \<Rightarrow> bool" where
  "implements dev n x \<longleftrightarrow> x_sess x = n_sess n \<and> s_devid (n_sess n) = dev \<and> client_inv (n_client n) \<and>
     x_issued x = n_issued n \<and> x_done x = n_done n \<and> x_log x = filter is_unlink (sv_log (n_server n)) \<and>
     sv_violations (n_server n) = [] \<and> (\<forall>why. closed (n_sess n) = Some why \<longrightarrow> connection_end why) \<and>
     (n_serving n \<longrightarrow> x_jobs x = sv_jobs (n_server n) \<and> set (sv_pending (n_server n)) = live (sv_jobs (n_server n)) \<and>
        up_ok dev n x) \<and>
     (closed (n_sess n) = None \<longrightarrow> down_ok n x)"

section \<open>Readers on a stream that is still arriving\<close>

text \<open>With part of the bytes a reader waits for more, or it reads what it would read of all of them.\<close>

definition incremental :: "(rstream \<Rightarrow> ProtocolError + 'a \<times> rstream) \<Rightarrow> bool" where
  "incremental f \<longleftrightarrow> (\<forall>xs ys e v r. f \<lparr>avail = xs @ ys, ending = e\<rparr> = Inr (v, r) \<longrightarrow>
     (\<exists>i. f \<lparr>avail = xs, ending = e\<rparr> = Inl (Io i)) \<or>
     (\<exists>zs. f \<lparr>avail = xs, ending = e\<rparr> = Inr (v, \<lparr>avail = zs, ending = e\<rparr>) \<and> r = \<lparr>avail = zs @ ys, ending = e\<rparr>))"

lemma incrementalD:
  assumes "incremental f" "f \<lparr>avail = xs @ ys, ending = e\<rparr> = Inr (v, r)"
  obtains (wait) i where "f \<lparr>avail = xs, ending = e\<rparr> = Inl (Io i)"
  | (got) zs where "f \<lparr>avail = xs, ending = e\<rparr> = Inr (v, \<lparr>avail = zs, ending = e\<rparr>)" "r = \<lparr>avail = zs @ ys, ending = e\<rparr>"
  using assms unfolding incremental_def by blast

lemma incremental_return: "incremental (\<lambda>r. Inr (v, r))"
  by (simp add: incremental_def)

lemma incremental_fail: "incremental (\<lambda>r. Inl e)"
  by (simp add: incremental_def)

lemma incremental_read: "incremental (\<lambda>r. map_err Io (read_exact n r))"
  by (auto simp: incremental_def read_exact_def split: if_splits)

lemma incremental_bind:
  assumes f: "incremental f" and g: "\<And>v. incremental (g v)"
  shows "incremental (\<lambda>r. and_then (f r) (\<lambda>(v, r). g v r))"
  unfolding incremental_def
proof (intro allI impI)
  fix xs ys e w r
  assume "and_then (f \<lparr>avail = xs @ ys, ending = e\<rparr>) (\<lambda>(v, r). g v r) = Inr (w, r)"
  then obtain v r1 where v: "f \<lparr>avail = xs @ ys, ending = e\<rparr> = Inr (v, r1)" "g v r1 = Inr (w, r)"
    by (auto simp: and_then_eq_Inr)
  show "(\<exists>i. and_then (f \<lparr>avail = xs, ending = e\<rparr>) (\<lambda>(v, r). g v r) = Inl (Io i)) \<or>
    (\<exists>zs. and_then (f \<lparr>avail = xs, ending = e\<rparr>) (\<lambda>(v, r). g v r) = Inr (w, \<lparr>avail = zs, ending = e\<rparr>) \<and>
      r = \<lparr>avail = zs @ ys, ending = e\<rparr>)"
    using f v(1)
  proof (cases rule: incrementalD)
    case (got zs)
    have "g v \<lparr>avail = zs @ ys, ending = e\<rparr> = Inr (w, r)" using v(2) got(2) by simp
    with g [of v] show ?thesis by (cases rule: incrementalD) (simp_all add: got(1))
  qed simp
qed

lemma incremental_if: "\<lbrakk>incremental f; incremental g\<rbrakk> \<Longrightarrow> incremental (\<lambda>r. if b then f r else g r)"
  by (cases b) simp_all

lemmas incremental_intros = incremental_bind incremental_if incremental_return incremental_fail incremental_read

lemma incremental_header: "incremental read_reply_header"
  unfolding read_reply_header_def get_u32_def Let_def prod.case
  by (intro incremental_intros)

lemma incremental_payload: "incremental (read_submit_payload h d m)"
proof (cases h)
  case (ReplySubmit q s a f n c)
  show ?thesis
    unfolding ReplySubmit read_submit_payload_def Reply.case
    by (intro incremental_intros)
next
  case (ReplyUnlink ru)
  then show ?thesis unfolding read_submit_payload_def by (simp add: incremental_fail)
qed

section \<open>One command\<close>

lemma serve_sub:
  assumes "wf_request eps req" "q \<notin> set (sv_pending sv)"
  shows "serve_urb eps dev \<lparr>avail = cmd_bytes dev (Sub q req) @ rest, ending = e\<rparr> sv =
    (Some \<lparr>avail = rest, ending = e\<rparr>, handle_submit (requested_urb q dev req) sv)"
  using serve_submit_encode [OF wf_cmd_of [OF assms(1)] cmd_of_accepted [OF assms(1)]] assms(2) cmd_of_violations [OF assms(1)]
  by (simp add: serve_urb_def cmd_bytes_def)

lemma serve_unl:
  assumes "q \<notin> set (sv_pending sv)"
  shows "serve_urb eps dev \<lparr>avail = cmd_bytes dev (Unl q t) @ rest, ending = e\<rparr> sv =
    (Some \<lparr>avail = rest, ending = e\<rparr>, handle_unlink q t sv)"
  using assms by (simp add: serve_urb_def cmd_bytes_def serve_unlink_encode)

lemma strict_prefix_split:
  assumes "strict_prefix bs (h @ t)" "length h \<le> length bs"
  shows "\<exists>bs'. bs = h @ bs' \<and> length bs' < length t"
proof -
  have len: "length bs < length (h @ t)" using assms(1) by (rule prefix_length_less)
  from assms(1) consider "prefix bs h" | us where "bs = h @ us" by (auto simp: strict_prefix_def prefix_append)
  then show ?thesis
  proof cases
    case 1
    then have "bs = h" using assms(2) by (auto simp: prefix_def)
    then show ?thesis using len by simp
  qed (use len in simp)
qed

lemma serve_submit_cut:
  assumes wf: "wf_cmd c" and vs: "submit_violations c = []" and cut: "strict_prefix bs (CmdSubmit_encode c [])"
    and "cs_devid c = dev" "cs_seqnum c \<notin> pend"
  shows "serve_command eps dev pend \<lparr>avail = bs, ending = e\<rparr> = (None, [])"
proof (cases "length bs < 48")
  case True
  then show ?thesis by (simp add: serve_command_def read_exact_def)
next
  case False
  let ?n = "of_nat (length (cs_iso_packets c)) :: u32"
  let ?h = "u32_be USBIP_CMD_SUBMIT @ u32_be (cs_seqnum c) @ u32_be (cs_devid c)
       @ u32_be (cs_direction c) @ u32_be (cs_ep c) @ u32_be (cs_transfer_flags c)
       @ u32_be (cs_transfer_buffer_length c) @ u32_be (cs_start_frame c)
       @ u32_be ?n @ u32_be (cs_interval c) @ cs_setup c"
  let ?iso = "concat (map IsoPacketDescriptor_encode (cs_iso_packets c))"
  have enc: "CmdSubmit_encode c [] = ?h @ (cs_data c @ ?iso)" by (simp add: CmdSubmit_encode_def)
  have len: "length ?h = 48" using wf by (simp add: wf_cmd_def)
  obtain bs' where bs: "bs = ?h @ bs'" and short: "length bs' < length (cs_data c @ ?iso)"
    using strict_prefix_split [OF cut [unfolded enc]] False len by auto
  have dir: "\<not> cs_direction c > 1" using wf by (simp add: wf_cmd_def not_less)
  have big: "\<not> push_bit 20 16 < cs_transfer_buffer_length c" using wf by (simp add: wf_cmd_def MAX_TRANSFER_LENGTH_def not_less)
  have cnt: "unat ?n = length (cs_iso_packets c)" "?n \<noteq> 0xffffffff" "\<not> ?n > 1024"
    using wf small_count by (simp_all add: wf_cmd_def)
  have stp: "take 8 (drop 40 ?h) = cs_setup c" using wf by (simp add: wf_cmd_def)
  have ilen: "length ?iso = length (cs_iso_packets c) * 16" by (simp add: iso_wire.length_concat_enc)
  have vs': "\<not> cs_ep c > 15" "cs_ep c = 0 \<or> cs_setup c = replicate 8 0"
    using vs by (auto simp: submit_violations_def split: if_splits)
  show ?thesis
  proof (cases "cs_direction c = 1")
    case True
    then have "cs_data c = []" using wf by (simp add: wf_cmd_def)
    then have "read_exact (unat ?n * 16) \<lparr>avail = bs', ending = e\<rparr> = Inl e"
      using short ilen cnt(1) by (simp add: read_exact_def)
    then show ?thesis unfolding serve_command_def bs read_exact_append [OF len]
      using dir big cnt(2,3) stp vs' assms(4,5) True
      by (simp add: wire_simps serve_submit_def Let_def op_codes is_in_def)
  next
    case False
    then have dl: "length (cs_data c) = unat (cs_transfer_buffer_length c)" using wf by (simp add: wf_cmd_def)
    show ?thesis
    proof (cases "length bs' < length (cs_data c)")
      case True
      then have "read_exact (unat (cs_transfer_buffer_length c)) \<lparr>avail = bs', ending = e\<rparr> = Inl e" using dl by (simp add: read_exact_def)
      then show ?thesis unfolding serve_command_def bs read_exact_append [OF len]
        using dir big stp vs' assms(4,5) False
        by (simp add: wire_simps serve_submit_def Let_def op_codes is_in_def)
    next
      case le: False
      have "read_exact (unat (cs_transfer_buffer_length c)) \<lparr>avail = bs', ending = e\<rparr>
          = Inr (take (length (cs_data c)) bs', \<lparr>avail = drop (length (cs_data c)) bs', ending = e\<rparr>)"
        using le dl by (simp add: read_exact_def)
      moreover have "read_exact (unat ?n * 16) \<lparr>avail = drop (length (cs_data c)) bs', ending = e\<rparr> = Inl e"
        using short ilen cnt(1) le by (simp add: read_exact_def)
      ultimately show ?thesis unfolding serve_command_def bs read_exact_append [OF len]
        using dir big cnt(2,3) stp vs' assms(4,5) False
        by (simp add: wire_simps serve_submit_def Let_def op_codes is_in_def)
    qed
  qed
qed

text \<open>A command that is cut off ends the server's loop, without a violation.\<close>

lemma serve_cut:
  assumes "strict_prefix bs (cmd_bytes dev c)" "cmd_seq c \<notin> set (sv_pending sv)" "\<And>q req. c = Sub q req \<Longrightarrow> wf_request eps req"
  shows "serve_urb eps dev \<lparr>avail = bs, ending = e\<rparr> sv = (None, serve_end (sv\<lparr>sv_log := sv_log sv @ logged_submit dev (set (sv_pending sv)) \<lparr>avail = bs, ending = e\<rparr>\<rparr>))"
proof -
  have "serve_command eps dev (set (sv_pending sv)) \<lparr>avail = bs, ending = e\<rparr> = (None, [])"
  proof (cases c)
    case (Sub q req)
    then show ?thesis
      using serve_submit_cut [OF wf_cmd_of [OF assms(3) [OF Sub]] cmd_of_violations [OF assms(3) [OF Sub]], of bs q dev dev] assms(1,2)
      by (simp add: cmd_bytes_def)
  next
    case (Unl q t)
    have "length bs < length (cmd_bytes dev c)" by (rule prefix_length_less [OF assms(1)])
    also have "length (cmd_bytes dev c) = 48" by (simp add: Unl cmd_bytes_def CmdUnlink_encode_def)
    finally show ?thesis by (simp add: serve_command_def read_exact_def)
  qed
  then show ?thesis by (simp add: serve_urb_def)
qed

lemma logged_submit_quiet [simp]: "filter is_unlink (logged_submit dev pend r) = []"
  by (auto simp: logged_submit_def is_unlink_def split: prod.splits option.splits server_cmd.splits)

lemma cmd_bytes_nonempty [simp]: "cmd_bytes dev c \<noteq> []"
  by (auto simp: cmd_bytes_def CmdSubmit_encode_def CmdUnlink_encode_def u32_be_def split: cmd.split)

lemma serve_nothing:
  "serve_urb eps dev \<lparr>avail = [], ending = e\<rparr> sv = (None, serve_end sv)"
  by (simp add: serve_urb_def serve_command_def read_exact_def logged_submit_def)

lemma fill_batch_frames: "fill_batch b fs = (b', fs') \<Longrightarrow> \<exists>gs. fs = gs @ fs' \<and> b' = b @ concat gs"
proof (induction b fs rule: fill_batch.induct)
  case (2 b f fs)
  show ?case
  proof (cases "length b < BATCH_LIMIT")
    case True
    then obtain gs where "fs = gs @ fs'" "b' = (b @ f) @ concat gs" using 2 by auto
    then show ?thesis by (intro exI [of _ "f # gs"]) simp
  qed (use "2.prems" in auto)
qed simp

lemma write_round_frames:
  assumes "frames st \<noteq> []"
  obtains gs fs where "frames st = gs @ fs" "gs \<noteq> []"
    "write_round (Inr ()) st = st\<lparr>frames := fs, written := written st @ concat gs\<rparr>"
proof -
  obtain f hs where fr: "frames st = f # hs" using assms by (cases "frames st") auto
  obtain b fs where fb: "fill_batch f hs = (b, fs)" by fastforce
  obtain gs where "hs = gs @ fs" "b = f @ concat gs" using fill_batch_frames [OF fb] by blast
  then show thesis using that [of "f # gs" fs] fr fb by (simp add: write_round_def)
qed

section \<open>One reply\<close>

lemma ret_submit_layout:
  "ret_submit u k = concat (map u32_be [3, u_seqnum u, 0, 0, 0, c_status k, rs_actual_length (ret_of u k), c_start_frame k,
     of_nat (length (rs_iso_packets (ret_of u k))), 0]) @ replicate 8 0 @
     rs_data (ret_of u k) @ concat (map IsoPacketDescriptor_encode (rs_iso_packets (ret_of u k)))"
  by (simp add: ret_submit_def ret_of_def Let_def IsoPacketDescriptor_encode_def [abs_def])

lemma drop_ret_submit:
  "drop 48 (ret_submit u k) = rs_data (ret_of u k) @ concat (map IsoPacketDescriptor_encode (rs_iso_packets (ret_of u k)))"
  by (simp add: ret_submit_layout)

lemma read_header_rep:
  assumes "wf_completion u k"
  shows "read_reply_header \<lparr>avail = ret_submit u k @ rest, ending = e\<rparr> =
    Inr (ret_header u k, \<lparr>avail = drop 48 (ret_submit u k) @ rest, ending = e\<rparr>)"
proof -
  have "length (rs_iso_packets (ret_of u k)) \<le> 1024" using assms by (simp add: wf_completion_def ret_of_def)
  from read_reply_header_ret_submit [OF this length_replicate] show ?thesis
    unfolding drop_ret_submit ret_header_def by (subst ret_submit_layout) simp
qed

lemma read_payload_rep:
  assumes "wf_completion u k"
  shows "read_submit_payload (ret_header u k) (urb_direction u = In) (u_length u)
    \<lparr>avail = drop 48 (ret_submit u k) @ rest, ending = e\<rparr> = Inr (ret_of u k, \<lparr>avail = rest, ending = e\<rparr>)"
  using read_ret_submit [OF assms, of rest e] read_header_rep [OF assms, of rest e]
  by (cases "is_in u") (simp_all add: urb_direction_def)

section \<open>Every step is a step of the exchange\<close>

definition simulates :: "(u8 \<times> u8) list \<Rightarrow> u32 \<Rightarrow> exchange \<Rightarrow> network \<Rightarrow> bool" where
  "simulates eps dev x n \<longleftrightarrow> (\<exists>x'. (exchange_step eps)\<^sup>*\<^sup>* x x' \<and> implements dev n x')"

lemma simulatesI: "\<lbrakk>exchange_step eps x x'; implements dev n x'\<rbrakk> \<Longrightarrow> simulates eps dev x n"
  unfolding simulates_def by blast

lemma simulates_same: "implements dev n x \<Longrightarrow> simulates eps dev x n"
  unfolding simulates_def by blast

lemma implementsD:
  assumes "implements dev n x"
  shows "x_sess x = n_sess n" "s_devid (n_sess n) = dev" "client_inv (n_client n)" "x_issued x = n_issued n"
    "x_done x = n_done n" "x_log x = filter is_unlink (sv_log (n_server n))" "sv_violations (n_server n) = []"
    "closed (n_sess n) = Some why \<Longrightarrow> connection_end why"
    "n_serving n \<Longrightarrow> x_jobs x = sv_jobs (n_server n)"
    "n_serving n \<Longrightarrow> set (sv_pending (n_server n)) = live (sv_jobs (n_server n))"
    "n_serving n \<Longrightarrow> up_ok dev n x" "closed (n_sess n) = None \<Longrightarrow> down_ok n x"
  using assms by (simp_all add: implements_def)

lemma stream_ok_snoc: "stream_ok rd bs rs \<Longrightarrow> stream_ok rd (bs @ rep_bytes r) (rs @ [r])"
  by (auto simp: stream_ok_def split: reader.splits)

lemma up_ok_snoc:
  assumes "up_ok dev n x" "n_up n' = n_up n" "writer_open (n_sess n)" "frames (n_sess n') = frames (n_sess n) @ [cmd_bytes dev c]"
    and "x_cmds x' = x_cmds x @ [c]"
  shows "up_ok dev n' x'"
proof -
  obtain cs cs' where "x_cmds x = cs @ cs'" "n_up n = concat (map (cmd_bytes dev) cs)" "frames (n_sess n) = map (cmd_bytes dev) cs'"
    using assms(1,3) by (auto simp: up_ok_def)
  then show ?thesis unfolding up_ok_def using assms(2,4,5) by (intro exI [of _ cs] exI [of _ "cs' @ [c]"] exI [of _ "[]"]) simp
qed

lemma out_ok_simps [simp]:
  "out_ok True eof out rs \<longleftrightarrow> out = map (\<lambda>r. Some (rep_bytes r)) rs"
  "out_ok True eof out rs \<Longrightarrow> out_ok False eof (out @ [None]) rs"
  "out_ok serving eof out rs \<Longrightarrow> out_ok serving (Some e) out rs"
  by (auto simp: out_ok_def split: if_splits)

lemma out_ok_Cons:
  assumes "out_ok serving eof (Some frame # out) rs"
  obtains r rs' where "rs = r # rs'" "frame = rep_bytes r" "out_ok serving eof out rs'"
  using assms that by (cases rs) (auto simp: out_ok_def split: if_splits)

lemma sim_issue:
  assumes "implements dev n x"
    and s: "submit req (n_sess n) = Some (Inr (q, ch), st)" "wf_request eps req" "next_seq (n_sess n) \<noteq> -1"
  shows "simulates eps dev x ((set_sess st n)\<lparr>n_issued := n_issued n @ [(ch, q, req)]\<rparr>)"
proof (rule simulatesI [OF exchange_step.issue])
  note i = implementsD [OF assms(1)]
  show "submit req (x_sess x) = Some (Inr (q, ch), st)" "wf_request eps req" "next_seq (x_sess x) \<noteq> -1"
    using s by (simp_all add: i(1))
  note st = submit_Inr [OF s(1)]
  have c: "client_inv ((n_client n)\<lparr>cl_sess := st\<rparr>)" by (rule client_inv_step [OF client_step.step_submit [OF s(1)] i(3)])
  have w: "writer_open (n_sess n)" using i(3) st(1) by (auto simp: client_inv_def)
  then have fr: "frames st = frames (n_sess n) @ [cmd_bytes dev (Sub q req)]" using i(2) by (simp add: st(5) send_frame_def cmd_bytes_def)
  have "up_ok dev ((set_sess st n)\<lparr>n_issued := n_issued n @ [(ch, q, req)]\<rparr>)
      (x\<lparr>x_sess := st, x_cmds := x_cmds x @ [Sub q req], x_issued := x_issued x @ [(ch, q, req)]\<rparr>)" if "n_serving n"
    by (rule up_ok_snoc [OF i(11) [OF that] _ w]) (simp_all add: fr)
  moreover have "closed st = None" "s_devid st = dev" using st i(2) by simp_all
  ultimately show "implements dev ((set_sess st n)\<lparr>n_issued := n_issued n @ [(ch, q, req)]\<rparr>)
      (x\<lparr>x_sess := st, x_cmds := x_cmds x @ [Sub q req], x_issued := x_issued x @ [(ch, q, req)]\<rparr>)"
    using c i st(1) by (simp add: implements_def down_ok_def)
qed

lemma sim_cancel:
  assumes "implements dev n x" and s: "unlink t (n_sess n) = Some st" "next_seq (n_sess n) \<noteq> -1"
  shows "simulates eps dev x (set_sess st n)"
  using s(1)
proof (cases rule: unlink_cases)
  case ignored
  then show ?thesis using simulates_same [OF assms(1)] by simp
next
  case (sent q)
  note i = implementsD [OF assms(1)]
  have c: "client_inv ((n_client n)\<lparr>cl_sess := st\<rparr>)" by (rule client_inv_step [OF client_step.step_unlink [OF s(1)] i(3)])
  have w: "writer_open (n_sess n)" using i(3) sent(1) by (auto simp: client_inv_def)
  then have fr: "frames st = frames (n_sess n) @ [cmd_bytes dev (Unl q t)]" using i(2) by (simp add: sent(6) send_frame_def cmd_bytes_def)
  show ?thesis
  proof (rule simulatesI [OF exchange_step.cancel])
    show "unlink t (x_sess x) = Some st" "next_seq (x_sess x) \<noteq> -1" using s by (simp_all add: i(1))
    show "unlinks st = unlinks (x_sess x) @ [(q, t)]" by (simp add: i(1) sent(6))
    have "up_ok dev (set_sess st n) (x\<lparr>x_sess := st, x_cmds := x_cmds x @ [Unl q t]\<rparr>)" if "n_serving n"
      by (rule up_ok_snoc [OF i(11) [OF that] _ w]) (simp_all add: fr)
    moreover have "closed st = None" "s_devid st = dev" using sent i(2) by simp_all
    ultimately show "implements dev (set_sess st n) (x\<lparr>x_sess := st, x_cmds := x_cmds x @ [Unl q t]\<rparr>)"
      using c i sent(1) by (simp add: implements_def down_ok_def)
  qed
qed

lemma sim_closed:
  assumes imp: "implements dev n x" and "connection_end why" "n_sess n' = Shared_close why (n_sess n)" "client_inv (n_client n')"
    and "n_serving n' = n_serving n" "n_server n' = n_server n" "n_issued n' = n_issued n" "n_done n' = n_done n" "n_up n' = n_up n"
  shows "implements dev n' (x\<lparr>x_sess := Shared_close why (x_sess x)\<rparr>)"
proof -
  note i = implementsD [OF imp]
  have "closed (n_sess n') \<noteq> None" "closed (n_sess n') = Some r \<Longrightarrow> connection_end r" for r
    using i(8) assms(2,3) by (cases "closed (n_sess n)"; simp)+
  moreover have "frames (n_sess n') = frames (n_sess n)" "writer_open (n_sess n') = writer_open (n_sess n)"
    by (cases "closed (n_sess n)"; simp add: assms(3) Shared_close_open)+
  ultimately show ?thesis using i assms(3-9) by (simp add: implements_def up_ok_def)
qed

lemma sim_close:
  assumes imp: "implements dev n x"
  shows "simulates eps dev x (set_sess (Session_close (n_sess n)) n)"
proof (rule simulatesI [OF exchange_step.close])
  show e: "connection_end ClosedByClient" by (simp add: connection_end_def)
  have "client_inv ((n_client n)\<lparr>cl_sess := Session_close (n_sess n)\<rparr>)"
    by (rule client_inv_step [OF client_step.step_close implementsD(3) [OF imp]])
  then show "implements dev (set_sess (Session_close (n_sess n)) n) (x\<lparr>x_sess := Shared_close ClosedByClient (x_sess x)\<rparr>)"
    by (intro sim_closed [OF imp e]) (simp_all add: Session_close_def)
qed

lemma quiet_refl [simp]: "quiet st st"
  unfolding quiet_def by (intro exI [of _ "frames st"] exI [of _ "written st"] exI [of _ "writer_open st"] exI [of _ "unlinked st"]) simp

lemma quiet_sess:
  assumes "implements dev n x" "quiet (n_sess n) (n_sess n')" "client_inv (n_client n')"
    and "n_serving n' = n_serving n" "n_server n' = n_server n" "n_issued n' = n_issued n" "n_done n' = n_done n"
    and "n_serving n \<Longrightarrow> up_ok dev n' (x\<lparr>x_sess := n_sess n'\<rparr>)"
    and "closed (n_sess n) = None \<Longrightarrow> down_ok n' (x\<lparr>x_sess := n_sess n'\<rparr>)"
  shows "simulates eps dev x n'"
proof (rule simulatesI [OF exchange_step.quiet])
  note i = implementsD [OF assms(1)]
  show "quiet (x_sess x) (n_sess n')" using assms(2) i(1) by simp
  have "closed (n_sess n') = closed (n_sess n)" "s_devid (n_sess n') = s_devid (n_sess n)" using assms(2) by (auto simp: quiet_def)
  then show "implements dev n' (x\<lparr>x_sess := n_sess n'\<rparr>)" using i assms(3-9) by (auto simp: implements_def)
qed

lemma sim_write:
  assumes "implements dev n x" "writer_open (n_sess n)" "frames (n_sess n) \<noteq> []"
    and st: "st = write_round (Inr ()) (n_sess n)" "written st = written (n_sess n) @ batch"
  shows "simulates eps dev x ((set_sess st n)\<lparr>n_up := n_up n @ batch\<rparr>)"
proof (rule quiet_sess [OF assms(1)])
  note i = implementsD [OF assms(1)]
  obtain gs fs where w: "frames (n_sess n) = gs @ fs" "gs \<noteq> []"
      "st = (n_sess n)\<lparr>frames := fs, written := written (n_sess n) @ concat gs\<rparr>"
    using write_round_frames [OF assms(3)] st(1) by metis
  then have b: "batch = concat gs" using st(2) by simp
  have "quiet (n_sess n) st"
    unfolding quiet_def by (intro exI [of _ fs] exI [of _ "written st"] exI [of _ "writer_open (n_sess n)"] exI [of _ "unlinked (n_sess n)"])
      (simp add: w(3))
  then show "quiet (n_sess n) (n_sess ((set_sess st n)\<lparr>n_up := n_up n @ batch\<rparr>))" by simp
  show "client_inv (n_client ((set_sess st n)\<lparr>n_up := n_up n @ batch\<rparr>))"
    using client_inv_step [OF client_step.step_write [OF assms(2), of "Inr ()"] i(3)] by (simp add: st(1))
  assume "n_serving n"
  from i(11) [OF this] obtain cs cs' where c: "x_cmds x = cs @ cs'" "n_up n = concat (map (cmd_bytes dev) cs)"
    "frames (n_sess n) = map (cmd_bytes dev) cs'" using assms(2) by (auto simp: up_ok_def)
  then have "map (cmd_bytes dev) cs' = gs @ fs" using w(1) by simp
  then obtain c1 c2 where c12: "cs' = c1 @ c2" "gs = map (cmd_bytes dev) c1" "fs = map (cmd_bytes dev) c2" by (auto simp: map_eq_append_conv)
  then show "up_ok dev ((set_sess st n)\<lparr>n_up := n_up n @ batch\<rparr>)
      (x\<lparr>x_sess := n_sess ((set_sess st n)\<lparr>n_up := n_up n @ batch\<rparr>)\<rparr>)"
    unfolding up_ok_def using c by (intro exI [of _ "cs @ c1"] exI [of _ c2] exI [of _ "[]"]) (simp add: b w(3))
qed (use implementsD(12) [OF assms(1)] in \<open>simp_all add: down_ok_def\<close>)

lemma sim_write_stop:
  assumes "implements dev n x" "closed_tx (n_sess n) \<noteq> None"
  shows "simulates eps dev x (set_sess (write_stop (n_sess n)) n)"
proof (rule quiet_sess [OF assms(1)])
  note i = implementsD [OF assms(1)]
  show "quiet (n_sess n) (n_sess (set_sess (write_stop (n_sess n)) n))" unfolding quiet_def write_stop_def
    by (intro exI [of _ "frames (n_sess n)"] exI [of _ "written (n_sess n)"] exI [of _ False] exI [of _ "unlinked (n_sess n)"]) simp
  show "client_inv (n_client (set_sess (write_stop (n_sess n)) n))"
    using client_inv_step [OF client_step.step_write_stop [OF assms(2)] i(3)] by simp
qed (use implementsD(11,12) [OF assms(1)] in \<open>auto simp: up_ok_def down_ok_def write_stop_def\<close>)

section \<open>The server's steps\<close>

lemma is_unlink_simps [simp]:
  "\<not> is_unlink (EvSubmit u)" "is_unlink (EvUnlink q t b)" "\<not> is_unlink (EvCompleted q)" "\<not> is_unlink EvDisconnected" "\<not> is_unlink EvReset"
  by (simp_all add: is_unlink_def)

text \<open>What the server reads of the stream is the first command, or a part of it.\<close>

lemma first_command:
  assumes imp: "implements dev n x" and inv: "exchange_inv eps x" and n: "n_serving n" "n_up n = bs @ later" "bs \<noteq> []"
  obtains c cs where "x_cmds x = c # cs" "cmd_seq c \<notin> set (map job_seq (x_jobs x))"
    "cmd_seq c \<notin> set (sv_pending (n_server n))" "\<And>q req. c = Sub q req \<Longrightarrow> wf_request eps req"
    "strict_prefix bs (cmd_bytes dev c) \<or> (\<exists>rest. bs = cmd_bytes dev c @ rest \<and>
       (\<forall>n' x'. n_up n' = rest @ later \<longrightarrow> n_client n' = n_client n \<longrightarrow> x_cmds x' = cs \<longrightarrow> up_ok dev n' x'))"
proof -
  note i = implementsD [OF imp]
  obtain cs1 cs2 part where up: "x_cmds x = cs1 @ cs2" "n_up n = concat (map (cmd_bytes dev) cs1) @ part"
    "part \<noteq> [] \<Longrightarrow> cs2 \<noteq> [] \<and> strict_prefix part (cmd_bytes dev (hd cs2))"
    "writer_open (n_sess n) \<Longrightarrow> part = [] \<and> frames (n_sess n) = map (cmd_bytes dev) cs2"
    using i(11) [OF n(1)] by (auto simp: up_ok_def)
  have "cs1 @ cs2 \<noteq> []" using up(2,3) n(2,3) by auto
  then obtain c cs where c: "cs1 @ cs2 = c # cs" by (cases "cs1 @ cs2") auto
  have "cmd_seq c \<notin> set (map job_seq (x_jobs x))" using inv by (auto simp: exchange_inv_def seqs_ok_def up(1) c)
  moreover from this have "cmd_seq c \<notin> set (sv_pending (n_server n))" using i(9,10) [OF n(1)] live_seqs by auto
  moreover have "wf_request eps req" if "c = Sub q req" for q req
    using inv that by (fastforce simp: exchange_inv_def urbs_ok_def issued_cmd_def ledger_ok_def up(1) c)
  moreover have "strict_prefix bs (cmd_bytes dev c) \<or> (\<exists>rest. bs = cmd_bytes dev c @ rest \<and>
       (\<forall>n' x'. n_up n' = rest @ later \<longrightarrow> n_client n' = n_client n \<longrightarrow> x_cmds x' = cs \<longrightarrow> up_ok dev n' x'))"
  proof (cases cs1)
    case Nil
    then have "bs @ later = part" "hd cs2 = c" using up(2) n(2) c by simp_all
    then have "strict_prefix (bs @ later) (cmd_bytes dev c)" using up(3) n(3) by auto
    then show ?thesis by (meson prefix_order.le_less_trans prefixI)
  next
    case (Cons c' cs1')
    then have cs: "c' = c" "cs = cs1' @ cs2" using c by simp_all
    have eq: "bs @ later = cmd_bytes dev c @ concat (map (cmd_bytes dev) cs1') @ part" using up(2) n(2) Cons cs(1) by simp
    then obtain us where us: "bs @ us = cmd_bytes dev c \<or>
        bs = cmd_bytes dev c @ us \<and> us @ later = concat (map (cmd_bytes dev) cs1') @ part"
      by (auto simp only: append_eq_append_conv2 [of bs])
    show ?thesis
    proof (cases "strict_prefix bs (cmd_bytes dev c)")
      case False
      then have "bs @ us = cmd_bytes dev c \<Longrightarrow> us = []" by (metis append_Nil2 prefixI same_append_eq strict_prefixI)
      then obtain rest where "bs = cmd_bytes dev c @ rest" "rest @ later = concat (map (cmd_bytes dev) cs1') @ part"
        using us eq \<open>bs @ us = cmd_bytes dev c \<Longrightarrow> us = []\<close> by (cases "bs @ us = cmd_bytes dev c") auto
      then show ?thesis using up(3,4) cs(2) unfolding up_ok_def by auto
    qed simp
  qed
  ultimately show thesis using that up(1) c by metis
qed

lemma server_ends:
  assumes imp: "implements dev n x" and "n_serving n" "filter is_unlink l = []"
  shows "implements dev (n\<lparr>n_server := serve_end ((n_server n)\<lparr>sv_log := sv_log (n_server n) @ l\<rparr>), n_serving := False, n_up := u\<rparr>) x"
proof -
  note i = implementsD [OF imp]
  let ?n = "n\<lparr>n_server := serve_end ((n_server n)\<lparr>sv_log := sv_log (n_server n) @ l\<rparr>), n_serving := False, n_up := u\<rparr>"
  have "down_ok ?n x" if "closed (n_sess n) = None"
    using i(12) [OF that] assms(2) out_ok_simps(2) unfolding down_ok_def by (fastforce simp: serve_end_def)
  then show ?thesis using i assms(3) by (auto simp: implements_def serve_end_def)
qed

lemma sim_serve:
  assumes imp: "implements dev n x" and inv: "exchange_inv eps x" and n: "n_serving n" "n_up n \<noteq> []"
    and sv: "serve_urb eps dev \<lparr>avail = n_up n, ending = UnexpectedEof\<rparr> (n_server n) = (r, sv)"
  shows "simulates eps dev x (n\<lparr>n_server := sv, n_serving := r \<noteq> None, n_up := (case r of None \<Rightarrow> [] | Some r \<Rightarrow> avail r)\<rparr>)"
    (is "simulates eps dev x ?n")
proof -
  note i = implementsD [OF imp]
  obtain c cs where c: "x_cmds x = c # cs" "cmd_seq c \<notin> set (map job_seq (x_jobs x))"
    "cmd_seq c \<notin> set (sv_pending (n_server n))" "\<And>q req. c = Sub q req \<Longrightarrow> wf_request eps req"
    and first: "strict_prefix (n_up n) (cmd_bytes dev c) \<or> (\<exists>rest. n_up n = cmd_bytes dev c @ rest \<and>
       (\<forall>n' x'. n_up n' = rest @ [] \<longrightarrow> n_client n' = n_client n \<longrightarrow> x_cmds x' = cs \<longrightarrow> up_ok dev n' x'))"
    by (rule first_command [OF imp inv n(1) _ n(2), of "[]"]) (simp, rule that)
  from first show ?thesis
  proof (elim disjE exE conjE)
    assume "strict_prefix (n_up n) (cmd_bytes dev c)"
    from serve_cut [OF this c(3,4)] sv have "r = None"
      "sv = serve_end ((n_server n)\<lparr>sv_log := sv_log (n_server n) @ logged_submit dev (set (sv_pending (n_server n)))
         \<lparr>avail = n_up n, ending = UnexpectedEof\<rparr>\<rparr>)" by auto
    then show ?thesis using server_ends [OF imp n(1) logged_submit_quiet] by (simp add: simulates_same)
  next
    fix rest
    assume rest: "n_up n = cmd_bytes dev c @ rest"
      and up: "\<forall>n' x'. n_up n' = rest @ [] \<longrightarrow> n_client n' = n_client n \<longrightarrow> x_cmds x' = cs \<longrightarrow> up_ok dev n' x'"
    show ?thesis
    proof (cases c)
      case (Sub q req)
      then have r: "r = Some \<lparr>avail = rest, ending = UnexpectedEof\<rparr>" "sv = handle_submit (requested_urb q dev req) (n_server n)"
        using serve_sub [OF c(4) [OF Sub], of q "n_server n" dev rest UnexpectedEof] c(3) rest sv by auto
      have "cancel_jobs q (sv_jobs (n_server n)) = sv_jobs (n_server n)"
        using c(2) i(9) [OF n(1)] Sub by (intro cancel_absent) simp
      then have "implements dev ?n (x\<lparr>x_cmds := cs, x_jobs := x_jobs x @ [(urb_for x q req, False)]\<rparr>)"
        using i n(1) up by (simp add: implements_def r handle_submit_def down_ok_def)
      then show ?thesis using c(1) Sub by (intro simulatesI [OF exchange_step.serve_submit]) simp_all
    next
      case (Unl q t)
      then have r: "r = Some \<lparr>avail = rest, ending = UnexpectedEof\<rparr>" "sv = handle_unlink q t (n_server n)"
        using serve_unl [of q "n_server n" eps dev t rest UnexpectedEof] c(3) rest sv by auto
      have down: "down_ok ?n (x\<lparr>x_cmds := cs, x_jobs := js, x_reps := x_reps x @ [RUnl q s], x_log := l\<rparr>)"
        if op: "closed (n_sess n) = None" and s: "s = (if t \<in> set (sv_pending (n_server n)) then - ECONNRESET else 0)" for js s l
      proof -
        obtain rs rs' where "x_reps x = rs @ rs'" "stream_ok (cl_reader (n_client n)) (cl_in (n_client n) @ n_down n) rs"
          "sv_out (n_server n) = map (\<lambda>r. Some (rep_bytes r)) rs'"
          using i(12) [OF op] n(1) by (auto simp: down_ok_def)
        then show ?thesis unfolding down_ok_def using s
          by (intro exI [of _ rs] exI [of _ "rs' @ [RUnl q s]"]) (simp add: r handle_unlink_def Let_def rep_bytes_def)
      qed
      show ?thesis
      proof (cases "t \<in> live (x_jobs x)")
        case True
        then have "implements dev ?n (x\<lparr>x_cmds := cs, x_jobs := cancel_jobs t (x_jobs x),
            x_reps := x_reps x @ [RUnl q (- ECONNRESET)], x_log := x_log x @ [EvUnlink q t True]\<rparr>)"
          using i n(1) up down by (auto simp: implements_def r handle_unlink_def Let_def)
        then show ?thesis using c(1) Unl True by (intro simulatesI [OF exchange_step.serve_found]) simp_all
      next
        case False
        then have "implements dev ?n (x\<lparr>x_cmds := cs, x_jobs := x_jobs x,
            x_reps := x_reps x @ [RUnl q 0], x_log := x_log x @ [EvUnlink q t False]\<rparr>)"
          using i n(1) up down by (auto simp: implements_def r handle_unlink_def Let_def)
        then show ?thesis using c(1) Unl False by (intro simulatesI [OF exchange_step.serve_missed]) simp_all
      qed
    qed
  qed
qed

lemma sim_serve_lost:
  assumes imp: "implements dev n x" and inv: "exchange_inv eps x" and n: "n_serving n" "n_up n = bs @ later"
    and sv: "serve_urb eps dev \<lparr>avail = bs, ending = e\<rparr> (n_server n) = (None, sv)"
  shows "simulates eps dev x (n\<lparr>n_server := sv, n_serving := False\<rparr>)"
proof -
  have "\<exists>l. filter is_unlink l = [] \<and> sv = serve_end ((n_server n)\<lparr>sv_log := sv_log (n_server n) @ l\<rparr>)"
  proof (cases "bs = []")
    case True
    then show ?thesis using sv by (intro exI [of _ "[]"]) (simp add: serve_nothing)
  next
    case False
    obtain c cs where c: "cmd_seq c \<notin> set (sv_pending (n_server n))" "\<And>q req. c = Sub q req \<Longrightarrow> wf_request eps req"
      "strict_prefix bs (cmd_bytes dev c) \<or> (\<exists>rest. bs = cmd_bytes dev c @ rest)"
      using first_command [OF imp inv n False] by (metis (no_types, lifting))
    have "strict_prefix bs (cmd_bytes dev c)"
    proof (rule ccontr)
      assume "\<not> ?thesis"
      then obtain rest where "bs = cmd_bytes dev c @ rest" using c(3) by blast
      then show False using sv c(1,2) by (cases c) (auto simp: serve_sub serve_unl)
    qed
    from serve_cut [OF this c(1,2)] sv show ?thesis by (intro exI conjI logged_submit_quiet) auto
  qed
  then obtain l where l: "filter is_unlink l = []" "sv = serve_end ((n_server n)\<lparr>sv_log := sv_log (n_server n) @ l\<rparr>)" by blast
  from server_ends [OF imp n(1) l(1), of "n_up n"] have "implements dev (n\<lparr>n_server := sv, n_serving := False\<rparr>) x" by (simp add: l(2))
  then show ?thesis by (rule simulates_same)
qed

lemma live_unique:
  assumes "distinct (map job_seq (xs @ (u, b) # ys))"
  shows "u_seqnum u \<in> live (xs @ (u, b) # ys) \<longleftrightarrow> \<not> b" "u_seqnum u \<notin> live (xs @ ys)"
    "cancel_jobs (u_seqnum u) (xs @ ys) = xs @ ys"
proof -
  have "u_seqnum u \<notin> set (map job_seq (xs @ ys))" using assms by auto
  then show "u_seqnum u \<notin> live (xs @ ys)" "cancel_jobs (u_seqnum u) (xs @ ys) = xs @ ys"
    using live_seqs cancel_absent by blast+
  then show "u_seqnum u \<in> live (xs @ (u, b) # ys) \<longleftrightarrow> \<not> b" by (cases b) simp_all
qed

lemma sim_work:
  assumes imp: "implements dev n x" and inv: "exchange_inv eps x" and n: "n_serving n"
    and tk: "take_job a (sv_jobs (n_server n)) = Some ((u, b), js)" and co: "completes u choice"
    and w: "endpoint_worker a choice (n_server n) = Some sv"
  shows "simulates eps dev x (n\<lparr>n_server := sv, n_done := n_done n @ completed u choice (n_server n)\<rparr>)"
    (is "simulates eps dev x ?n")
proof -
  note i = implementsD [OF imp]
  obtain xs ys where j: "sv_jobs (n_server n) = xs @ (u, b) # ys" "js = xs @ ys" using take_job_Some [OF tk] by metis
  have xj: "x_jobs x = xs @ (u, b) # ys" using i(9) [OF n] j(1) by simp
  have "distinct (map job_seq (x_jobs x))" using inv by (simp add: exchange_inv_def seqs_ok_def)
  then have "distinct (map job_seq (xs @ (u, b) # ys))" by (simp only: xj)
  note l = live_unique [OF this]
  have up: "up_ok dev n' x'" if "n_up n' = n_up n" "n_client n' = n_client n" "x_cmds x' = x_cmds x" for n' x'
    using i(11) [OF n] that by (simp add: up_ok_def)
  show ?thesis
  proof (cases b)
    case True
    then have "u_seqnum u \<notin> set (sv_pending (n_server n))" using i(10) [OF n] l(1) j(1) by simp
    then have sv: "sv = (n_server n)\<lparr>sv_jobs := js\<rparr>" "completed u choice (n_server n) = []"
      using w tk by (auto simp: endpoint_worker_def completed_def split: option.splits if_splits Outcome.split)
    then have "implements dev ?n (x\<lparr>x_jobs := xs @ ys\<rparr>)"
      using i n up True j by (simp add: implements_def down_ok_def)
    then show ?thesis using xj True by (intro simulatesI [OF exchange_step.discard]) simp_all
  next
    case False
    then have p: "u_seqnum u \<in> set (sv_pending (n_server n))" using i(10) [OF n] l(1) j(1) by simp
    obtain k where k: "choice = Some (Complete k)" "wf_completion u k"
      using w tk co False by (cases choice) (auto simp: endpoint_worker_def completes_def split: Outcome.splits)
    then have sv: "sv_jobs sv = xs @ ys" "sv_pending sv = removeAll (u_seqnum u) (sv_pending (n_server n))"
        "sv_log sv = sv_log (n_server n) @ [EvCompleted (u_seqnum u)]" "sv_violations sv = sv_violations (n_server n)"
        "sv_out sv = sv_out (n_server n) @ [Some (ret_submit u k)]"
      and d: "completed u choice (n_server n) = [(u, k)]"
      using w tk p l(3) j(2) by (auto simp: endpoint_worker_def completed_def)
    have "down_ok ?n (x\<lparr>x_jobs := xs @ ys, x_reps := x_reps x @ [RSub u k], x_done := x_done x @ [(u, k)]\<rparr>)"
      if op: "closed (n_sess n) = None"
    proof -
      obtain rs rs' where "x_reps x = rs @ rs'" "stream_ok (cl_reader (n_client n)) (cl_in (n_client n) @ n_down n) rs"
        "sv_out (n_server n) = map (\<lambda>r. Some (rep_bytes r)) rs'"
        using i(12) [OF op] n by (auto simp: down_ok_def)
      then show ?thesis unfolding down_ok_def using n
        by (intro exI [of _ rs] exI [of _ "rs' @ [RSub u k]"]) (simp add: sv rep_bytes_def)
    qed
    then have "implements dev ?n (x\<lparr>x_jobs := xs @ ys, x_reps := x_reps x @ [RSub u k], x_done := x_done x @ [(u, k)]\<rparr>)"
      using i n up l(2) False j by (auto simp: implements_def sv d)
    then show ?thesis using xj False k(2) by (intro simulatesI [OF exchange_step.complete]) simp_all
  qed
qed

lemma sim_send:
  assumes imp: "implements dev n x" and w: "server_write (n_server n) = Some (frame, sv)"
  shows "simulates eps dev x (n\<lparr>n_server := sv, n_down := n_down n @ frame\<rparr>)" (is "simulates eps dev x ?n")
proof (rule simulates_same)
  note i = implementsD [OF imp]
  obtain out where o: "sv_out (n_server n) = Some frame # out" "sv = (n_server n)\<lparr>sv_out := out\<rparr>"
    using w by (auto simp: server_write_def split: list.splits option.splits)
  have "down_ok ?n x" if op: "closed (n_sess n) = None"
  proof -
    obtain rs rs' where d: "x_reps x = rs @ rs'" "stream_ok (cl_reader (n_client n)) (cl_in (n_client n) @ n_down n) rs"
        "out_ok (n_serving n) (cl_eof (n_client n)) (Some frame # out) rs'"
      using i(12) [OF op] by (auto simp: down_ok_def o(1))
    obtain r rs2 where r: "rs' = r # rs2" "frame = rep_bytes r" "out_ok (n_serving n) (cl_eof (n_client n)) out rs2"
      using out_ok_Cons [OF d(3)] by metis
    then show ?thesis unfolding down_ok_def using d(1) stream_ok_snoc [OF d(2), of r]
      by (intro exI [of _ "rs @ [r]"] exI [of _ rs2]) (simp add: o(2))
  qed
  then show "implements dev ?n x" using i by (simp add: implements_def o(2) up_ok_def)
qed

lemma sim_arrive:
  assumes imp: "implements dev n x" and "n_down n = seg @ rest"
  shows "simulates eps dev x (n\<lparr>n_client := (n_client n)\<lparr>cl_in := cl_in (n_client n) @ seg\<rparr>, n_down := rest\<rparr>)"
proof (rule simulates_same)
  have "client_inv ((n_client n)\<lparr>cl_in := cl_in (n_client n) @ seg\<rparr>)"
    using implementsD(3) [OF imp] by (simp add: client_inv_def)
  then show "implements dev (n\<lparr>n_client := (n_client n)\<lparr>cl_in := cl_in (n_client n) @ seg\<rparr>, n_down := rest\<rparr>) x"
    using implementsD [OF imp] assms(2) by (simp add: implements_def up_ok_def down_ok_def)
qed

section \<open>The reader's steps\<close>

lemma resolve_frames [simp]:
  "frames (resolve_submit q ret st) = frames st" "frames (resolve_unlink ru st) = frames st"
  by (simp_all add: resolve_submit_def resolve_unlink_def Let_def send_reply_def split: option.split)

lemma urb_for_request [simp]:
  "urb_direction (requested_urb q dev req) = sr_direction req" "u_length (requested_urb q dev req) = sr_length req"
  by (cases "sr_direction req"; simp add: urb_direction_def is_in_def requested_urb_def)+

text \<open>The transfer of every reply on the way is pending, with the direction and length of its URB.\<close>

lemma reply_pending:
  assumes inv: "exchange_inv eps x" and op: "closed (x_sess x) = None" and r: "RSub u k \<in> set (x_reps x)"
  shows "lookup_request (u_seqnum u) (x_sess x) = Some (urb_direction u, u_length u)" "wf_completion u k"
proof -
  have uo: "urbs_ok x" and lo: "ledger_ok eps x" and sm: "submits_ok x" using inv op by (simp_all add: exchange_inv_def)
  have "done_rep x (RSub u k)" using uo r by (simp add: urbs_ok_def)
  then have d: "(u, k) \<in> set (x_done x)" and wf: "wf_completion u k" by (simp_all add: done_rep_def)
  show "wf_completion u k" by (rule wf)
  have "u_seqnum u \<in> keys (submits (x_sess x))" using sm r by (auto simp: submits_ok_def ret_seqs_def)
  then obtain p where p: "map_of (submits (x_sess x)) (u_seqnum u) = Some p" by (metis map_of_eq_None_iff not_Some_eq)
  then obtain req where req: "(ps_reply p, u_seqnum u, req) \<in> set (x_issued x)" "ps_direction p = sr_direction req" "ps_length p = sr_length req"
    using sm map_of_SomeD [OF p] by (fastforce simp: submits_ok_def)
  obtain ch' q' req' where u: "(ch', q', req') \<in> set (x_issued x)" "u = urb_for x q' req'"
    using uo d by (force simp: urbs_ok_def issued_urb_def)
  have "(ch', q', req') = (ps_reply p, u_seqnum u, req)"
    using lo req(1) u inj_onD [of "fst \<circ> snd" "set (x_issued x)" "(ch', q', req')" "(ps_reply p, u_seqnum u, req)"]
    by (simp add: ledger_ok_def distinct_map)
  then show "lookup_request (u_seqnum u) (x_sess x) = Some (urb_direction u, u_length u)"
    using p req(2,3) u(2) by (simp add: lookup_request_def)
qed

lemma reader_closed:
  assumes "session_inv (cl_sess c)" "closed (cl_sess c) \<noteq> None" "reader_step c = Some c'"
  shows "quiet (cl_sess c) (cl_sess c')" "frames (cl_sess c') = frames (cl_sess c)" "writer_open (cl_sess c') = writer_open (cl_sess c)"
proof -
  have e: "submits (cl_sess c) = []" "unlinks (cl_sess c) = []" using assms(1,2) by (auto simp: session_inv_def)
  have "resolve_unlink ru (cl_sess c) = cl_sess c" for ru by (simp add: resolve_unlink_def e)
  moreover have "resolve_submit q ret (cl_sess c) = (cl_sess c)\<lparr>unlinked := filter (\<lambda>u. fst u \<noteq> q) (unlinked (cl_sess c))\<rparr>" for q ret
    by (rule Shared.equality) (simp_all add: resolve_submit_def retain_def e)
  ultimately have *: "cl_sess c' = cl_sess c \<or>
      (\<exists>q. cl_sess c' = (cl_sess c)\<lparr>unlinked := filter (\<lambda>u. fst u \<noteq> q) (unlinked (cl_sess c))\<rparr>)"
    using assms(2,3) by (auto simp: reader_step_def reader_fails_def Let_def
        split: reader.splits sum.splits prod.splits Reply.splits option.splits if_splits)
  then show "frames (cl_sess c') = frames (cl_sess c)" "writer_open (cl_sess c') = writer_open (cl_sess c)" by auto
  from * show "quiet (cl_sess c) (cl_sess c')"
  proof (elim disjE exE)
    fix q
    assume c: "cl_sess c' = (cl_sess c)\<lparr>unlinked := filter (\<lambda>u. fst u \<noteq> q) (unlinked (cl_sess c))\<rparr>"
    show "quiet (cl_sess c) (cl_sess c')" unfolding quiet_def using assms(2)
      by (intro exI [of _ "frames (cl_sess c)"] exI [of _ "written (cl_sess c)"] exI [of _ "writer_open (cl_sess c)"]
          exI [of _ "filter (\<lambda>u. fst u \<noteq> q) (unlinked (cl_sess c))"]) (auto simp: c)
  qed auto
qed

text \<open>Open sessions: the reader takes the first reply, or the stream has ended.\<close>

lemma reader_header:
  assumes c: "cl_reader c = RHeader" "reader_step c = Some c'" and bs: "cl_in c @ later = concat (map rep_bytes rs)"
    and ok: "\<And>u k. RSub u k \<in> set rs \<Longrightarrow> wf_completion u k \<and> lookup_request (u_seqnum u) (cl_sess c) = Some (urb_direction u, u_length u)"
  obtains (lost) i where "c' = reader_fails c (Io i)"
  | (submit) u k rs' zs where "rs = RSub u k # rs'" "zs @ later = drop 48 (ret_submit u k) @ concat (map rep_bytes rs')"
      "c' = c\<lparr>cl_in := zs, cl_reader := RPayload (ret_header u k) (u_seqnum u) (urb_direction u) (u_length u)\<rparr>"
  | (unlink) q s rs' zs where "rs = RUnl q s # rs'" "zs @ later = concat (map rep_bytes rs')"
      "c' = c\<lparr>cl_in := zs, cl_sess := resolve_unlink \<lparr>ru_seqnum = q, ru_status = s\<rparr> (cl_sess c)\<rparr>"
proof -
  let ?s = "\<lambda>b. \<lparr>avail = b, ending = ending (cl_stream c)\<rparr>"
  have s: "cl_stream c = ?s (cl_in c)" by (simp add: cl_stream_def)
  have nw: thesis if "read_reply_header (?s (cl_in c)) = Inl (Io i)" for i
    using c that lost [of i] s by (auto simp: reader_step_def split: if_splits)
  show thesis
  proof (cases rs)
    case Nil
    then have "read_reply_header (?s (cl_in c)) = Inl (Io (ending (cl_stream c)))" using bs by (simp add: read_reply_header_def read_exact_def wire_sizes)
    then show ?thesis by (rule nw)
  next
    case (Cons r rs')
    show ?thesis
    proof (cases r)
      case (RSub u k)
      then have uk: "wf_completion u k" "lookup_request (u_seqnum u) (cl_sess c) = Some (urb_direction u, u_length u)"
        using ok [of u k] Cons by simp_all
      have "read_reply_header (?s (cl_in c @ later)) =
          Inr (ret_header u k, ?s (drop 48 (ret_submit u k) @ concat (map rep_bytes rs')))"
        using read_header_rep [OF uk(1)] by (simp add: bs Cons RSub rep_bytes_def)
      with incremental_header show ?thesis
      proof (cases rule: incrementalD)
        case (got zs)
        then have "c' = c\<lparr>cl_in := zs, cl_reader := RPayload (ret_header u k) (u_seqnum u) (urb_direction u) (u_length u)\<rparr>"
          using c uk(2) s by (simp add: reader_step_def Let_def ret_header_def)
        then show ?thesis using submit [of u k rs' zs] Cons RSub got(2) by simp
      qed (rule nw)
    next
      case (RUnl q st)
      have "read_reply_header (?s (cl_in c @ later)) =
          Inr (ReplyUnlink \<lparr>ru_seqnum = q, ru_status = st\<rparr>, ?s (concat (map rep_bytes rs')))"
        by (simp add: bs Cons RUnl rep_bytes_def read_reply_header_ret_unlink)
      with incremental_header show ?thesis
      proof (cases rule: incrementalD)
        case (got zs)
        then have "c' = c\<lparr>cl_in := zs, cl_sess := resolve_unlink \<lparr>ru_seqnum = q, ru_status = st\<rparr> (cl_sess c)\<rparr>"
          using c s by (simp add: reader_step_def Let_def)
        then show ?thesis using unlink [of q st rs' zs] Cons RUnl got(2) by simp
      qed (rule nw)
    qed
  qed
qed

lemma reader_payload:
  assumes c: "cl_reader c = RPayload (ret_header u k) (u_seqnum u) (urb_direction u) (u_length u)" "reader_step c = Some c'"
    and bs: "cl_in c @ later = drop 48 (ret_submit u k) @ rest" and wf: "wf_completion u k"
  obtains (lost) i where "c' = reader_fails c (Io i)"
  | (got) zs where "zs @ later = rest"
    "c' = c\<lparr>cl_in := zs, cl_reader := RHeader, cl_sess := resolve_submit (u_seqnum u) (ret_of u k) (cl_sess c)\<rparr>"
proof -
  let ?s = "\<lambda>b. \<lparr>avail = b, ending = ending (cl_stream c)\<rparr>"
  have s: "cl_stream c = ?s (cl_in c)" by (simp add: cl_stream_def)
  have "read_submit_payload (ret_header u k) (urb_direction u = In) (u_length u) (?s (cl_in c @ later)) = Inr (ret_of u k, ?s rest)"
    using read_payload_rep [OF wf] by (simp add: bs)
  with incremental_payload show thesis
  proof (cases rule: incrementalD)
    case (wait i)
    then show ?thesis using c lost [of i] s by (auto simp: reader_step_def split: if_splits)
  next
    case (got zs)
    then show ?thesis using that(2) [of zs] c s by (simp add: reader_step_def)
  qed
qed

lemma sim_read_open:
  assumes imp: "implements dev n x" and inv: "exchange_inv eps x" and op: "closed (n_sess n) = None"
    and r: "reader_step (n_client n) = Some c"
  shows "simulates eps dev x (n\<lparr>n_client := c\<rparr>)" (is "simulates eps dev x ?n")
proof -
  note i = implementsD [OF imp]
  have ci: "client_inv c" by (rule client_inv_reader [OF i(3) r])
  have op': "closed (x_sess x) = None" using op i(1) by simp
  obtain rs rs' where d: "x_reps x = rs @ rs'" "stream_ok (cl_reader (n_client n)) (cl_in (n_client n) @ n_down n) rs"
      "out_ok (n_serving n) (cl_eof (n_client n)) (sv_out (n_server n)) rs'"
    using i(12) [OF op] by (auto simp: down_ok_def)
  have ok: "wf_completion u k \<and> lookup_request (u_seqnum u) (n_sess n) = Some (urb_direction u, u_length u)"
    if "RSub u k \<in> set rs" for u k
    using reply_pending [OF inv op', of u k] that by (simp add: d(1) i(1))
  have fin: "implements dev ?n x'"
    if "x_sess x' = cl_sess c" "x_issued x' = x_issued x" "x_done x' = x_done x" "x_log x' = x_log x" "x_jobs x' = x_jobs x" "x_cmds x' = x_cmds x"
      "frames (cl_sess c) = frames (n_sess n)" "s_devid (cl_sess c) = dev" "closed (cl_sess c) = None" "cl_eof c = cl_eof (n_client n)"
      "writer_open (cl_sess c) = writer_open (n_sess n)" "x_reps x' = ts @ rs'" "stream_ok (cl_reader c) (cl_in c @ n_down n) ts" for x' ts
  proof -
    have "up_ok dev ?n x'" if "n_serving n" using i(11) [OF that] \<open>x_cmds x' = x_cmds x\<close> \<open>frames (cl_sess c) = frames (n_sess n)\<close>
        \<open>writer_open (cl_sess c) = writer_open (n_sess n)\<close> by (simp add: up_ok_def)
    moreover have "down_ok ?n x'" using that(10-13) d(3) unfolding down_ok_def by auto
    ultimately show ?thesis using i(4-10) ci that(1-9) by (simp add: implements_def)
  qed
  have lost: ?thesis if c: "c = reader_fails (n_client n) (Io e)" for e
  proof (rule simulatesI [OF exchange_step.close])
    show w: "connection_end (close_reason_of (Io e))" by (cases e) (simp_all add: connection_end_def close_reason_of_def)
    show "implements dev ?n (x\<lparr>x_sess := Shared_close (close_reason_of (Io e)) (x_sess x)\<rparr>)"
      by (rule sim_closed [OF imp w]) (use ci c in \<open>simp_all add: reader_fails_def\<close>)
  qed
  show ?thesis
  proof (cases "cl_reader (n_client n)")
    case RHeader
    have bs: "cl_in (n_client n) @ n_down n = concat (map rep_bytes rs)" using d(2) RHeader by (simp add: stream_ok_def)
    show ?thesis
    proof (rule reader_header [OF RHeader r bs ok])
      show ?thesis if "c = reader_fails (n_client n) (Io e)" for e using that by (rule lost)
      fix u k rs2 zs
      assume h: "rs = RSub u k # rs2" "zs @ n_down n = drop 48 (ret_submit u k) @ concat (map rep_bytes rs2)"
        "c = (n_client n)\<lparr>cl_in := zs, cl_reader := RPayload (ret_header u k) (u_seqnum u) (urb_direction u) (u_length u)\<rparr>"
      have "implements dev ?n x"
        by (rule fin [of x rs]) (use h op d(1) i(1,2) in \<open>auto simp: stream_ok_def\<close>)
      then show ?thesis by (rule simulates_same)
    next
      fix q s rs2 zs
      assume h: "rs = RUnl q s # rs2" "zs @ n_down n = concat (map rep_bytes rs2)"
        "c = (n_client n)\<lparr>cl_in := zs, cl_sess := resolve_unlink \<lparr>ru_seqnum = q, ru_status = s\<rparr> (n_sess n)\<rparr>"
      have "implements dev ?n (x\<lparr>x_reps := rs2 @ rs', x_sess := resolve_unlink \<lparr>ru_seqnum = q, ru_status = s\<rparr> (x_sess x)\<rparr>)"
        by (rule fin [of _ rs2]) (use h op i(1,2) RHeader in \<open>simp_all add: stream_ok_def\<close>)
      moreover have "x_reps x = RUnl q s # rs2 @ rs'" using d(1) h(1) by simp
      ultimately show ?thesis by (intro simulatesI [OF exchange_step.receive_unlink])
    qed
  next
    case (RPayload h q dir len)
    then obtain u k rs2 where p: "rs = RSub u k # rs2"
      "cl_reader (n_client n) = RPayload (ret_header u k) (u_seqnum u) (urb_direction u) (u_length u)"
      "cl_in (n_client n) @ n_down n = drop 48 (ret_submit u k) @ concat (map rep_bytes rs2)"
      using d(2) by (auto simp: stream_ok_def)
    then have "wf_completion u k" using ok [of u k] by simp
    with p(2) r p(3) show ?thesis
    proof (cases rule: reader_payload)
      case (got zs)
      note z = this
      have "implements dev ?n (x\<lparr>x_reps := rs2 @ rs', x_sess := resolve_submit (u_seqnum u) (ret_of u k) (x_sess x)\<rparr>)"
        by (rule fin [of _ rs2]) (use z op i(1,2) in \<open>simp_all add: stream_ok_def\<close>)
      moreover have "x_reps x = RSub u k # rs2 @ rs'" using d(1) p(1) by simp
      ultimately show ?thesis by (intro simulatesI [OF exchange_step.receive])
    qed (rule lost)
  next
    case RDone
    then show ?thesis using d(2) by (simp add: stream_ok_def)
  qed
qed

lemma sim_read:
  assumes imp: "implements dev n x" and inv: "exchange_inv eps x" and r: "reader_step (n_client n) = Some c"
  shows "simulates eps dev x (n\<lparr>n_client := c\<rparr>)"
proof (cases "closed (n_sess n)")
  case None
  then show ?thesis by (rule sim_read_open [OF imp inv _ r])
next
  case (Some why)
  note i = implementsD [OF imp]
  have "session_inv (n_sess n)" using i(3) by (simp add: client_inv_def)
  note q = reader_closed [OF this _ r]
  show ?thesis
    by (rule quiet_sess [OF imp]) (use q i(11) Some client_inv_reader [OF i(3) r] in \<open>simp_all add: up_ok_def\<close>)
qed

lemma sim_client:
  assumes imp: "implements dev n x"
    and "n_client n' = (n_client n)\<lparr>cl_reader := rd, cl_eof := eof\<rparr>" "rd = cl_reader (n_client n) \<or> closed (n_sess n) \<noteq> None"
    and "n_issued n' = n_issued n" "n_done n' = n_done n" "n_up n' = n_up n" "n_serving n' = n_serving n"
      "n_server n' = (n_server n)\<lparr>sv_out := out\<rparr>"
    and "closed (n_sess n) = None \<Longrightarrow> down_ok n x \<Longrightarrow> down_ok n' x"
  shows "implements dev n' x"
proof -
  have "client_inv (n_client n')" using implementsD(3) [OF imp] assms(3) by (auto simp: client_inv_def assms(2))
  then show ?thesis using implementsD [OF imp] assms(2-) by (auto simp: implements_def up_ok_def)
qed

lemma sim_shut:
  assumes imp: "implements dev n x" and o: "sv_out (n_server n) = None # out"
  shows "simulates eps dev x (n\<lparr>n_server := (n_server n)\<lparr>sv_out := out\<rparr>, n_client := (n_client n)\<lparr>cl_eof := Some UnexpectedEof\<rparr>\<rparr>)"
    (is "simulates eps dev x ?n")
proof (rule simulates_same, rule sim_client [OF imp, where rd = "cl_reader (n_client n)" and eof = "Some UnexpectedEof"])
  assume "closed (n_sess n) = None" "down_ok n x"
  then obtain rs rs' where d: "x_reps x = rs @ rs'" "stream_ok (cl_reader (n_client n)) (cl_in (n_client n) @ n_down n) rs"
    "out_ok (n_serving n) (cl_eof (n_client n)) (None # out) rs'" using o by (auto simp: down_ok_def)
  then have "out_ok (n_serving n) (Some UnexpectedEof) out rs'" by (cases rs') (auto simp: out_ok_def split: if_splits)
  then show "down_ok ?n x" using d(1,2) unfolding down_ok_def by auto
qed simp_all

lemma take_frames:
  "\<exists>d d' part. cs = d @ d' \<and> take k (concat (map (cmd_bytes dev) cs)) = concat (map (cmd_bytes dev) d) @ part \<and>
     (part \<noteq> [] \<longrightarrow> d' \<noteq> [] \<and> strict_prefix part (cmd_bytes dev (hd d')))"
proof (induction cs arbitrary: k)
  case (Cons c cs)
  let ?l = "length (cmd_bytes dev c)"
  show ?case
  proof (cases "k < ?l")
    case True
    then have "strict_prefix (take k (cmd_bytes dev c)) (cmd_bytes dev c)"
      by (metis length_take less_irrefl min.absorb4 strict_prefixI take_is_prefix)
    then show ?thesis using True by (intro exI [of _ "[]"] exI [of _ "c # cs"] exI [of _ "take k (cmd_bytes dev c)"]) simp
  next
    case False
    obtain d d' part where "cs = d @ d'" "take (k - ?l) (concat (map (cmd_bytes dev) cs)) = concat (map (cmd_bytes dev) d) @ part"
      "part \<noteq> [] \<longrightarrow> d' \<noteq> [] \<and> strict_prefix part (cmd_bytes dev (hd d'))" using Cons.IH by blast
    then show ?thesis using False by (intro exI [of _ "c # d"] exI [of _ d'] exI [of _ part]) simp
  qed
qed simp

lemma write_round_fails:
  assumes "frames st \<noteq> []"
  obtains gs fs where "frames st = gs @ fs" "write_round (Inl (e, k)) st =
    (Shared_close (WriteFailed e) st)\<lparr>frames := fs, written := written st @ take k (concat gs), writer_open := False\<rparr>"
proof -
  obtain f hs where fr: "frames st = f # hs" using assms by (cases "frames st") auto
  obtain b fs where fb: "fill_batch f hs = (b, fs)" by fastforce
  obtain gs where gs: "hs = gs @ fs" "b = f @ concat gs" using fill_batch_frames [OF fb] by blast
  have "Shared_close why (st\<lparr>frames := a, written := w\<rparr>) = (Shared_close why st)\<lparr>frames := a, written := w\<rparr>" for why a w
    by (cases "closed st") (simp_all add: Shared_close_open)
  then have "write_round (Inl (e, k)) st =
      (Shared_close (WriteFailed e) st)\<lparr>frames := fs, written := written st @ take k (concat (f # gs)), writer_open := False\<rparr>"
    using fr fb gs by (simp add: write_round_def)
  then show thesis using that [of "f # gs" fs] fr gs(1) by simp
qed

lemma sim_write_fail:
  assumes imp: "implements dev n x" and w: "writer_open (n_sess n)" "frames (n_sess n) \<noteq> []"
    and st: "st = write_round (Inl (e, k)) (n_sess n)" "written st = written (n_sess n) @ batch"
  shows "simulates eps dev x ((set_sess st n)\<lparr>n_up := n_up n @ batch\<rparr>)" (is "simulates eps dev x ?n")
proof -
  note i = implementsD [OF imp]
  let ?n1 = "set_sess (Shared_close (WriteFailed e) (n_sess n)) n" and ?x1 = "x\<lparr>x_sess := Shared_close (WriteFailed e) (x_sess x)\<rparr>"
  have e: "connection_end (WriteFailed e)" by (simp add: connection_end_def)
  have c1: "client_inv (n_client ?n1)"
    using i(3) by (auto simp: client_inv_def session_inv_close Shared_close_fields)
  have imp1: "implements dev ?n1 ?x1" by (rule sim_closed [OF imp e]) (use c1 in simp_all)
  obtain gs fs where g: "frames (n_sess n) = gs @ fs" "st = (Shared_close (WriteFailed e) (n_sess n))\<lparr>frames := fs,
      written := written (n_sess n) @ take k (concat gs), writer_open := False\<rparr>"
    using write_round_fails [OF w(2)] st(1) by metis
  have b: "batch = take k (concat gs)" using st(2) by (simp add: g(2))
  have "simulates eps dev ?x1 ?n"
  proof (rule quiet_sess [OF imp1])
    show "quiet (n_sess ?n1) (n_sess ?n)" unfolding quiet_def
      by (intro exI [of _ fs] exI [of _ "written st"] exI [of _ False] exI [of _ "unlinked (n_sess ?n1)"]) (simp add: g(2))
    show "client_inv (n_client ?n)"
      using client_inv_step [OF client_step.step_write [OF w(1), of "Inl (e, k)"] i(3)] by (simp add: st(1))
    assume "n_serving ?n1"
    then obtain cs cs' where c: "x_cmds x = cs @ cs'" "n_up n = concat (map (cmd_bytes dev) cs)"
      "frames (n_sess n) = map (cmd_bytes dev) cs'" using i(11) w(1) by (auto simp: up_ok_def)
    then obtain c1 c2 where c12: "cs' = c1 @ c2" "gs = map (cmd_bytes dev) c1" using g(1) by (auto simp: append_eq_map_conv)
    obtain d d' part where "c1 = d @ d'" "batch = concat (map (cmd_bytes dev) d) @ part"
      "part \<noteq> [] \<longrightarrow> d' \<noteq> [] \<and> strict_prefix part (cmd_bytes dev (hd d'))"
      using take_frames [of c1 k dev] b c12(2) by metis
    then show "up_ok dev ?n (?x1\<lparr>x_sess := n_sess ?n\<rparr>)"
      unfolding up_ok_def using c c12(1) by (intro exI [of _ "cs @ d"] exI [of _ "d' @ c2"] exI [of _ part]) (simp add: g(2))
  qed (use i(8) in simp_all)
  then obtain x' where "(exchange_step eps)\<^sup>*\<^sup>* ?x1 x'" "implements dev ?n x'" by (auto simp: simulates_def)
  moreover have "exchange_step eps x ?x1" by (rule exchange_step.close [OF e])
  ultimately show ?thesis unfolding simulates_def by (meson converse_rtranclp_into_rtranclp)
qed

section \<open>Every run\<close>

lemma sim_move:
  assumes "net_move eps dev n n'" "implements dev n x" "exchange_inv eps x"
  shows "simulates eps dev x n'"
  using assms(1)
proof (cases rule: net_move.cases)
  case (serve r sv)
  show ?thesis unfolding serve(1) by (rule sim_serve [OF assms(2,3) serve(2-4)])
qed (use assms(2,3) in \<open>simp_all add: sim_write sim_work sim_send sim_arrive sim_shut sim_read\<close>)

lemma sim_step:
  assumes st: "net_step eps dev n n'" and imp: "implements dev n x" and inv: "exchange_inv eps x"
  shows "simulates eps dev x n'"
  using st
proof (cases rule: net_step.cases)
  case (refuse req e st)
  then show ?thesis using simulates_same [OF imp] submit_Inl by fastforce
next
  case read_stop
  then have "closed (n_sess n) \<noteq> None" using implementsD(3) [OF imp] by (simp add: client_inv_def)
  then show ?thesis using read_stop(1)
    by (intro simulates_same sim_client [OF imp, where rd = RDone and eof = "cl_eof (n_client n)" and out = "sv_out (n_server n)"]) simp_all
next
  case (hangup e)
  have "down_ok n' x" if "down_ok n x"
    using that out_ok_simps(3) unfolding down_ok_def hangup(1) by fastforce
  then show ?thesis using hangup(1)
    by (intro simulates_same sim_client [OF imp, where rd = "cl_reader (n_client n)" and eof = "Some e" and out = "sv_out (n_server n)"])
      simp_all
next
  case (write_fail st e k batch)
  then show ?thesis using sim_write_fail [OF imp] by blast
next
  case (serve_lost bs rest e sv)
  then show ?thesis using sim_serve_lost [OF imp inv] by blast
qed (use imp inv in \<open>simp_all add: sim_issue sim_cancel sim_close sim_move sim_write_stop\<close>)

lemma implements_init: "implements (devid d) (network_init d) (exchange_init d)"
proof -
  have "cl_sess (client_init d) = Session_start d" "cl_reader (client_init d) = RHeader" "cl_in (client_init d) = []"
    "cl_eof (client_init d) = None" by (simp_all add: client_init_def)
  moreover have "s_devid (Session_start d) = devid d" by (simp add: Session_start_def)
  ultimately show ?thesis
    by (simp add: implements_def network_init_def exchange_init_def client_inv_init ServerLoop_new_def up_ok_def down_ok_def stream_ok_def)
qed

interpretation net: simulation "net_step eps dev" "exchange_step eps" "implements dev" "exchange_inv eps" for eps dev
proof unfold_locales
  show "exchange_inv eps x'" if "exchange_step eps x x'" "exchange_inv eps x" for x x'
    using that by (rule exchange_inv_step)
  show "\<exists>x'. (exchange_step eps)\<^sup>*\<^sup>* x x' \<and> implements dev n' x'"
    if "net_step eps dev n n'" "implements dev n x" "exchange_inv eps x" for n n' x
    using sim_step [OF that] by (simp add: simulates_def)
qed

lemma net_run_exchange:
  assumes "net_run eps ex n" "ex_devnum ex \<le> 0xffff"
  shows "\<exists>x. (exchange_step eps)\<^sup>*\<^sup>* (exchange_init (device_of ex)) x \<and> implements (Export_devid ex) n x \<and> exchange_inv eps x"
  by (rule net.reaches [OF assms(1) _ exchange_inv_init])
    (use implements_init [of "device_of ex"] Export_devid [OF assms(2)] in simp)

end
