(* ===== verification/Network_Properties.thy ===== *)
theory Network_Properties
  imports Network
begin

text \<open>
  What holds in every run of the client against the reference server: no protocol error on either
  side, replies that are the device's own results, agreement when nothing is on the way, and that the
  tasks come to rest with every transfer answered.
\<close>

section \<open>The tasks come to rest\<close>

primrec reader_rank :: "reader \<Rightarrow> nat" where
  "reader_rank RHeader = 1"
| "reader_rank (RPayload h q d len) = 2"
| "reader_rank RDone = 0"

lemma close_frames [simp]: "frames (Shared_close why st) = frames st"
  by (cases "closed st") (simp_all add: Shared_close_open)

lemma reader_step_rank:
  assumes "reader_step c = Some c'"
  shows "frames (cl_sess c') = frames (cl_sess c)"
    "length (cl_in c') < length (cl_in c) \<or> length (cl_in c') = length (cl_in c) \<and> reader_rank (cl_reader c') < reader_rank (cl_reader c)"
proof -
  have s: "length (avail (cl_stream c)) = length (cl_in c)" by (simp add: cl_stream_def)
  show "frames (cl_sess c') = frames (cl_sess c)"
    using assms by (auto simp: reader_step_def reader_fails_def Let_def split: reader.splits sum.splits prod.splits Reply.splits option.splits if_splits)
  show "length (cl_in c') < length (cl_in c) \<or> length (cl_in c') = length (cl_in c) \<and> reader_rank (cl_reader c') < reader_rank (cl_reader c)"
  proof (cases "cl_reader c")
    case RHeader
    show ?thesis
    proof (cases "read_reply_header (cl_stream c)")
      case (Inl e)
      then show ?thesis using assms RHeader by (auto simp: reader_step_def reader_fails_def split: if_splits)
    next
      case (Inr hr)
      then obtain h r where h: "read_reply_header (cl_stream c) = Inr (h, r)" by (cases hr) auto
      have "length (avail r) < length (cl_in c)" using read_reply_header_consumes [OF h] s by simp
      then show ?thesis using assms RHeader h
        by (auto simp: reader_step_def reader_fails_def Let_def split: Reply.splits option.splits)
    qed
  next
    case (RPayload h q d len)
    then show ?thesis using assms s
      by (auto simp: reader_step_def reader_fails_def dest!: read_submit_payload_consumes split: sum.splits prod.splits if_splits)
  qed (use assms in \<open>simp add: reader_step_def\<close>)
qed

definition net_rank :: "network \<Rightarrow> nat \<times> nat \<times> nat \<times> nat \<times> nat \<times> nat \<times> nat" where
  "net_rank n = (length (frames (n_sess n)), length (n_up n), length (sv_jobs (n_server n)), length (sv_out (n_server n)),
     length (n_down n), length (cl_in (n_client n)), reader_rank (cl_reader (n_client n)))"

abbreviation rank_order :: "((nat \<times> nat \<times> nat \<times> nat \<times> nat \<times> nat \<times> nat) \<times> (nat \<times> nat \<times> nat \<times> nat \<times> nat \<times> nat \<times> nat)) set" where
  "rank_order \<equiv> less_than <*lex*> less_than <*lex*> less_than <*lex*> less_than <*lex*> less_than <*lex*> less_than <*lex*> less_than"

lemma net_move_rank:
  assumes "net_move eps dev n n'"
  shows "(net_rank n', net_rank n) \<in> rank_order"
  using assms
proof (cases rule: net_move.cases)
  case (write_out st batch)
  obtain gs fs where "frames (n_sess n) = gs @ fs" "gs \<noteq> []"
      "write_round (Inr ()) (n_sess n) = (n_sess n)\<lparr>frames := fs, written := written (n_sess n) @ concat gs\<rparr>"
    by (rule write_round_frames [OF write_out(3)]) (rule that)
  then show ?thesis using write_out(1,4) by (simp add: net_rank_def)
next
  case (serve r sv)
  then show ?thesis using serve_urb_consumes [of eps dev "\<lparr>avail = n_up n, ending = UnexpectedEof\<rparr>" "n_server n"]
    by (cases r) (auto simp: net_rank_def)
next
  case (work a u b js choice sv)
  then show ?thesis using endpoint_worker_jobs by (auto simp: net_rank_def)
next
  case (send frame sv)
  then show ?thesis by (auto simp: net_rank_def server_write_def split: list.splits option.splits)
next
  case (shut out)
  then show ?thesis by (simp add: net_rank_def)
next
  case (arrive seg rest)
  then show ?thesis by (simp add: net_rank_def)
next
  case (read c)
  then show ?thesis using reader_step_rank [OF read(2)] by (auto simp: net_rank_def)
qed

lemma net_move_wf: "wf {(n', n). net_move eps dev n n'}"
proof (rule wf_subset)
  show "wf (inv_image rank_order net_rank)" by (intro wf_inv_image wf_lex_prod wf_less_than)
  show "{(n', n). net_move eps dev n n'} \<subseteq> inv_image rank_order net_rank"
    using net_move_rank by (auto simp: inv_image_def)
qed

lemma rep_bytes_nonempty [simp]: "rep_bytes r \<noteq> []"
  by (auto simp: rep_bytes_def ret_submit_layout ret_unlink_def u32_be_def split: rep.split)

text \<open>A worker with a job can go on: the cancel is seen, or the device completes the URB.\<close>

lemma work_possible:
  assumes imp: "implements dev n x" and inv: "exchange_inv eps x" and n: "n_serving n" and j: "sv_jobs (n_server n) \<noteq> []"
  shows "\<exists>n'. net_move eps dev n n'"
proof -
  obtain u b js where jobs: "sv_jobs (n_server n) = (u, b) # js" using j by (cases "sv_jobs (n_server n)") auto
  then have t: "take_job (urb_address u) (sv_jobs (n_server n)) = Some ((u, b), js)" by simp
  have "issued_urb x u" using inv jobs implementsD(9) [OF imp n] by (auto simp: exchange_inv_def urbs_ok_def)
  then obtain ch q req where r: "(ch, q, req) \<in> set (x_issued x)" "u = urb_for x q req" by (auto simp: issued_urb_def)
  then have "wf_request eps req" using inv by (fastforce simp: exchange_inv_def ledger_ok_def)
  then have "length (u_iso u) \<le> 1024" using r(2) by (simp add: wf_request_def requested_urb_def)
  then have "completes u (Some (Complete (Completion_written 0)))"
    by (simp add: completes_def job_outcome_def wf_completion_def Completion_written_def Completion_ok_def)
  moreover have "\<exists>sv. endpoint_worker (urb_address u) (Some (Complete (Completion_written 0))) (n_server n) = Some sv"
    using t by (simp add: endpoint_worker_def)
  ultimately show ?thesis using net_move.work [OF n t] by blast
qed

lemma reader_at_end: "\<lbrakk>cl_eof c \<noteq> None; cl_reader c \<noteq> RDone\<rbrakk> \<Longrightarrow> reader_step c \<noteq> None"
  by (auto simp: reader_step_def blocked_def Let_def split: reader.splits sum.splits prod.splits Reply.splits option.splits)

lemma read_possible:
  assumes s: "stream_ok (cl_reader c) (cl_in c) rs"
    and ok: "\<And>u k. RSub u k \<in> set rs \<Longrightarrow> wf_completion u k \<and> lookup_request (u_seqnum u) (cl_sess c) = Some (urb_direction u, u_length u)"
    and stop: "reader_step c = None"
  shows "rs = []"
proof (cases "cl_reader c")
  case RHeader
  show ?thesis
  proof (cases rs)
    case (Cons r rs')
    have bs: "cl_stream c = \<lparr>avail = rep_bytes r @ concat (map rep_bytes rs'), ending = ending (cl_stream c)\<rparr>"
      using s RHeader by (simp add: stream_ok_def Cons cl_stream_def)
    show ?thesis
    proof (cases r)
      case (RSub u k)
      then have "read_reply_header (cl_stream c) = Inr (ret_header u k, \<lparr>avail = drop 48 (ret_submit u k) @ concat (map rep_bytes rs'), ending = ending (cl_stream c)\<rparr>)"
        using read_header_rep [of u k] ok [of u k] by (subst bs) (simp add: Cons rep_bytes_def)
      then show ?thesis using stop RHeader ok [of u k] by (simp add: reader_step_def Cons RSub ret_header_def)
    next
      case (RUnl q st)
      then have "read_reply_header (cl_stream c) = Inr (ReplyUnlink \<lparr>ru_seqnum = q, ru_status = st\<rparr>, \<lparr>avail = concat (map rep_bytes rs'), ending = ending (cl_stream c)\<rparr>)"
        by (subst bs) (simp add: rep_bytes_def read_reply_header_ret_unlink)
      then show ?thesis using stop RHeader by (simp add: reader_step_def)
    qed
  qed
next
  case (RPayload h q d len)
  then obtain u k rs' where p: "rs = RSub u k # rs'" "h = ret_header u k" "d = urb_direction u" "len = u_length u"
    "cl_in c = drop 48 (ret_submit u k) @ concat (map rep_bytes rs')" using s by (auto simp: stream_ok_def)
  have "wf_completion u k" using ok [of u k] p(1) by simp
  from read_payload_rep [OF this, of "concat (map rep_bytes rs')" "ending (cl_stream c)"]
  have "read_submit_payload h (d = In) len (cl_stream c) = Inr (ret_of u k, \<lparr>avail = concat (map rep_bytes rs'), ending = ending (cl_stream c)\<rparr>)"
    using p(2-5) by (simp add: cl_stream_def)
  then show ?thesis using stop RPayload by (simp add: reader_step_def)
qed (use s in \<open>simp add: stream_ok_def\<close>)

lemma nothing_on_the_way:
  assumes imp: "implements dev n x" and inv: "exchange_inv eps x" and op: "closed (n_sess n) = None" and n: "n_serving n"
    and e: "frames (n_sess n) = []" "n_up n = []" "sv_out (n_server n) = []" "n_down n = []"
    and r: "\<And>rs. stream_ok (cl_reader (n_client n)) (cl_in (n_client n)) rs \<Longrightarrow> set rs \<subseteq> set (x_reps x) \<Longrightarrow> rs = []"
  shows "unlinks (n_sess n) = []" "keys (submits (n_sess n)) = live (sv_jobs (n_server n))"
proof -
  note i = implementsD [OF imp]
  have w: "writer_open (n_sess n)" using i(3) op by (auto simp: client_inv_def)
  have c: "x_cmds x = []" using i(11) [OF n] e(1,2) w by (auto simp: up_ok_def)
  have reps: "x_reps x = []" using i(12) [OF op] n e(3,4) r by (auto simp: down_ok_def)
  have sm: "submits_ok x" and un: "unlinks_ok x" using inv op i(1) by (simp_all add: exchange_inv_def)
  have "cancelled_by x = {}" by (simp add: cancelled_by_def reps)
  then show "keys (submits (n_sess n)) = live (sv_jobs (n_server n))"
    using sm i(1) i(9) [OF n] by (simp add: submits_ok_def c reps)
  have "(q, t) \<notin> set (unlinks (x_sess x))" for q t using unlinks_okD(4) [OF un, of q t] c reps by auto
  then show "unlinks (n_sess n) = []" unfolding i(1) by (metis list.set_intros(1) neq_Nil_conv surj_pair)
qed

text \<open>While the session is open, a task that is not finished can go on.\<close>

lemma resting:
  assumes imp: "implements dev n x" and inv: "exchange_inv eps x" and op: "closed (n_sess n) = None"
    and stop: "\<And>n'. \<not> net_move eps dev n n'"
  shows "n_serving n" "frames (n_sess n) = []" "n_up n = []" "sv_jobs (n_server n) = []" "sv_out (n_server n) = []" "n_down n = []"
    "reader_step (n_client n) = None"
proof -
  note i = implementsD [OF imp]
  have w: "writer_open (n_sess n)" and rd: "cl_reader (n_client n) \<noteq> RDone" using i(3) op by (auto simp: client_inv_def)
  show stuck: "reader_step (n_client n) = None" using net_move.read stop by (meson not_Some_eq)
  then have eof: "cl_eof (n_client n) = None" using reader_at_end rd by blast
  show "frames (n_sess n) = []"
  proof (rule ccontr)
    assume f: "frames (n_sess n) \<noteq> []"
    obtain gs where "written (write_round (Inr ()) (n_sess n)) = written (n_sess n) @ gs"
      by (rule write_round_frames [OF f]) (rule that, simp)
    then show False using net_move.write_out [OF w f refl] stop by blast
  qed
  show down: "n_down n = []"
  proof (rule ccontr)
    assume "n_down n \<noteq> []"
    then show False using net_move.arrive [of n "n_down n" "[]"] eof stop by auto
  qed
  show out: "sv_out (n_server n) = []"
  proof (rule ccontr)
    assume "sv_out (n_server n) \<noteq> []"
    then obtain f out where o: "sv_out (n_server n) = f # out" by (auto simp: neq_Nil_conv)
    show False
    proof (cases f)
      case None
      then show ?thesis using net_move.shut [of n out] o down eof stop by blast
    next
      case (Some frame)
      then have "server_write (n_server n) = Some (frame, (n_server n)\<lparr>sv_out := out\<rparr>)" by (simp add: server_write_def o)
      then show ?thesis using net_move.send stop by blast
    qed
  qed
  show n: "n_serving n" using i(12) [OF op] out eof by (auto simp: down_ok_def out_ok_def split: if_splits)
  show "n_up n = []"
  proof (rule ccontr)
    assume "n_up n \<noteq> []"
    then show False using net_move.serve [OF n] stop by (metis surj_pair)
  qed
  show "sv_jobs (n_server n) = []" using work_possible [OF imp inv n] stop by blast
qed

lemma at_rest:
  assumes imp: "implements dev n x" and inv: "exchange_inv eps x" and stop: "\<And>n'. \<not> net_move eps dev n n'"
  shows "submits (n_sess n) = []" "unlinks (n_sess n) = []"
proof -
  note i = implementsD [OF imp]
  have "submits (n_sess n) = [] \<and> unlinks (n_sess n) = []"
  proof (cases "closed (n_sess n)")
    case None
    note r = resting [OF imp inv None stop]
    have ok: "wf_completion u k \<and> lookup_request (u_seqnum u) (n_sess n) = Some (urb_direction u, u_length u)"
      if "RSub u k \<in> set (x_reps x)" for u k
      using reply_pending [OF inv _ that] None i(1) by simp
    have "rs = []" if "stream_ok (cl_reader (n_client n)) (cl_in (n_client n)) rs" "set rs \<subseteq> set (x_reps x)" for rs
      by (rule read_possible [OF that(1) _ r(7)]) (use ok that(2) in blast)
    note rest = nothing_on_the_way [OF imp inv None r(1-3,5,6) this]
    then show ?thesis using r(4) by simp
  next
    case (Some why)
    then show ?thesis using i(3) by (simp add: client_inv_def session_inv_def)
  qed
  then show "submits (n_sess n) = []" "unlinks (n_sess n) = []" by simp_all
qed

lemma move_issued: "net_move eps dev n n' \<Longrightarrow> n_issued n' = n_issued n"
  by (erule net_move.cases) simp_all

lemma net_run_moves:
  assumes run: "net_run eps ex n" and moves: "(net_move eps (Export_devid ex))\<^sup>*\<^sup>* n n'"
  shows "net_run eps ex n' \<and> n_issued n' = n_issued n"
  using moves
proof (induction rule: rtranclp_induct)
  case (step n1 n2)
  have "net_run eps ex n2" using step.IH step.hyps(2) by (meson net_step.move rtranclp.rtrancl_into_rtrancl)
  then show ?case using step move_issued by metis
qed (use run in simp)

lemma net_run_chans:
  assumes "net_run eps ex n" "ex_devnum ex \<le> 0xffff"
  shows "map fst (n_issued n) = [0..<next_chan (n_sess n)]" "session_inv (n_sess n)"
proof -
  obtain x where x: "implements (Export_devid ex) n x" "exchange_inv eps x" using net_run_exchange [OF assms] by blast
  show "map fst (n_issued n) = [0..<next_chan (n_sess n)]"
    using x(2) implementsD(1,4) [OF x(1)] by (simp add: exchange_inv_def ledger_ok_def)
  show "session_inv (n_sess n)" using implementsD(3) [OF x(1)] by (simp add: client_inv_def)
qed

section \<open>Where replies come from\<close>

text \<open>
  What a caller may be answered: what the device completed for the URB of its request, the cancel of a request
  that the server took out and the device never completed, or the end of the connection.
\<close>

definition device_result :: "u32 \<Rightarrow> network \<Rightarrow> u32 \<Rightarrow> SubmitRequest \<Rightarrow> TransferResult \<Rightarrow> bool" where
  "device_result dev n q req r =
     (case r of
        Inr ret \<Rightarrow> \<exists>k. (requested_urb q dev req, k) \<in> set (n_done n) \<and> ret = ret_of (requested_urb q dev req) k
      | Inl (Unlinked s) \<Rightarrow> s = - ECONNRESET \<and> (\<exists>q'. EvUnlink q' q True \<in> set (sv_log (n_server n))) \<and>
          q \<notin> (\<lambda>d. u_seqnum (fst d)) ` set (n_done n)
      | Inl (Disconnected why) \<Rightarrow> connection_end why
      | Inl (InvalidRequest e) \<Rightarrow> False)"

lemma reply_source:
  assumes "net_run eps ex n" "ex_devnum ex \<le> 0xffff" "(ch, r) \<in> set (replies (n_sess n))"
  shows "\<exists>q req. (ch, q, req) \<in> set (n_issued n) \<and> device_result (Export_devid ex) n q req r"
proof -
  obtain x where x: "implements (Export_devid ex) n x" "exchange_inv eps x" using net_run_exchange [OF assms(1,2)] by blast
  note i = implementsD [OF x(1)]
  have "answer_ok x ch r" using x(2) assms(3) i(1) by (auto simp: exchange_inv_def)
  moreover have "found_seqs x \<inter> done_seqs x = {}" using x(2) by (auto simp: exchange_inv_def done_ok_def)
  moreover have "found_seqs x \<subseteq> {t. \<exists>q. EvUnlink q t True \<in> set (sv_log (n_server n))}"
    by (auto simp: found_seqs_def i(6))
  ultimately show ?thesis unfolding answer_ok_def device_result_def i(1,2,4,5)
    by (elim exE, intro exI) (auto split: sum.splits TransferError.splits)
qed

section \<open>The properties\<close>

text \<open>C7. Client and server connected byte by byte: whatever requests that pass the server's checks (\<open>wf_request\<close>) the
  callers submit, whatever they cancel, however the tasks are scheduled, the batches cut and the segments arrive, and wherever the connection breaks, the
  server never reports a violation, and the client never closes the session over what it
  reads: only the caller and the connection end it.\<close>

theorem no_protocol_error:
  assumes "net_run eps ex n" "ex_devnum ex \<le> 0xffff"
  shows "sv_violations (n_server n) = [] \<and> (\<forall>why. closed (n_sess n) = Some why \<longrightarrow> connection_end why)"
proof -
  obtain x where "implements (Export_devid ex) n x" using net_run_exchange [OF assms] by blast
  note i = implementsD [OF this]
  show ?thesis using i(7,8) by simp
qed

text \<open>C8. Every reply that a caller gets is about its own request: a result is what the device completed for
  the URB of that request, with the device's status, data and packets; a cancelled transfer is one
  the server found and took out, with the status of a cancel, and the device never completed it; and
  a transfer is disconnected only by the caller's close or the end of the connection.\<close>

theorem replies_are_the_devices:
  assumes "net_run eps ex n" "ex_devnum ex \<le> 0xffff" "(ch, r) \<in> set (replies (n_sess n))"
  shows "\<exists>q req. (ch, q, req) \<in> set (n_issued n) \<and>
    (case r of
       Inr ret \<Rightarrow> \<exists>k. (requested_urb q (Export_devid ex) req, k) \<in> set (n_done n) \<and>
                        ret = ret_of (requested_urb q (Export_devid ex) req) k
     | Inl (Unlinked s) \<Rightarrow> s = - ECONNRESET \<and> (\<exists>q'. EvUnlink q' q True \<in> set (sv_log (n_server n))) \<and>
                        q \<notin> (\<lambda>d. u_seqnum (fst d)) ` set (n_done n)
     | Inl (Disconnected why) \<Rightarrow> connection_end why
     | Inl (InvalidRequest e) \<Rightarrow> False)"
  using reply_source [OF assms] unfolding device_result_def .

text \<open>C10. When the connection stands and nothing is on the way - no frame unwritten, no byte in either direction, no reply unsent or
  half read - client and server agree: the transfers the client waits for are exactly those the
  server has pending, and every cancel has been answered.\<close>

theorem agreement_at_rest:
  assumes "net_run eps ex n" "ex_devnum ex \<le> 0xffff" "closed (n_sess n) = None" "n_serving n"
    and "frames (n_sess n) = []" "n_up n = []" "sv_out (n_server n) = []" "n_down n = []"
    and "cl_in (n_client n) = []" "cl_reader (n_client n) = RHeader"
  shows "keys (submits (n_sess n)) = set (sv_pending (n_server n)) \<and> unlinks (n_sess n) = []"
proof -
  obtain x where x: "implements (Export_devid ex) n x" "exchange_inv eps x" using net_run_exchange [OF assms(1,2)] by blast
  have "rs = []" if "stream_ok (cl_reader (n_client n)) (cl_in (n_client n)) rs" for rs
    using that assms(9,10) by (simp add: stream_ok_def)
  from nothing_on_the_way [OF x assms(3-8) this] show ?thesis using implementsD(10) [OF x(1) assms(4)] by simp
qed

text \<open>C9. Left to themselves the tasks come to rest, in whatever order they run: no infinite sequence of writes,
  reads, completions and segments exists, and where none is possible any more every transfer that
  was accepted has been answered and no cancel is outstanding, also if the connection is lost.
  Completions by the device are among these moves: rest includes that the device has completed every URB
  it was given, and nothing is said of a device that waits for ever.\<close>

theorem every_transfer_answered:
  assumes "net_run eps ex n" "ex_devnum ex \<le> 0xffff"
  shows "wf {(n'', n'). net_move eps (Export_devid ex) n' n''} \<and>
    (\<forall>n'. (net_move eps (Export_devid ex))\<^sup>*\<^sup>* n n' \<and> (\<nexists>n''. net_move eps (Export_devid ex) n' n'') \<longrightarrow>
       pending (n_sess n') = 0 \<and> unlinks (n_sess n') = [] \<and>
       n_issued n' = n_issued n \<and> keys (replies (n_sess n')) = fst ` set (n_issued n))"
proof -
  have "pending (n_sess n') = 0 \<and> unlinks (n_sess n') = [] \<and>
       n_issued n' = n_issued n \<and> keys (replies (n_sess n')) = fst ` set (n_issued n)"
    if m: "(net_move eps (Export_devid ex))\<^sup>*\<^sup>* n n'" "\<nexists>n''. net_move eps (Export_devid ex) n' n''" for n'
  proof -
    have n': "net_run eps ex n'" "n_issued n' = n_issued n" using net_run_moves [OF assms(1) m(1)] by simp_all
    obtain x where x: "implements (Export_devid ex) n' x" "exchange_inv eps x" using net_run_exchange [OF n'(1) assms(2)] by blast
    have rest: "submits (n_sess n') = []" "unlinks (n_sess n') = []" using at_rest [OF x] m(2) by blast+
    have "set (map fst (n_issued n')) = {..<next_chan (n_sess n')}"
      using net_run_chans(1) [OF n'(1) assms(2)] by (simp add: atLeast0LessThan)
    then have "keys (replies (n_sess n')) = fst ` set (n_issued n)"
      using session_inv_chans(2) [OF net_run_chans(2) [OF n'(1) assms(2)]] rest(1) n'(2) by simp
    then show ?thesis using n' rest by (simp add: pending_def)
  qed
  then show ?thesis using net_move_wf by blast
qed

text \<open>C11. The connection refines the exchange of messages: every run of it, with frames, batches, partial
  reads and tasks, ends where a run of the exchange ends that has the same session, the same history
  and, while the server serves, the same jobs.\<close>

theorem network_refines_exchange:
  assumes "net_run eps ex n" "ex_devnum ex \<le> 0xffff"
  shows "\<exists>x. (exchange_step eps)\<^sup>*\<^sup>* (exchange_init (device_of ex)) x \<and> x_sess x = n_sess n \<and>
    x_issued x = n_issued n \<and> x_done x = n_done n \<and> (n_serving n \<longrightarrow> x_jobs x = sv_jobs (n_server n))"
  using net_run_exchange [OF assms] implementsD(1,4,5,9) by blast

section \<open>A run\<close>

definition sample_eps :: "(u8 \<times> u8) list" where
  "sample_eps = [(0x81, 2)]"

definition sample_net :: network where
  "sample_net = network_init (device_of sample_export)"

lemma sample_request_wf: "wf_request sample_eps sample_request"
  by (simp add: sample_eps_def wf_request_def endpoint_violation_def urb_address_def requested_urb_def is_in_def
      sample_request_def SubmitRequest_new_def MAX_TRANSFER_LENGTH_def)

lemma sample_issue:
  "\<exists>st. submit sample_request (n_sess sample_net) = Some (Inr (1, 0), st) \<and> closed st = None \<and>
     net_run sample_eps sample_export ((set_sess st sample_net)\<lparr>n_issued := [(0, 1, sample_request)]\<rparr>)"
proof -
  have s: "n_sess sample_net = Session_start (device_of sample_export)" "n_issued sample_net = []"
    by (simp_all add: sample_net_def network_init_def client_init_def)
  have "next_seqnum (n_sess sample_net) = Some (1, (n_sess sample_net)\<lparr>next_seq := 1\<rparr>)"
    by (subst next_seqnum.simps) (simp add: s Session_start_def Let_def amap_simps)
  then obtain st where st: "submit sample_request (n_sess sample_net) = Some (Inr (1, 0), st)"
    by (simp add: s submit_def sample_request_def SubmitRequest_new_def Session_start_def Let_def)
  have "net_step sample_eps (Export_devid sample_export) sample_net
      ((set_sess st sample_net)\<lparr>n_issued := n_issued sample_net @ [(0, 1, sample_request)]\<rparr>)"
    by (rule net_step.issue [OF st sample_request_wf]) (simp add: s Session_start_def)
  then have "net_run sample_eps sample_export ((set_sess st sample_net)\<lparr>n_issued := [(0, 1, sample_request)]\<rparr>)"
    by (simp add: s(2) r_into_rtranclp flip: sample_net_def)
  then show ?thesis using st submit_Inr(1) [OF st] closing_fields [OF st] by auto
qed

definition sample_sess :: Shared where
  "sample_sess = snd (the (submit sample_request (n_sess sample_net)))"

definition sample_run :: network where
  "sample_run = (set_sess sample_sess sample_net)\<lparr>n_issued := [(0, 1, sample_request)]\<rparr>"

lemma sample_run_props:
  "net_run sample_eps sample_export sample_run" "closed (n_sess sample_run) = None" "ex_devnum sample_export \<le> 0xffff"
  "n_issued sample_run = [(0, 1, sample_request)]"
  "submit sample_request (n_sess sample_net) = Some (Inr (1, 0), n_sess sample_run)"
  using sample_issue by (auto simp: sample_run_def sample_sess_def sample_export_def)

lemma sample_closed_run: "net_run sample_eps sample_export (set_sess (Session_close (n_sess sample_run)) sample_run)"
  using sample_run_props(1) net_step.close by (meson rtranclp.rtrancl_into_rtrancl)

theorem no_protocol_error_witness:
  "\<exists>n. net_run sample_eps sample_export n \<and> sv_violations (n_server n) = [] \<and>
     closed (n_sess n) = Some ClosedByClient \<and> connection_end ClosedByClient"
proof -
  have "closed (Session_close (n_sess sample_run)) = Some ClosedByClient" using sample_run_props(2) by (simp add: Session_close_def)
  then show ?thesis using sample_closed_run no_protocol_error [OF sample_closed_run sample_run_props(3)]
    by (intro exI [of _ "set_sess (Session_close (n_sess sample_run)) sample_run"]) simp
qed

theorem every_transfer_answered_witness:
  "\<exists>n'. (net_move sample_eps (Export_devid sample_export))\<^sup>*\<^sup>* sample_run n' \<and> keys (replies (n_sess n')) = {0}"
proof -
  let ?m = "net_move sample_eps (Export_devid sample_export)"
  note a = every_transfer_answered [OF sample_run_props(1,3)]
  obtain n' where n': "n' \<in> {n'. ?m\<^sup>*\<^sup>* sample_run n'}" "\<And>n''. (n'', n') \<in> {(n'', n'). ?m n' n''} \<Longrightarrow> n'' \<notin> {n'. ?m\<^sup>*\<^sup>* sample_run n'}"
    using a wfE_min [of "{(n'', n'). ?m n' n''}" sample_run "{n'. ?m\<^sup>*\<^sup>* sample_run n'}"] by blast
  then have "\<nexists>n''. ?m n' n''" by (auto intro: rtranclp.rtrancl_into_rtrancl)
  then show ?thesis using a n'(1) sample_run_props(4) by auto
qed

theorem network_refines_exchange_witness:
  "\<exists>x. (exchange_step sample_eps)\<^sup>*\<^sup>* (exchange_init (device_of sample_export)) x \<and> x_issued x = [(0, 1, sample_request)]"
  using network_refines_exchange [OF sample_run_props(1,3)] sample_run_props(4) by auto

theorem agreement_at_rest_witness:
  "keys (submits (n_sess sample_net)) = set (sv_pending (n_server sample_net)) \<and> unlinks (n_sess sample_net) = []"
  by (rule agreement_at_rest [of sample_eps sample_export])
    (simp_all add: sample_net_def network_init_def client_init_def ServerLoop_new_def sample_export_def)

theorem replies_are_the_devices_witness:
  "\<exists>q req. (0, q, req) \<in> set (n_issued (set_sess (Session_close (n_sess sample_run)) sample_run))"
proof -
  let ?n = "set_sess (Session_close (n_sess sample_run)) sample_run"
  have "(0, Inl (Disconnected ClosedByClient)) \<in> set (replies (n_sess ?n))"
    using submit_Inr [OF sample_run_props(5)] sample_run_props(2) by (simp add: Session_close_def Shared_close_open)
  from replies_are_the_devices [OF sample_closed_run sample_run_props(3) this] show ?thesis by blast
qed

end
