(* ===== verification/End_To_End.thy ===== *)
theory End_To_End
  imports Delivery Engine_Properties Network_Properties
begin

text \<open>
  The engine, the session, the connection and the reference server together: what the host is told on
  the rings is what the device did, and when everything has come to rest nothing is left in flight.
\<close>

section \<open>The system\<close>

text \<open>What a caller of the session may do, as steps of the connection.\<close>

inductive net_call :: "(u8 \<times> u8) list \<Rightarrow> network \<Rightarrow> network \<Rightarrow> bool" for eps where
  issue: "\<lbrakk>submit req (n_sess n) = Some (Inr (q, ch), st); wf_request eps req; next_seq (n_sess n) \<noteq> -1\<rbrakk> \<Longrightarrow>
    net_call eps n ((set_sess st n)\<lparr>n_issued := n_issued n @ [(ch, q, req)]\<rparr>)"
| refuse: "submit req (n_sess n) = Some (Inl e, st) \<Longrightarrow> net_call eps n (set_sess st n)"
| cancel: "\<lbrakk>unlink t (n_sess n) = Some st; next_seq (n_sess n) \<noteq> -1\<rbrakk> \<Longrightarrow> net_call eps n (set_sess st n)"

text \<open>
  An operation of the engine, whose calls are those on the connection, or a step of the connection: its
  tasks and faults, and calls from elsewhere in the program (a reset of the device, closing).
\<close>

type_synonym 'r system = "('r \<times> completion list) Engine \<times> network"

inductive system_step :: "(u8 \<times> u8) list \<Rightarrow> u32 \<Rightarrow> 'r Ring \<Rightarrow> 'r system \<Rightarrow> 'r system \<Rightarrow> bool" for eps dev ring where
  engine: "\<lbrakk>engine_op ring en en'; (net_call eps)\<^sup>*\<^sup>* n n'; n_sess n' = en_session en'\<rbrakk> \<Longrightarrow>
    system_step eps dev ring (en, n) (en', n')"
| network: "net_step eps dev n n' \<Longrightarrow> system_step eps dev ring (en, n) (en\<lparr>en_session := n_sess n'\<rparr>, n')"

definition system_init :: "Export \<Rightarrow> 'r system" where
  "system_init ex = (Engine_new (n_sess (network_init (device_of ex))) (device_of ex), network_init (device_of ex))"

abbreviation system_run :: "(u8 \<times> u8) list \<Rightarrow> Export \<Rightarrow> 'r Ring \<Rightarrow> 'r system \<Rightarrow> bool" where
  "system_run eps ex ring s \<equiv> (system_step eps (Export_devid ex) ring)\<^sup>*\<^sup>* (system_init ex) s"

section \<open>The connection as the engine sees it\<close>

lemma net_call_step: "net_call eps n n' \<Longrightarrow> net_step eps dev n n'"
  by (induction rule: net_call.induct) (auto intro: net_step.intros)

lemma net_calls_run:
  assumes "net_run eps ex n" "(net_call eps)\<^sup>*\<^sup>* n n'"
  shows "net_run eps ex n'"
  using assms(2,1) by (induction rule: rtranclp_induct) (auto intro: net_call_step rtranclp.rtrancl_into_rtrancl)

text \<open>A request and the one that was accepted ask for the same URB.\<close>

definition same_request :: "SubmitRequest \<Rightarrow> SubmitRequest \<Rightarrow> bool" where
  "same_request req req' \<longleftrightarrow> requested_urb 0 0 req = requested_urb 0 0 req'"


lemma same_request_cmd: "cmd_of q dev req = cmd_of q dev req' \<Longrightarrow> same_request req req'"
  using urb_of_cmd_of [of q dev req] urb_of_cmd_of [of q dev req'] by (simp add: same_request_def requested_urb_def)


definition ledger_of :: "network \<Rightarrow> ledger" where
  "ledger_of n ch q req \<longleftrightarrow> (\<exists>req'. (ch, q, req') \<in> set (n_issued n) \<and> same_request req req')"

text \<open>Every frame that is queued is a cancel or carries an accepted request.\<close>

definition frames_issued :: "network \<Rightarrow> bool" where
  "frames_issued n \<longleftrightarrow> (\<forall>f\<in>set (frames (n_sess n)). (\<exists>c. f = CmdUnlink_encode c []) \<or>
     (\<exists>ch q req. (ch, q, req) \<in> set (n_issued n) \<and> f = CmdSubmit_encode (cmd_of q (s_devid (n_sess n)) req) []))"

lemma fill_batch_subset: "fill_batch b fs = (b', fs') \<Longrightarrow> set fs' \<subseteq> set fs"
  by (induction b fs rule: fill_batch.induct) (auto split: if_splits)

lemma write_round_keeps: "set (frames (write_round out st)) \<subseteq> set (frames st)" "s_devid (write_round out st) = s_devid st"
  by (auto simp: write_round_def Let_def dest: fill_batch_subset split: list.splits prod.splits sum.splits)

lemma close_devid [simp]: "s_devid (Shared_close why st) = s_devid st"
  by (cases "closed st") (simp_all add: Shared_close_open)

lemma reader_step_devid: "reader_step c = Some c' \<Longrightarrow> s_devid (cl_sess c') = s_devid (cl_sess c)"
  by (auto simp: reader_step_def reader_fails_def resolve_submit_def resolve_unlink_def send_reply_def Let_def
      split: reader.splits sum.splits prod.splits Reply.splits option.splits if_splits)

lemma frames_issued_less:
  assumes "frames_issued n" "set (frames (n_sess n')) \<subseteq> set (frames (n_sess n))" "s_devid (n_sess n') = s_devid (n_sess n)"
    "n_issued n' = n_issued n"
  shows "frames_issued n'"
  using assms unfolding frames_issued_def by (auto simp: assms(3,4))

lemma frames_issued_step:
  assumes "net_step eps dev n n'" "frames_issued n"
  shows "frames_issued n'"
  using assms(1)
proof (cases rule: net_step.cases)
  case (issue req q ch st)
  have st: "s_devid st = s_devid (n_sess n)"
    "set (frames st) \<subseteq> insert (CmdSubmit_encode (cmd_of q (s_devid (n_sess n)) req) []) (set (frames (n_sess n)))"
    by (subst submit_Inr(5) [OF issue(2)], simp add: send_frame_def)+ auto
  show ?thesis unfolding frames_issued_def
  proof
    fix f
    assume "f \<in> set (frames (n_sess n'))"
    then have "f = CmdSubmit_encode (cmd_of q (s_devid (n_sess n)) req) [] \<or> f \<in> set (frames (n_sess n))"
      using st(2) issue(1) by auto
    then show "(\<exists>c. f = CmdUnlink_encode c []) \<or> (\<exists>ch q req. (ch, q, req) \<in> set (n_issued n') \<and>
        f = CmdSubmit_encode (cmd_of q (s_devid (n_sess n')) req) [])"
    proof
      assume "f \<in> set (frames (n_sess n))"
      then show ?thesis using assms(2) issue(1) st(1) unfolding frames_issued_def by fastforce
    qed (use issue(1) st(1) in auto)
  qed
next
  case (refuse req e st)
  then show ?thesis using submit_Inl [OF refuse(2)] assms(2) by (simp add: frames_issued_def)
next
  case (cancel t st)
  from cancel(2) have "frames_issued (set_sess st n)"
    using assms(2) by (elim unlink_cases) (auto simp: frames_issued_def send_frame_def)
  then show ?thesis using cancel(1) by simp
next
  case move
  then show ?thesis
  proof (cases rule: net_move.cases)
    case (write_out st batch)
    have "n_sess n' = write_round (Inr ()) (n_sess n)" "n_issued n' = n_issued n" using write_out(1,4) by simp_all
    then show ?thesis by (intro frames_issued_less [OF assms(2)]) (simp_all add: write_round_keeps)
  next
    case (read c)
    have "n_sess n' = cl_sess c" "n_issued n' = n_issued n" using read(1) by simp_all
    then show ?thesis using reader_step_rank(1) [OF read(2)] reader_step_devid [OF read(2)]
      by (intro frames_issued_less [OF assms(2)]) simp_all
  qed (rule frames_issued_less [OF assms(2)]; simp)+
next
  case (write_fail st e k batch)
  have "n_sess n' = write_round (Inl (e, k)) (n_sess n)" "n_issued n' = n_issued n" using write_fail(1,4) by simp_all
  then show ?thesis by (intro frames_issued_less [OF assms(2)]) (simp_all add: write_round_keeps)
qed (rule frames_issued_less [OF assms(2)]; simp add: Session_close_def write_stop_def)+

lemma net_run_frames: "net_run eps ex n \<Longrightarrow> frames_issued n"
proof (induction rule: rtranclp_induct)
  case base
  show ?case by (simp add: frames_issued_def network_init_def client_init_def)
qed (rule frames_issued_step)

lemma net_step_issued: "net_step eps dev n n' \<Longrightarrow> set (n_issued n) \<subseteq> set (n_issued n')"
  by (induction rule: net_step.induct) (auto simp: move_issued)

lemma net_calls_issued: "(net_call eps)\<^sup>*\<^sup>* n n' \<Longrightarrow> set (n_issued n) \<subseteq> set (n_issued n')"
  by (induction rule: rtranclp_induct) (auto dest!: net_call_step net_step_issued)

lemma net_run_few:
  assumes "net_run eps ex n" "ex_devnum ex \<le> 0xffff"
  shows "next_chan (n_sess n) < 2 ^ 64"
proof -
  obtain x where x: "implements (Export_devid ex) n x" "exchange_inv eps x" using net_run_exchange [OF assms] by blast
  then have l: "map fst (n_issued n) = [0..<next_chan (n_sess n)]" "distinct (map (fst \<circ> snd) (n_issued n))"
    using implementsD(1,4) [OF x(1)] by (simp_all add: exchange_inv_def ledger_ok_def)
  have "next_chan (n_sess n) = length (map (fst \<circ> snd) (n_issued n))" using arg_cong [OF l(1), of length] by simp
  also have "\<dots> = card (set (map (fst \<circ> snd) (n_issued n)))" by (rule distinct_card [OF l(2), symmetric])
  also have "\<dots> \<le> card (UNIV :: u32 set)" by (rule card_mono) auto
  finally show ?thesis by (simp add: card_word)
qed

lemma unlink_not_submit: "CmdUnlink_encode c [] \<noteq> CmdSubmit_encode c' []"
  by (simp add: CmdUnlink_encode_def CmdSubmit_encode_def op_codes)

lemma sized_wf: "wf_request eps req \<Longrightarrow> sized_cmd (cmd_of q dev req)"
  by (auto simp: wf_request_def sized_cmd_def cmd_of_def)

lemma net_run_covers:
  assumes "net_run eps ex n" "ex_devnum ex \<le> 0xffff"
  shows "covers (ledger_of n) (n_sess n)"
proof -
  obtain x where x: "implements (Export_devid ex) n x" "exchange_inv eps x" using net_run_exchange [OF assms] by blast
  note i = implementsD(1,3,4) [OF x(1)]
  have ledger: "distinct (map (fst \<circ> snd) (n_issued n))" "\<forall>y\<in>set (n_issued n). wf_request eps (snd (snd y))"
    using x(2) i by (auto simp: exchange_inv_def ledger_ok_def)
  have w: "closed (n_sess n) = None \<longrightarrow> writer_open (n_sess n)" using i(2) by (auto simp: client_inv_def)
  have "ledger_of n (ps_reply p) q req"
    if p: "(q, p) \<in> set (submits (n_sess n))" and sz: "sized_cmd (cmd_of q (s_devid (n_sess n)) req)"
      and f: "CmdSubmit_encode (cmd_of q (s_devid (n_sess n)) req) [] \<in> set (frames (n_sess n))" for q p req
  proof -
    obtain ch q' req' where iss: "(ch, q', req') \<in> set (n_issued n)"
      and enc: "CmdSubmit_encode (cmd_of q (s_devid (n_sess n)) req) [] = CmdSubmit_encode (cmd_of q' (s_devid (n_sess n)) req') []"
      using net_run_frames [OF assms(1)] f unlink_not_submit unfolding frames_issued_def by metis
    have c: "cmd_of q (s_devid (n_sess n)) req = cmd_of q' (s_devid (n_sess n)) req'"
      using ledger(2) iss by (intro CmdSubmit_encode_inj [OF enc sz] sized_wf [of eps]) auto
    then have q: "q' = q" by (metis cmd_of_ids(2))
    have "closed (n_sess n) = None" using p i(2) by (auto simp: client_inv_def session_inv_def)
    then have "submits_ok x" using x(2) i(1) by (simp add: exchange_inv_def)
    then obtain req'' where "(ps_reply p, q, req'') \<in> set (n_issued n)"
      using p unfolding submits_ok_def i by fastforce
    moreover have "inj_on (fst \<circ> snd) (set (n_issued n))" using ledger(1) by (simp add: distinct_map)
    ultimately have "(ch, q', req') = (ps_reply p, q, req'')" using iss q by (metis comp_apply fst_conv inj_onD snd_conv)
    then show ?thesis using iss c q same_request_cmd unfolding ledger_of_def by blast
  qed
  then show ?thesis using w unfolding covers_def by blast
qed

lemma close_replies: "set (replies st) \<subseteq> set (replies (Shared_close why st))"
  by (cases "closed st") (auto simp: Shared_close_open)

lemma session_move_replies: "session_move st st' \<Longrightarrow> set (replies st) \<subseteq> set (replies st')"
proof (induction rule: session_move.induct)
  case (cancelled q st st')
  then show ?case using unlink_calls by (auto simp: calls_only_def)
next
  case (wrote st outcome)
  have c: "set (replies st) \<subseteq> set (replies (Shared_close why (st\<lparr>frames := fs, written := w\<rparr>)))" for why fs w
    using close_replies [of "st\<lparr>frames := fs, written := w\<rparr>" why] by simp
  show ?case using c by (auto simp: write_round_def Let_def split: list.splits prod.splits sum.splits)
qed (use close_replies in \<open>auto simp: resolve_submit_def resolve_unlink_def write_stop_def Let_def send_reply_def split: option.splits\<close>)

lemma session_move_closed: "session_move st st' \<Longrightarrow> closed st \<noteq> None \<longrightarrow> closed st' \<noteq> None"
  by (induction rule: session_move.induct)
    (auto simp: resolve_submit_def resolve_unlink_def write_stop_def write_round_def Let_def send_reply_def send_frame_def
      elim!: unlink_cases split: option.splits list.splits prod.splits sum.splits)

lemma reader_step_moves:
  assumes "reader_step c = Some c'"
  shows "cl_sess c' = cl_sess c \<or> session_move (cl_sess c) (cl_sess c')"
  using assms
  by (auto simp: reader_step_def reader_fails_def Let_def intro: session_move.intros
      split: reader.splits sum.splits prod.splits Reply.splits option.splits if_splits)

lemma net_step_session:
  assumes "net_step eps dev n n'"
  shows "session_goes (n_sess n) (n_sess n') \<and> session_grows (n_sess n) (n_sess n')"
proof -
  have moved: ?thesis if "n_sess n' = n_sess n \<or> session_move (n_sess n) (n_sess n')"
    using that
  proof
    assume "session_move (n_sess n) (n_sess n')"
    then show ?thesis
      using session_move_goes [of "n_sess n"] session_move_replies [of "n_sess n"] session_move_closed [of "n_sess n"]
      by (auto simp: session_goes_def session_grows_def)
  qed simp
  from assms show ?thesis
  proof (cases rule: net_step.cases)
    case (issue req q ch st)
    then show ?thesis using submit_goes [OF issue(2)] calls_grow [OF submit_calls [OF issue(2)]] by simp
  next
    case (refuse req e st)
    then show ?thesis using submit_goes [OF refuse(2)] calls_grow [OF submit_calls [OF refuse(2)]] by simp
  next
    case (move)
    from move have "n_sess n' = n_sess n \<or> session_move (n_sess n) (n_sess n')"
      by (cases rule: net_move.cases) (auto dest: reader_step_moves intro: session_move.wrote)
    then show ?thesis by (rule moved)
  qed (rule moved; auto simp: Session_close_def intro: session_move.intros)+
qed

section \<open>The invariant of the system\<close>

definition system_inv :: "(u8 \<times> u8) list \<Rightarrow> Export \<Rightarrow> 'r system \<Rightarrow> bool" where
  "system_inv eps ex s = (case s of (en, n) \<Rightarrow>
     en_session en = n_sess n \<and> net_run eps ex n \<and> engine_inv en \<and> true_to (ledger_of n) en)"

lemma true_to_mono:
  assumes "true_to L en" "\<And>ch q req. L ch q req \<Longrightarrow> L' ch q req" and "session_grows (en_session en) st"
  shows "true_to L' (en\<lparr>en_session := st\<rparr>)"
  unfolding true_to_def
proof (intro allI impI)
  fix key ep
  assume "get_ep (en\<lparr>en_session := st\<rparr>) key = Some ep"
  then have "ep_trace L (en_session en) (en_waiters en) ep" by (intro true_toD [OF assms(1)]) simp
  then have "ep_trace L' st (en_waiters en) ep" by (rule trace_mono [OF _ assms(3,2)])
  then show "ep_trace L' (en_session (en\<lparr>en_session := st\<rparr>)) (en_waiters (en\<lparr>en_session := st\<rparr>)) ep" by simp
qed

lemma ledger_mono: "set (n_issued n) \<subseteq> set (n_issued n') \<Longrightarrow> ledger_of n ch q req \<Longrightarrow> ledger_of n' ch q req"
  by (auto simp: ledger_of_def)

lemma system_inv_step:
  assumes "system_step eps (Export_devid ex) ring s s'" "system_inv eps ex s" "ex_devnum ex \<le> 0xffff"
  shows "system_inv eps ex s'"
  using assms(1)
proof (cases rule: system_step.cases)
  case (engine en en' n n')
  have i: "en_session en = n_sess n" "net_run eps ex n" "engine_inv en" "true_to (ledger_of n) en"
    using assms(2) engine(1) by (simp_all add: system_inv_def)
  note run = net_calls_run [OF i(2) engine(4)]
  have few: "few_transfers en'" using net_run_few [OF run assms(3)] engine(5) by (simp add: few_transfers_def)
  have L: "true_to (ledger_of n') en"
    using true_to_mono [OF i(4) ledger_mono [OF net_calls_issued [OF engine(4)]], where st = "en_session en"] by simp
  have cov: "covers (ledger_of n') (en_session en')" using net_run_covers [OF run assms(3)] engine(5) by simp
  have t: "tracks en en'" by (rule engine_op_tracks [OF engine(3)])
  then have "engine_inv en'" using i(3) few by (simp add: tracks_def keeps_inv_def)
  moreover have "true_to (ledger_of n') en'" using t i(3) few cov L by (simp add: tracks_def)
  ultimately show ?thesis using run engine(2,5) by (simp add: system_inv_def)
next
  case (network n n' en)
  have i: "en_session en = n_sess n" "net_run eps ex n" "engine_inv en" "true_to (ledger_of n) en"
    using assms(2) network(1) by (simp_all add: system_inv_def)
  have run: "net_run eps ex n'" using i(2) network(3) by (rule rtranclp.rtrancl_into_rtrancl)
  note g = net_step_session [OF network(3)]
  let ?en = "en\<lparr>en_session := n_sess n'\<rparr>"
  have "keeps_inv en ?en"
    using g i(1) by (intro keeps_inv_shrink) (use sub_flights_refl in \<open>auto simp del: sub_flights_refl\<close>)
  moreover have "few_transfers ?en" using net_run_few [OF run assms(3)] by (simp add: few_transfers_def)
  ultimately have "engine_inv ?en" using i(3) by (simp add: keeps_inv_def)
  moreover have "true_to (ledger_of n') ?en"
    using g i(1) by (intro true_to_mono [OF i(4) ledger_mono [OF net_step_issued [OF network(3)]]]) simp_all
  ultimately show ?thesis using run network(2) by (simp add: system_inv_def)
qed

lemma system_inv_init: "system_inv eps ex (system_init ex)"
proof -
  have "session_inv (n_sess (network_init (device_of ex)))"
    by (simp add: network_init_def client_init_def session_inv_start)
  then show ?thesis
    by (simp add: system_inv_def system_init_def engine_inv_new) (simp add: true_to_def Engine_new_def)
qed

lemma system_run_inv:
  assumes "system_run eps ex ring s" "ex_devnum ex \<le> 0xffff"
  shows "system_inv eps ex s"
  using assms(1) by (induction rule: rtranclp_induct) (auto intro: system_inv_init system_inv_step [OF _ _ assms(2)])


section \<open>What the host is told\<close>




text \<open>C2. Nothing is left behind: once the tasks of client and server have come to rest, which takes that the
  device has completed every URB that the server gave it and that was not cancelled, and the executor has
  finished every reply that arrived, no URB is in flight without its result, on any endpoint, also
  when the connection was lost.\<close>

theorem nothing_left_in_flight:
  assumes "system_run eps ex ring (en, n)" "ex_devnum ex \<le> 0xffff"
    and "\<nexists>n'. net_move eps (Export_devid ex) n n'"
    and "\<forall>(ch, key, token)\<in>set (en_waiters en). ch \<notin> keys (replies (n_sess n))"
    and "get_ep en key = Some ep" "f \<in> set (ep_in_flight ep)"
  shows "fl_result f \<noteq> None"
proof
  assume none: "fl_result f = None"
  have i: "en_session en = n_sess n" "net_run eps ex n" "engine_inv en"
    using system_run_inv [OF assms(1,2)] by (simp_all add: system_inv_def)
  obtain x where x: "implements (Export_devid ex) n x" "exchange_inv eps x" using net_run_exchange [OF i(2) assms(2)] by blast
  have "submits (n_sess n) = []" using at_rest(1) [OF x] assms(3) by blast
  then have "waiting_on (n_sess n) = {}" by (simp add: waiting_on_def)
  moreover have "flight_ok en key f" using engine_invD(4) [OF i(3) assms(5)] assms(6) by (simp add: endpoint_ok_def)
  ultimately obtain ch where "(ch, key, fl_token f) \<in> set (en_waiters en)" "ch \<in> keys (replies (n_sess n))"
    using none i(1) unfolding flight_ok_def by auto
  with assms(4) show False by blast
qed

text \<open>C3. The state stays well formed in every run of the system: tables have one entry per key; sequence numbers in
  use are not zero, and no number is both a transfer and a cancel; a cancel has a transfer it
  cancels, and no transfer two; at most 256 cancelled transfers are remembered; a closed
  session waits for nothing; every task waits for another URB, and an endpoint has
  at most 32 URBs in flight, told apart by their tokens.\<close>

theorem system_well_formed:
  assumes "system_run eps ex ring (en, n)" "ex_devnum ex \<le> 0xffff"
  shows "(let st = en_session en in
      wf_amap (submits st) \<and> wf_amap (unlinks st) \<and> 0 \<notin> seqs_used st \<and> keys (submits st) \<inter> keys (unlinks st) = {} \<and>
      vals (unlinks st) \<subseteq> keys (submits st) \<and> distinct (map snd (unlinks st)) \<and> length (unlinked st) \<le> 256 \<and>
      (closed st \<noteq> None \<longrightarrow> submits st = [] \<and> unlinks st = [])) \<and>
    wf_amap (en_endpoints en) \<and> distinct (map (snd \<circ> snd) (en_waiters en)) \<and>
    (\<forall>key ep. get_ep en key = Some ep \<longrightarrow>
       length (ep_in_flight ep) \<le> 32 \<and> distinct (map fl_token (ep_in_flight ep)))"
proof -
  have inv: "engine_inv en" using system_run_inv [OF assms] by (simp add: system_inv_def)
  have "length (ep_in_flight ep) \<le> 32 \<and> distinct (map fl_token (ep_in_flight ep))" if "get_ep en key = Some ep" for key ep
    using engine_invD(4) [OF inv that] by (simp add: endpoint_ok_def)
  then show ?thesis using engine_invD(1,2,3) [OF inv] unfolding session_inv_def waiters_ok_def Let_def by blast
qed

section \<open>A run\<close>

text \<open>
  A read is submitted for the message of an interrupt endpoint; then the session is closed, and the read ends
  as offline on the ring, or stays with its result on a ring that the host has stopped.
\<close>

definition wired_ep :: "(FakeRing \<times> completion list) Endpoint" where
  "wired_ep = \<lparr>ep_ring = (sample_ring, []), ep_info = sample_info, ep_in_flight = [], ep_setup = None,
     ep_hidden_config = None\<rparr>"

definition wired_new :: "(FakeRing \<times> completion list) Engine" where
  "wired_new = Engine_new (Session_start (device_of sample_export)) (device_of sample_export)"

definition wired_idle :: "(FakeRing \<times> completion list) Engine" where
  "wired_idle = put_ep sample_key wired_ep wired_new"

definition wired_busy :: "(FakeRing \<times> completion list) Engine" where
  "wired_busy = (put_ep sample_key (wired_ep\<lparr>ep_in_flight := [sample_flight]\<rparr>)
     (wired_new\<lparr>en_session := polled_session\<rparr>))\<lparr>en_next_token := 1, en_waiters := [(0, sample_key, 0)]\<rparr>"

definition wired_net :: network where
  "wired_net = (set_sess polled_session sample_net)\<lparr>n_issued := [(0, 1, sample_poll)]\<rparr>"

definition closed_session :: Shared where
  "closed_session = write_stop (Session_close polled_session)"

definition closed_net :: network where
  "closed_net = set_sess closed_session wired_net"

definition offline_flight :: InFlight where
  "offline_flight = sample_flight\<lparr>fl_result := Some (Inl (Disconnected ClosedByClient))\<rparr>"

lemma logged_simps [simp]:
  "ring_active (logged ring) (r, es) = ring_active ring r" "ring_current (logged ring) (r, es) = ring_current ring r"
  "ring_peek (logged ring) (r, es) = ring_peek ring r" "ring_read (logged ring) (r, es) = ring_read ring r"
  "ring_complete (logged ring) (r, es) st d l = (case ring_complete ring r st d l of
     (ok, r') \<Rightarrow> (ok, (r', es @ [(ring_current ring r, st, d, l)])))"
  by (simp_all add: logged_def)

lemma wired_simps:
  "ep_ring wired_ep = (sample_ring, [])" "ep_in_flight wired_ep = []" "kind (ep_info wired_ep) = Interrupt"
  "get_ep wired_idle sample_key = Some wired_ep" "speed (en_device wired_idle) = SpHigh"
  "en_session wired_idle = Session_start (device_of sample_export)"
  "get_ep wired_busy sample_key = Some (wired_ep\<lparr>ep_in_flight := [sample_flight]\<rparr>)"
  "en_session wired_busy = polled_session" "en_waiters wired_busy = [(0, sample_key, 0)]"
  by (simp_all add: wired_ep_def sample_info_def wired_idle_def wired_new_def wired_busy_def Engine_new_def device_of_def
      sample_export_def Speed_from_u32_def put_ep_def update_conv')

lemma wired_doorbell: "doorbell (logged fake_ring) sample_key wired_idle = Some wired_busy"
proof -
  have hr: "head_request (logged fake_ring) SpHigh wired_ep sample_key (TNormal 2) = (NSubmit sample_poll NormalStage, wired_ep)"
    by (simp add: head_request_def data_request_def sample_key_def Direction_of_endpoint_def wired_ep_def
        sample_info_def urb_interval_def sample_poll_def)
  have su: "submit_urb (logged fake_ring) sample_key 0 sample_poll NormalStage wired_ep wired_idle = Some (SInFlight, wired_busy)"
    using polled_session_eq(1) wired_simps(6)
    by (simp add: submit_urb_def sample_poll_simps)
      (simp add: wired_busy_def put_ep_def wired_idle_def wired_new_def Engine_new_def wired_ep_def sample_flight_def)
  have fi: "fill (logged fake_ring) sample_key wired_busy = Some (False, wired_busy)"
    by (subst fill.simps) (simp add: fill_round_def wired_simps depth_def)
  have "pump_round (logged fake_ring) sample_key False wired_idle = Some (None, wired_busy)"
    using hr su fi by (simp add: pump_round_def wired_simps sample_ring_eq put_ep_same [OF wired_simps(4)])
  then show ?thesis unfolding doorbell_def by (subst pump.simps) simp
qed

lemma closed_session_eq:
  "replies closed_session = [(0, Inl (Disconnected ClosedByClient))]" "closed closed_session \<noteq> None"
  "closed_tx (Session_close polled_session) \<noteq> None" "\<not> writer_open closed_session"
  using polled_session_eq
  by (simp_all add: closed_session_def write_stop_def Session_close_def Shared_close_open)

lemma wired_runs:
  "system_run sample_eps sample_export fake_ring (wired_busy\<lparr>en_session := closed_session\<rparr>, closed_net)"
proof -
  let ?step = "system_step sample_eps (Export_devid sample_export) fake_ring"
  have net: "n_sess sample_net = Session_start (device_of sample_export)" "n_issued sample_net = []"
    by (simp_all add: sample_net_def network_init_def client_init_def)
  have "engine_op fake_ring wired_new wired_idle"
    by (rule engine_op.add [of sample_key sample_info sample_ring])
      (simp add: add_endpoint_def wired_idle_def wired_new_def Engine_new_def wired_ep_def)
  then have s1: "?step (wired_new, sample_net) (wired_idle, sample_net)"
    by (rule system_step.engine) (simp_all add: net wired_simps)
  have wf: "wf_request sample_eps sample_poll"
    by (simp add: sample_eps_def wf_request_def endpoint_violation_def urb_address_def requested_urb_def is_in_def
        sample_poll_def SubmitRequest_new_def MAX_TRANSFER_LENGTH_def)
  have "net_call sample_eps sample_net ((set_sess polled_session sample_net)\<lparr>n_issued := n_issued sample_net @ [(0, 1, sample_poll)]\<rparr>)"
    by (rule net_call.issue [OF _ wf]) (simp_all add: net polled_session_eq(1))
  then have call: "(net_call sample_eps)\<^sup>*\<^sup>* sample_net wired_net" by (simp add: net(2) wired_net_def r_into_rtranclp)
  have "n_sess wired_net = en_session wired_busy" by (simp add: wired_net_def wired_simps)
  then have s2: "?step (wired_idle, sample_net) (wired_busy, wired_net)"
    by (rule system_step.engine [OF engine_op.bell [OF wired_doorbell] call])
  have "net_step sample_eps (Export_devid sample_export) wired_net (set_sess (Session_close (n_sess wired_net)) wired_net)"
    by (rule net_step.close)
  then have s3: "?step (wired_busy, wired_net) (wired_busy\<lparr>en_session := Session_close polled_session\<rparr>,
      set_sess (Session_close polled_session) wired_net)"
    using system_step.network [of sample_eps "Export_devid sample_export" wired_net _ fake_ring wired_busy]
    by (force simp: wired_net_def)
  have "net_step sample_eps (Export_devid sample_export) (set_sess (Session_close polled_session) wired_net) closed_net"
    using net_step.write_stop [of "set_sess (Session_close polled_session) wired_net" sample_eps "Export_devid sample_export"] closed_session_eq(3)
    by (simp add: closed_net_def closed_session_def)
  from system_step.network [OF this, of fake_ring "wired_busy\<lparr>en_session := Session_close polled_session\<rparr>"]
  have s4: "?step (wired_busy\<lparr>en_session := Session_close polled_session\<rparr>, set_sess (Session_close polled_session) wired_net)
      (wired_busy\<lparr>en_session := closed_session\<rparr>, closed_net)"
    by (simp add: closed_net_def)
  have "system_init sample_export = (wired_new, sample_net)"
    by (simp add: system_init_def wired_new_def sample_net_def network_init_def client_init_def)
  then show ?thesis using s1 s2 s3 s4 by (simp add: converse_rtranclp_into_rtranclp r_into_rtranclp)
qed


lemma finish_offline:
  assumes "get_ep en sample_key = Some ep" "ep_in_flight ep = [sample_flight]"
  shows "finish ring sample_key 0 (Inl (Disconnected ClosedByClient)) en =
    pump ring sample_key False (put_ep sample_key (ep\<lparr>ep_in_flight := [offline_flight]\<rparr>) en)"
  using assms by (simp add: finish_def Let_def is_unlinked_def offline_flight_def) (simp add: sample_flight_def)


lemma closed_net_rests: "\<not> net_move eps dev closed_net n'"
proof
  have c: "n_sess closed_net = closed_session" "cl_in (n_client closed_net) = []" "cl_eof (n_client closed_net) = None"
    "cl_reader (n_client closed_net) = RHeader" "n_up closed_net = []" "n_down closed_net = []"
    "sv_jobs (n_server closed_net) = []" "sv_out (n_server closed_net) = []"
    by (simp_all add: closed_net_def wired_net_def sample_net_def network_init_def client_init_def ServerLoop_new_def)
  have r: "reader_step (n_client closed_net) = None"
    using c by (simp add: reader_step_def cl_stream_def read_reply_header_def read_exact_def URB_HEADER_SIZE_def blocked_def)
  assume "net_move eps dev closed_net n'"
  then show False
  proof (cases rule: net_move.cases)
    case (write_out st batch)
    show ?thesis using write_out(2) closed_session_eq(4) unfolding c(1) by blast
  next
    case (serve r sv)
    show ?thesis using serve(3) unfolding c(5) by blast
  next
    case (work a u b js choice sv)
    show ?thesis using work(3) unfolding c(7) by simp
  next
    case (send frame sv)
    show ?thesis using send(2) by (simp add: server_write_def c(8))
  next
    case (arrive seg rest)
    show ?thesis using arrive(2,3) unfolding c(6) by simp
  next
    case (shut out)
    show ?thesis using shut(2) unfolding c(8) by blast
  next
    case (read d)
    show ?thesis using read(2) unfolding r by blast
  qed
qed

theorem system_well_formed_witness:
  "submits closed_session = [] \<and> 0 \<notin> seqs_used closed_session \<and> distinct (map (snd \<circ> snd) (en_waiters wired_busy))"
  using system_well_formed [OF wired_runs sample_run_props(3)] closed_session_eq(2) by (simp add: Let_def)

theorem nothing_left_in_flight_witness:
  "\<exists>n en ep f. system_run sample_eps sample_export fake_ring (en, n) \<and> get_ep en sample_key = Some ep \<and>
     f \<in> set (ep_in_flight ep) \<and> fl_result f \<noteq> None"
proof -
  let ?r = "sample_ring\<lparr>fr_active := False\<rparr>"
  let ?ep = "wired_ep\<lparr>ep_in_flight := [sample_flight], ep_ring := (?r, [])\<rparr>"
  let ?en = "wired_busy\<lparr>en_session := closed_session\<rparr>"
  let ?e1 = "put_ep sample_key ?ep ?en"
  have g: "get_ep ?en sample_key = Some (wired_ep\<lparr>ep_in_flight := [sample_flight]\<rparr>)" by (simp add: wired_simps)
  have "engine_op fake_ring ?en ?e1" using engine_op.host [OF g, of fake_ring ?r] by (simp add: wired_simps)
  then have s1: "system_step sample_eps (Export_devid sample_export) fake_ring (?en, closed_net) (?e1, closed_net)"
    by (rule system_step.engine) (simp_all add: closed_net_def)
  let ?e0 = "?e1\<lparr>en_waiters := remove1 (0, sample_key, 0) (en_waiters ?e1)\<rparr>"
  let ?e2 = "put_ep sample_key (?ep\<lparr>ep_in_flight := [offline_flight]\<rparr>) ?e0"
  have "finish (logged fake_ring) sample_key 0 (Inl (Disconnected ClosedByClient)) ?e0 =
      pump (logged fake_ring) sample_key False ?e2"
    by (rule finish_offline) simp_all
  also have "\<dots> = Some ?e2" by (subst pump.simps) (simp add: pump_round_def)
  finally have "engine_op fake_ring ?e1 ?e2"
    by (intro engine_op.finished [of 0 sample_key 0 ?e1]) (simp_all add: wired_simps closed_session_eq)
  then have "system_step sample_eps (Export_devid sample_export) fake_ring (?e1, closed_net) (?e2, closed_net)"
    by (rule system_step.engine) (simp_all add: closed_net_def)
  with s1 wired_runs have run: "system_run sample_eps sample_export fake_ring (?e2, closed_net)" by (meson rtranclp.rtrancl_into_rtrancl)
  have "fl_result offline_flight \<noteq> None"
    by (rule nothing_left_in_flight [OF run sample_run_props(3), of sample_key "?ep\<lparr>ep_in_flight := [offline_flight]\<rparr>"])
      (use closed_net_rests in \<open>simp_all add: wired_simps\<close>)
  then show ?thesis using run by (intro exI [of _ closed_net] exI [of _ ?e2] exI [of _ "?ep\<lparr>ep_in_flight := [offline_flight]\<rparr>"] exI [of _ offline_flight]) simp
qed

end
