(* ===== verification/Server_Connections.thy ===== *)
theory Server_Connections
  imports Server_Loop Cli
begin

text \<open>
  The rest of the reference server \<open>src/tests/support/server.rs\<close>: the exports it is started with, the
  loop that accepts connections, \<open>serve\<close> for each of them with the list of imported devices they
  share, and the queries on the log. Any number of connections run interleaved; a connection
  carries what its peer will still send and what was written to it. The critical sections of \<open>serve\<close>
  are the steps: a request is parsed and the device reserved, the reply is written, commands are
  served, and the device is given back once the writer has ended.
\<close>

section \<open>Exports\<close>

fun split_busid :: "rstring \<Rightarrow> rstring list" where
  "split_busid [] = [[]]"
| "split_busid (b # bs) =
     (if b = 0x2d \<or> b = 0x2e then [] # split_busid bs
      else case split_busid bs of part # parts \<Rightarrow> (b # part) # parts | [] \<Rightarrow> [[b]])"

text \<open>\<open>str::parse::<u32>\<close>: an optional plus sign and decimal digits, in range.\<close>

definition parse_u32 :: "rstring \<Rightarrow> u32 option" where
  "parse_u32 s =
     (let ds = (if length s > 1 \<and> hd s = 0x2b then tl s else s)
      in if ds = [] \<or> \<not> list_all (\<lambda>d. 0x30 \<le> d \<and> d \<le> 0x39) ds \<or> from_decimal ds \<ge> 2 ^ 32 then None
         else Some (of_nat (from_decimal ds)))"

definition sysfs_path :: rstring where
  "sysfs_path = map of_char ''/sys/devices/platform/vhci_hcd.0/usb''"

definition Export_new :: "rstring \<Rightarrow> Export" where
  "Export_new b_id =
     (let parts = split_busid b_id;
          bus = (case parts of p # _ \<Rightarrow> (case parse_u32 p of Some n \<Rightarrow> n | None \<Rightarrow> 1) | [] \<Rightarrow> 1);
          dev = (case parts of _ # p # _ \<Rightarrow> (case parse_u32 p of Some n \<Rightarrow> n | None \<Rightarrow> 2) | _ \<Rightarrow> 2)
      in \<lparr>ex_path = sysfs_path @ decimal (unat bus) @ [0x2f] @ b_id, ex_busid = b_id,
          ex_busnum = bus, ex_devnum = dev, ex_speed = 3, ex_id_vendor = 0x1209,
          ex_id_product = 0x0001, ex_bcd_device = 0x0100, ex_class = [0, 0, 0],
          ex_configuration_value = 1, ex_num_configurations = 1, ex_interfaces = [[0xff, 0, 0]]\<rparr>)"

section \<open>The log\<close>

definition Log_submits :: "Event list \<Rightarrow> Urb list" where
  "Log_submits es = List.map_filter (\<lambda>e. case e of EvSubmit u \<Rightarrow> Some u | _ \<Rightarrow> None) es"

definition Log_unlinks :: "Event list \<Rightarrow> (u32 \<times> u32 \<times> bool) list" where
  "Log_unlinks es =
     List.map_filter (\<lambda>e. case e of EvUnlink seqnum target found \<Rightarrow> Some (seqnum, target, found) | _ \<Rightarrow> None) es"

text \<open>The counter is unsigned: taking one from zero would panic.\<close>

fun in_flight_loop :: "u32 \<Rightarrow> u32 list \<Rightarrow> nat \<Rightarrow> nat \<Rightarrow> Event list \<Rightarrow> nat option" where
  "in_flight_loop ep on_ep now most [] = Some most"
| "in_flight_loop ep on_ep now most (EvSubmit u # es) =
     (if u_ep u = ep
      then in_flight_loop ep (List.insert (u_seqnum u) on_ep) (now + 1) (max most (now + 1)) es
      else in_flight_loop ep on_ep now most es)"
| "in_flight_loop ep on_ep now most (EvCompleted q # es) =
     (if q \<in> set on_ep
      then if now = 0 then None else in_flight_loop ep (removeAll q on_ep) (now - 1) most es
      else in_flight_loop ep on_ep now most es)"
| "in_flight_loop ep on_ep now most (_ # es) = in_flight_loop ep on_ep now most es"

definition max_in_flight :: "Event list \<Rightarrow> u32 \<Rightarrow> nat option" where
  "max_in_flight es ep = in_flight_loop ep [] 0 0 es"

section \<open>Connections\<close>

text \<open>
  Where \<open>serve\<close> stands: before the request; with a device reserved and the reply not yet written; in the
  loop over commands; behind it, waiting for the writer; about to give the device back; returned.
\<close>

datatype Phase =
    Opened
  | Granted Export
  | Serving Export ServerLoop
  | Draining Export ServerLoop
  | Releasing Export
  | Returned

record Connection =
  cn_phase :: Phase
  cn_input :: rstream
  cn_sent :: bytes
  cn_writing :: bool

record ServerState =
  ss_exports :: "Export list"
  ss_imported :: "rstring list"
  ss_conns :: "Connection list"
  ss_log :: "Event list"
  ss_violations :: "violation list"
  ss_connections :: u32

definition Server_bind :: "Export list \<Rightarrow> ServerState" where
  "Server_bind exports =
     \<lparr>ss_exports = exports, ss_imported = [], ss_conns = [], ss_log = [], ss_violations = [], ss_connections = 0\<rparr>"

definition accept :: "rstream \<Rightarrow> ServerState \<Rightarrow> ServerState" where
  "accept r s =
     s\<lparr>ss_connections := ss_connections s + 1,
       ss_conns := ss_conns s @ [\<lparr>cn_phase = Opened, cn_input = r, cn_sent = [], cn_writing = True\<rparr>]\<rparr>"

text \<open>A write that fails after some of the bytes, or not at all.\<close>

definition write_upto :: "nat option \<Rightarrow> bytes \<Rightarrow> bytes" where
  "write_upto fault out = (case fault of None \<Rightarrow> out | Some n \<Rightarrow> take n out)"

abbreviation put_conn :: "nat \<Rightarrow> Connection \<Rightarrow> ServerState \<Rightarrow> ServerState" where
  "put_conn i c s \<equiv> s\<lparr>ss_conns := (ss_conns s)[i := c]\<rparr>"

text \<open>The first part of \<open>serve\<close>, up to a granted import or the only reply.\<close>

definition serve_request :: "nat option \<Rightarrow> nat \<Rightarrow> Connection \<Rightarrow> ServerState \<Rightarrow> ServerState" where
  "serve_request fault i c s =
     (case serve_op (cn_input c) of
        (None, vs) \<Rightarrow> put_conn i (c\<lparr>cn_phase := Returned\<rparr>) (s\<lparr>ss_violations := ss_violations s @ vs\<rparr>)
      | (Some (OpDevList, r), vs) \<Rightarrow>
          put_conn i (c\<lparr>cn_phase := Returned, cn_input := r, cn_sent := write_upto fault (serve_devlist (ss_exports s))\<rparr>)
            (s\<lparr>ss_violations := ss_violations s @ vs, ss_log := ss_log s @ [EvDevList]\<rparr>)
      | (Some (OpImport b, r), vs) \<Rightarrow>
          let (out, imported) = serve_import (ss_exports s) (ss_imported s) b;
              s = s\<lparr>ss_violations := ss_violations s @ vs, ss_log := ss_log s @ [EvImport b]\<rparr>
          in (case find (\<lambda>e. ex_busid e = b) (ss_exports s) of
                Some e \<Rightarrow>
                  if b \<in> set (ss_imported s)
                  then put_conn i (c\<lparr>cn_phase := Returned, cn_input := r, cn_sent := write_upto fault out\<rparr>) s
                  else put_conn i (c\<lparr>cn_phase := Granted e, cn_input := r\<rparr>) (s\<lparr>ss_imported := imported\<rparr>)
              | None \<Rightarrow> put_conn i (c\<lparr>cn_phase := Returned, cn_input := r, cn_sent := write_upto fault out\<rparr>) s))"

definition import_reply :: "Export \<Rightarrow> bytes" where
  "import_reply e = [0x01, 0x11, 0x00, 0x03] @ u32_be 0 @ Export_encode e False"

text \<open>The reply to a granted import; the loop over commands begins if it was written.\<close>

definition serve_granted :: "nat option \<Rightarrow> Export \<Rightarrow> Connection \<Rightarrow> Connection" where
  "serve_granted fault e c =
     c\<lparr>cn_sent := write_upto fault (import_reply e),
       cn_phase := (if fault = None then Serving e ServerLoop_new else Releasing e)\<rparr>"

text \<open>The log is shared: a step of a connection's loop appends to the server's.\<close>

definition shared_log :: "ServerState \<Rightarrow> ServerLoop \<Rightarrow> ServerLoop" where
  "shared_log s sv = sv\<lparr>sv_log := ss_log s, sv_violations := ss_violations s\<rparr>"

definition log_back :: "ServerLoop \<Rightarrow> ServerState \<Rightarrow> ServerState" where
  "log_back sv s = s\<lparr>ss_log := sv_log sv, ss_violations := sv_violations sv\<rparr>"

definition serve_round ::
  "(u8 \<times> u8) list \<Rightarrow> Export \<Rightarrow> ServerLoop \<Rightarrow> nat \<Rightarrow> Connection \<Rightarrow> ServerState \<Rightarrow> ServerState" where
  "serve_round eps e sv i c s =
     (case serve_urb eps (Export_devid e) (cn_input c) (shared_log s sv) of
        (None, sv) \<Rightarrow> put_conn i (c\<lparr>cn_phase := Draining e sv\<rparr>) (log_back sv s)
      | (Some r, sv) \<Rightarrow> put_conn i (c\<lparr>cn_phase := Serving e sv, cn_input := r\<rparr>) (log_back sv s))"

text \<open>The writer task takes the next frame; the end marker and a failed write end it.\<close>

definition write_frame :: "nat option \<Rightarrow> ServerLoop \<Rightarrow> Connection \<Rightarrow> Connection \<times> ServerLoop" where
  "write_frame fault sv c =
     (case sv_out sv of
        [] \<Rightarrow> (c, sv)
      | None # rest \<Rightarrow> (c\<lparr>cn_writing := False\<rparr>, sv\<lparr>sv_out := rest\<rparr>)
      | Some frame # rest \<Rightarrow>
          (c\<lparr>cn_sent := cn_sent c @ write_upto fault frame, cn_writing := (fault = None)\<rparr>, sv\<lparr>sv_out := rest\<rparr>))"

definition release_device :: "Export \<Rightarrow> ServerState \<Rightarrow> ServerState" where
  "release_device e s = s\<lparr>ss_imported := filter (\<lambda>b. b \<noteq> ex_busid e) (ss_imported s)\<rparr>"

inductive server_move :: "(Export \<Rightarrow> (u8 \<times> u8) list) \<Rightarrow> ServerState \<Rightarrow> ServerState \<Rightarrow> bool" for endpoints where
  request: "\<lbrakk>i < length (ss_conns s); c = ss_conns s ! i; cn_phase c = Opened\<rbrakk>
    \<Longrightarrow> server_move endpoints s (serve_request fault i c s)"
| reply: "\<lbrakk>i < length (ss_conns s); c = ss_conns s ! i; cn_phase c = Granted e\<rbrakk>
    \<Longrightarrow> server_move endpoints s (put_conn i (serve_granted fault e c) s)"
| round: "\<lbrakk>i < length (ss_conns s); c = ss_conns s ! i; cn_phase c = Serving e sv\<rbrakk>
    \<Longrightarrow> server_move endpoints s (serve_round (endpoints e) e sv i c s)"
| work: "\<lbrakk>i < length (ss_conns s); c = ss_conns s ! i; cn_phase c = Serving e sv;
      \<forall>u cancelled jobs outcome. take_job a (sv_jobs sv) = Some ((u, cancelled), jobs) \<longrightarrow>
        choice = Some outcome \<longrightarrow> job_outcome u outcome;
      endpoint_worker a choice (shared_log s sv) = Some sv'\<rbrakk>
    \<Longrightarrow> server_move endpoints s (put_conn i (c\<lparr>cn_phase := Serving e sv'\<rparr>) (log_back sv' s))"
| send: "\<lbrakk>i < length (ss_conns s); c = ss_conns s ! i; cn_phase c = Serving e sv; cn_writing c; sv_out sv \<noteq> [];
      write_frame fault sv c = (c', sv')\<rbrakk>
    \<Longrightarrow> server_move endpoints s (put_conn i (c'\<lparr>cn_phase := Serving e sv'\<rparr>) s)"
| drain: "\<lbrakk>i < length (ss_conns s); c = ss_conns s ! i; cn_phase c = Draining e sv; cn_writing c; sv_out sv \<noteq> [];
      write_frame fault sv c = (c', sv')\<rbrakk>
    \<Longrightarrow> server_move endpoints s (put_conn i (c'\<lparr>cn_phase := Draining e sv'\<rparr>) s)"
| drained: "\<lbrakk>i < length (ss_conns s); c = ss_conns s ! i; cn_phase c = Draining e sv; \<not> cn_writing c\<rbrakk>
    \<Longrightarrow> server_move endpoints s (put_conn i (c\<lparr>cn_phase := Releasing e\<rparr>) s)"
| release: "\<lbrakk>i < length (ss_conns s); c = ss_conns s ! i; cn_phase c = Releasing e\<rbrakk>
    \<Longrightarrow> server_move endpoints s (release_device e (put_conn i (c\<lparr>cn_phase := Returned\<rparr>) s))"

inductive server_step :: "(Export \<Rightarrow> (u8 \<times> u8) list) \<Rightarrow> ServerState \<Rightarrow> ServerState \<Rightarrow> bool" for endpoints where
  accepted: "server_step endpoints s (accept r s)"
| moved: "server_move endpoints s s' \<Longrightarrow> server_step endpoints s s'"

section \<open>Exports and the log\<close>

lemma length_decimal: "n < 10 ^ Suc k \<Longrightarrow> length (decimal n) \<le> Suc k"
proof (induction n arbitrary: k rule: decimal.induct)
  case (1 n)
  show ?case
  proof (cases "n < 10")
    case False
    with 1(2) obtain l where "k = Suc l" by (cases k) auto
    with 1 False show ?thesis by (simp add: decimal.simps [of n])
  qed (simp add: decimal.simps)
qed

lemma decimal_ascii: "x \<in> set (decimal n) \<Longrightarrow> 0 < x \<and> x < 0x80"
proof -
  assume "x \<in> set (decimal n)"
  then have "0x30 \<le> x" "x \<le> 0x39" using decimal_digits by auto
  then show ?thesis by (simp add: word_le_nat_alt word_less_nat_alt)
qed

lemma sysfs_ascii: "length sysfs_path = 36" "x \<in> set sysfs_path \<Longrightarrow> 0 < x \<and> x < 0x80"
  by (auto simp: sysfs_path_def)

lemma Export_new_wf:
  assumes "length b < 32" "\<forall>x\<in>set b. 0 < x \<and> x < 0x80"
  shows "wf_export (Export_new b)"
proof -
  have path: "ex_path (Export_new b) = sysfs_path @ decimal (unat (ex_busnum (Export_new b))) @ [0x2f] @ b"
    by (simp add: Export_new_def Let_def)
  have "length (decimal (unat (ex_busnum (Export_new b)))) \<le> 10"
    by (rule length_decimal [of _ 9, simplified]) (rule less_trans [OF unsigned_less], simp)
  moreover have ascii: "\<forall>x\<in>set (ex_path (Export_new b)). 0 < x \<and> x < 0x80"
    using assms(2) decimal_ascii sysfs_ascii(2) by (auto simp: path)
  ultimately show ?thesis
    using assms ascii path sysfs_ascii(1)
    by (auto simp: wf_export_def list_all_iff Export_new_def Let_def intro!: ascii_valid)
qed

lemma in_flight_total:
  "\<lbrakk>distinct on_ep; length on_ep \<le> now\<rbrakk> \<Longrightarrow> \<exists>m\<ge>most. in_flight_loop ep on_ep now most es = Some m"
proof (induction ep on_ep now most es rule: in_flight_loop.induct)
  case (2 ep on_ep now most u es)
  then show ?case by (cases "u_seqnum u \<in> set on_ep") (fastforce simp: List.insert_def)+
next
  case (3 ep on_ep now most q es)
  have "0 < now" "length (removeAll q on_ep) \<le> now - 1" if "q \<in> set on_ep"
    using that 3(3,4) length_removeAll_less [of q on_ep] by auto
  with 3 show ?case by (auto simp: distinct_removeAll)
qed auto

lemma max_in_flight_total: "\<exists>m. max_in_flight es ep = Some m"
  using in_flight_total [of "[]" 0 0 ep es] by (auto simp: max_in_flight_def)

section \<open>Who holds a device\<close>

primrec holder :: "Phase \<Rightarrow> Export option" where
  "holder Opened = None"
| "holder (Granted e) = Some e"
| "holder (Serving e sv) = Some e"
| "holder (Draining e sv) = Some e"
| "holder (Releasing e) = Some e"
| "holder Returned = None"

definition held :: "ServerState \<Rightarrow> nat \<Rightarrow> rstring option" where
  "held s i = (if i < length (ss_conns s) then map_option ex_busid (holder (cn_phase (ss_conns s ! i))) else None)"

primrec phase_ok :: "bytes \<Rightarrow> bool \<Rightarrow> Phase \<Rightarrow> bool" where
  "phase_ok sent writing Opened = (sent = [])"
| "phase_ok sent writing (Granted e) = (sent = [])"
| "phase_ok sent writing (Serving e sv) = (\<exists>rest. sent = import_reply e @ rest)"
| "phase_ok sent writing (Draining e sv) = ((\<exists>rest. sent = import_reply e @ rest) \<and> (writing \<longrightarrow> sv_out sv \<noteq> [] \<and> last (sv_out sv) = None))"
| "phase_ok sent writing (Releasing e) = True"
| "phase_ok sent writing Returned = True"

definition conn_ok :: "Export list \<Rightarrow> Connection \<Rightarrow> bool" where
  "conn_ok exports c \<longleftrightarrow> phase_ok (cn_sent c) (cn_writing c) (cn_phase c) \<and>
     (\<forall>e. holder (cn_phase c) = Some e \<longrightarrow> find (\<lambda>x. ex_busid x = ex_busid e) exports = Some e)"

definition server_inv :: "Export list \<Rightarrow> ServerState \<Rightarrow> bool" where
  "server_inv exports s \<longleftrightarrow> ss_exports s = exports \<and> set (ss_imported s) = ran (held s) \<and>
     inj_on (held s) (dom (held s)) \<and> distinct (ss_imported s) \<and> (\<forall>c\<in>set (ss_conns s). conn_ok exports c)"

lemma held_put_conn:
  "i < length (ss_conns s) \<Longrightarrow> held (put_conn i c s) = (held s)(i := map_option ex_busid (holder (cn_phase c)))"
  by (auto simp: held_def fun_eq_iff nth_list_update)

lemma held_more [simp]:
  "held (s\<lparr>ss_log := l\<rparr>) = held s" "held (s\<lparr>ss_violations := vs\<rparr>) = held s"
  "held (s\<lparr>ss_imported := im\<rparr>) = held s" "held (log_back sv s) = held s"
  by (auto simp: held_def log_back_def)

lemma log_back_conns [simp]: "ss_conns (log_back sv s) = ss_conns s"
  by (simp add: log_back_def)

lemma held_accept: "held (accept r s) = held s"
  by (auto simp: held_def accept_def fun_eq_iff nth_append)

lemma inv_put_same:
  assumes inv: "server_inv exports s" and i: "i < length (ss_conns s)"
    and same: "holder (cn_phase c) = holder (cn_phase (ss_conns s ! i))"
    and ok: "phase_ok (cn_sent c) (cn_writing c) (cn_phase c)"
  shows "server_inv exports (put_conn i c s)"
proof -
  have "held (put_conn i c s) = held s" using i same by (simp add: held_put_conn held_def fun_eq_iff)
  moreover have "conn_ok exports (ss_conns s ! i)" using inv i by (simp add: server_inv_def)
  then have "conn_ok exports c" using same ok by (simp add: conn_ok_def)
  ultimately show ?thesis using inv by (auto simp: server_inv_def dest!: set_update_subset_insert [THEN subsetD])
qed

lemma inv_log:
  "server_inv exports (s\<lparr>ss_log := l\<rparr>) = server_inv exports s"
  "server_inv exports (s\<lparr>ss_violations := vs\<rparr>) = server_inv exports s"
  "server_inv exports (log_back sv s) = server_inv exports s"
  by (auto simp: server_inv_def log_back_def held_def cong: if_cong)

lemma find_exported: "find (\<lambda>x. ex_busid x = b) es = Some e \<Longrightarrow> ex_busid e = b"
  by (auto simp: find_Some_iff)

lemma inv_drop:
  assumes inv: "server_inv exports s" and i: "i < length (ss_conns s)"
    and none: "holder (cn_phase c) = None" "phase_ok (cn_sent c) (cn_writing c) (cn_phase c)"
    and was: "holder (cn_phase (ss_conns s ! i)) = Some e"
  shows "server_inv exports (release_device e (put_conn i c s))"
proof -
  have h: "held s i = Some (ex_busid e)" using i was by (simp add: held_def)
  then have "held s j \<noteq> Some (ex_busid e)" if "j \<noteq> i" for j
    using inv that inj_onD [of "held s" "dom (held s)" i j] by (auto simp: server_inv_def domI)
  then have "ran ((held s)(i := None)) = ran (held s) - {ex_busid e}"
    using h by (auto simp: ran_def) (metis option.inject)
  moreover have "held (release_device e (put_conn i c s)) = (held s)(i := None)"
    using held_put_conn [OF i] none by (simp add: release_device_def)
  ultimately show ?thesis using inv none
    by (auto simp: server_inv_def release_device_def conn_ok_def inj_on_def dom_def
        dest!: set_update_subset_insert [THEN subsetD] split: if_splits)
qed

lemma inv_grant:
  assumes inv: "server_inv exports s" and i: "i < length (ss_conns s)"
    and was: "holder (cn_phase (ss_conns s ! i)) = None" and c: "cn_phase c = Granted e" "cn_sent c = []"
    and free: "b \<notin> set (ss_imported s)" and e: "find (\<lambda>x. ex_busid x = b) exports = Some e"
  shows "server_inv exports (put_conn i c (s\<lparr>ss_imported := ss_imported s @ [b]\<rparr>))"
proof -
  have h: "held s i = None" using i was by (simp add: held_def)
  have hd: "held (put_conn i c (s\<lparr>ss_imported := ss_imported s @ [b]\<rparr>)) = (held s)(i \<mapsto> b)"
    using held_put_conn [of i "s\<lparr>ss_imported := ss_imported s @ [b]\<rparr>"] i c find_exported [OF e] by simp
  have "b \<notin> ran (held s)" using inv free by (simp add: server_inv_def)
  then have "inj_on ((held s)(i \<mapsto> b)) (dom ((held s)(i \<mapsto> b)))"
    using inv h by (auto simp: server_inv_def inj_on_def ran_def)
  then show ?thesis using inv h hd c free e find_exported [OF e]
    by (auto simp: server_inv_def conn_ok_def dest!: set_update_subset_insert [THEN subsetD])
qed

lemma serve_import_granted:
  assumes "find (\<lambda>e. ex_busid e = b) exports = Some e" "b \<notin> set imported"
  shows "serve_import exports imported b = (import_reply e, imported @ [b])"
  using assms by (simp add: serve_import_def import_reply_def)

lemma inv_request:
  assumes inv: "server_inv exports s" and i: "i < length (ss_conns s)" "c = ss_conns s ! i"
    and opened: "cn_phase c = Opened"
  shows "server_inv exports (serve_request fault i c s)"
proof -
  have ex: "ss_exports s = exports" using inv by (simp add: server_inv_def)
  have sent: "cn_sent c = []" using inv i opened by (auto simp: server_inv_def conn_ok_def dest!: bspec [OF _ nth_mem])
  have quiet: "server_inv exports (put_conn i (c\<lparr>cn_phase := Returned, cn_input := r, cn_sent := out\<rparr>)
      (s\<lparr>ss_violations := vs, ss_log := l\<rparr>))" for r out vs l
    by (rule inv_put_same) (use inv i opened in \<open>simp_all add: inv_log\<close>)
  have grant: "server_inv exports (put_conn i (c\<lparr>cn_phase := Granted e, cn_input := r\<rparr>)
      (s\<lparr>ss_violations := vs, ss_log := l, ss_imported := ss_imported s @ [b]\<rparr>))"
    if "find (\<lambda>x. ex_busid x = b) exports = Some e" "b \<notin> set (ss_imported s)" for b e r vs l
    using inv_grant [of exports "s\<lparr>ss_violations := vs, ss_log := l\<rparr>" i "c\<lparr>cn_phase := Granted e, cn_input := r\<rparr>" e b] inv i opened sent that
    by (simp add: inv_log)
  show ?thesis
  proof (cases "serve_op (cn_input c)")
    case (Pair req vs)
    show ?thesis
    proof (cases req)
      case None
      then show ?thesis using quiet [where r = "cn_input c" and out = "cn_sent c" and vs = "ss_violations s @ vs" and l = "ss_log s"] Pair
        by (simp add: serve_request_def)
    next
      case (Some qr)
      then show ?thesis using Pair quiet grant
        by (cases qr; cases "fst qr")
          (auto simp: serve_request_def Let_def ex serve_import_granted split: option.splits prod.splits)
    qed
  qed
qed

lemma serve_urb_end:
  assumes "serve_urb eps dev r sv = (None, sv')"
  shows "sv_out sv' = sv_out sv @ [None]" "sv_jobs sv' = []"
  using assms by (auto simp: serve_urb_def serve_end_def split: prod.splits option.splits server_cmd.splits)

lemma inv_put_log:
  assumes "server_inv exports s" "i < length (ss_conns s)"
    "holder (cn_phase c) = holder (cn_phase (ss_conns s ! i))" "phase_ok (cn_sent c) (cn_writing c) (cn_phase c)"
  shows "server_inv exports (put_conn i c (log_back sv s))"
  by (rule inv_put_same) (use assms in \<open>simp_all add: inv_log\<close>)

lemma serving_sent:
  assumes "server_inv exports s" "i < length (ss_conns s)" "cn_phase (ss_conns s ! i) = Serving e sv"
  obtains rest where "cn_sent (ss_conns s ! i) = import_reply e @ rest"
  using assms by (auto simp: server_inv_def conn_ok_def dest!: bspec [OF _ nth_mem])

lemma inv_round:
  assumes "server_inv exports s" "i < length (ss_conns s)" "c = ss_conns s ! i" "cn_phase c = Serving e sv"
  shows "server_inv exports (serve_round eps e sv i c s)"
proof -
  obtain rest where sent: "cn_sent c = import_reply e @ rest" using serving_sent assms by metis
  show ?thesis
  proof (cases "serve_urb eps (Export_devid e) (cn_input c) (shared_log s sv)")
    case (Pair r sv')
    then show ?thesis using assms sent
      by (cases r) (auto simp: serve_round_def serve_urb_end intro!: inv_put_log [of exports s i] simp del: log_back_conns)
  qed
qed

lemma inv_send:
  assumes "server_inv exports s" "i < length (ss_conns s)" "c = ss_conns s ! i" "cn_phase c = Serving e sv"
    "write_frame fault sv c = (c', sv')"
  shows "server_inv exports (put_conn i (c'\<lparr>cn_phase := Serving e sv'\<rparr>) s)"
proof -
  obtain rest where sent: "cn_sent c = import_reply e @ rest" using serving_sent assms by metis
  show ?thesis
    by (rule inv_put_same) (use assms sent in \<open>auto simp: write_frame_def split: list.splits option.splits\<close>)
qed

lemma inv_drain:
  assumes "server_inv exports s" "i < length (ss_conns s)" "c = ss_conns s ! i" "cn_phase c = Draining e sv"
    "cn_writing c" "write_frame fault sv c = (c', sv')"
  shows "server_inv exports (put_conn i (c'\<lparr>cn_phase := Draining e sv'\<rparr>) s)"
proof -
  obtain rest where "cn_sent c = import_reply e @ rest" "sv_out sv \<noteq> []" "last (sv_out sv) = None"
    using assms by (auto simp: server_inv_def conn_ok_def dest!: bspec [OF _ nth_mem])
  then show ?thesis
    by (intro inv_put_same) (use assms in \<open>auto simp: write_frame_def split: list.splits option.splits if_splits\<close>)
qed

lemma server_inv_move:
  assumes "server_move endpoints s s'" "server_inv exports s"
  shows "server_inv exports s'"
  using assms
proof (cases rule: server_move.cases)
  case (request i c fault)
  then show ?thesis using inv_request assms(2) by blast
next
  case (reply i c e fault)
  show ?thesis unfolding reply(1)
    by (rule inv_put_same) (use assms(2) reply in \<open>auto simp: serve_granted_def write_upto_def split: option.splits\<close>)
next
  case (round i c e sv)
  then show ?thesis using inv_round assms(2) by blast
next
  case (work i c e sv a choice sv')
  obtain rest where "cn_sent c = import_reply e @ rest" using serving_sent assms(2) work(2-4) by metis
  then show ?thesis unfolding work(1) by (intro inv_put_log) (use assms(2) work in auto)
next
  case (send i c e sv fault c' sv')
  then show ?thesis using inv_send assms(2) by blast
next
  case (drain i c e sv fault c' sv')
  then show ?thesis using inv_drain assms(2) by blast
next
  case (drained i c e sv)
  then show ?thesis unfolding drained(1) by (intro inv_put_same) (use assms(2) in auto)
next
  case (release i c e)
  then show ?thesis unfolding release(1) by (intro inv_drop) (use assms(2) in auto)
qed

lemma server_inv_step: "\<lbrakk>server_step endpoints s s'; server_inv exports s\<rbrakk> \<Longrightarrow> server_inv exports s'"
proof (induction rule: server_step.induct)
  case (accepted s r)
  then show ?case by (auto simp: server_inv_def held_accept) (auto simp: accept_def conn_ok_def)
qed (rule server_inv_move)

lemma server_inv_bind: "server_inv exports (Server_bind exports)"
proof -
  have "held (Server_bind exports) = (\<lambda>_. None)" by (simp add: held_def Server_bind_def fun_eq_iff)
  then show ?thesis by (simp add: server_inv_def) (simp add: Server_bind_def)
qed

lemma server_reachable: "(server_step endpoints)\<^sup>*\<^sup>* (Server_bind exports) s \<Longrightarrow> server_inv exports s"
  by (induction rule: rtranclp_induct) (auto intro: server_inv_bind server_inv_step)

section \<open>The connections end\<close>

primrec phase_rank :: "nat \<Rightarrow> Phase \<Rightarrow> nat" where
  "phase_rank n Opened = 4 * n + 40"
| "phase_rank n (Granted e) = 4 * n + 30"
| "phase_rank n (Serving e sv) = 4 * n + 2 * length (sv_jobs sv) + length (sv_out sv) + 20"
| "phase_rank n (Draining e sv) = length (sv_out sv) + 10"
| "phase_rank n (Releasing e) = 5"
| "phase_rank n Returned = 0"

definition conn_rank :: "Connection \<Rightarrow> nat" where
  "conn_rank c = phase_rank (length (avail (cn_input c))) (cn_phase c)"

definition server_rank :: "ServerState \<Rightarrow> nat" where
  "server_rank s = sum_list (map conn_rank (ss_conns s))"

lemma rank_put:
  assumes "i < length (ss_conns s)" "conn_rank c < conn_rank (ss_conns s ! i)" "ss_conns s' = (ss_conns s)[i := c]"
  shows "server_rank s' < server_rank s"
proof -
  have "conn_rank (ss_conns s ! i) \<le> sum_list (map conn_rank (ss_conns s))"
    by (rule member_le_sum_list) (use assms(1) in simp_all)
  with assms show ?thesis by (simp add: server_rank_def map_update sum_list_update)
qed

lemma serve_op_consumes:
  "serve_op r = (Some (q, r'), vs) \<Longrightarrow> length (avail r') \<le> length (avail r)"
  by (auto simp: serve_op_def Let_def dest!: read_exact_length split: sum.splits prod.splits if_splits)

lemma serve_urb_load:
  assumes "serve_urb eps dev r sv = (Some r', sv')"
  shows "2 * length (sv_jobs sv') + length (sv_out sv') \<le> 2 * length (sv_jobs sv) + length (sv_out sv) + 2"
  using assms
  by (auto simp: serve_urb_def handle_submit_def handle_unlink_def cancel_jobs_def Let_def
      split: prod.splits option.splits server_cmd.splits)

lemma endpoint_worker_out:
  "endpoint_worker a choice sv = Some sv' \<Longrightarrow> length (sv_out sv') \<le> length (sv_out sv) + 1"
  by (auto simp: endpoint_worker_def split: option.splits prod.splits if_splits)

lemma shared_log_fields [simp]: "sv_jobs (shared_log s sv) = sv_jobs sv" "sv_out (shared_log s sv) = sv_out sv"
  by (simp_all add: shared_log_def)

lemma request_rank:
  assumes "cn_phase c = Opened"
  shows "\<exists>c'. ss_conns (serve_request fault i c s) = (ss_conns s)[i := c'] \<and> conn_rank c' < conn_rank c"
  using assms serve_op_consumes [of "cn_input c"]
  by (auto simp: serve_request_def conn_rank_def Let_def split: prod.splits option.splits op_request.splits)

lemma round_rank:
  assumes "cn_phase c = Serving e sv"
  shows "\<exists>c'. ss_conns (serve_round eps e sv i c s) = (ss_conns s)[i := c'] \<and> conn_rank c' < conn_rank c"
proof (cases "serve_urb eps (Export_devid e) (cn_input c) (shared_log s sv)")
  case (Pair r sv')
  then show ?thesis
    using assms serve_urb_consumes [of eps "Export_devid e" "cn_input c" "shared_log s sv"]
      serve_urb_load [of eps "Export_devid e" "cn_input c" "shared_log s sv"]
    by (cases r) (fastforce simp: serve_round_def conn_rank_def serve_urb_end)+
qed

lemma write_frame_rank:
  assumes "write_frame fault sv c = (c', sv')" "sv_out sv \<noteq> []"
  shows "length (sv_out sv') < length (sv_out sv)" "sv_jobs sv' = sv_jobs sv" "cn_input c' = cn_input c"
  using assms by (auto simp: write_frame_def split: list.splits option.splits)

lemma server_move_rank:
  assumes "server_move endpoints s s'"
  shows "server_rank s' < server_rank s"
  using assms
proof (cases rule: server_move.cases)
  case (request i c fault)
  then show ?thesis using request_rank [of c fault i s] rank_put by blast
next
  case (round i c e sv)
  then show ?thesis using round_rank [of c e sv] rank_put by blast
next
  case (reply i c e fault)
  then show ?thesis
    by (intro rank_put [of i]) (auto simp: conn_rank_def serve_granted_def ServerLoop_new_def)
next
  case (work i c e sv a choice sv')
  then show ?thesis using endpoint_worker_jobs [OF work(6)] endpoint_worker_out [OF work(6)]
    by (intro rank_put [of i]) (auto simp: conn_rank_def)
next
  case (send i c e sv fault c' sv')
  then show ?thesis using write_frame_rank [OF send(7,6)] by (intro rank_put [of i]) (auto simp: conn_rank_def)
next
  case (drain i c e sv fault c' sv')
  then show ?thesis using write_frame_rank [OF drain(7,6)] by (intro rank_put [of i]) (auto simp: conn_rank_def)
next
  case (drained i c e sv)
  then show ?thesis by (intro rank_put [of i]) (auto simp: conn_rank_def)
next
  case (release i c e)
  then show ?thesis by (intro rank_put [of i]) (auto simp: conn_rank_def release_device_def)
qed

lemma server_move_wf: "wfp (\<lambda>s' s. server_move endpoints s s')"
  by (rule wfp_if_convertible_to_nat [of _ server_rank]) (rule server_move_rank)

lemma conn_moves:
  assumes "server_inv exports s" "i < length (ss_conns s)" "cn_phase (ss_conns s ! i) \<noteq> Returned"
  shows "\<exists>s'. server_move endpoints s s'"
proof (cases "cn_phase (ss_conns s ! i)")
  case Opened
  with assms(2) show ?thesis by (blast intro: server_move.request)
next
  case (Granted e)
  with assms(2) show ?thesis by (blast intro: server_move.reply)
next
  case (Serving e sv)
  with assms(2) show ?thesis by (blast intro: server_move.round)
next
  case (Draining e sv)
  then have "cn_writing (ss_conns s ! i) \<longrightarrow> sv_out sv \<noteq> []"
    using assms by (auto simp: server_inv_def conn_ok_def dest!: bspec [OF _ nth_mem])
  with Draining assms(2) show ?thesis
    by (cases "write_frame None sv (ss_conns s ! i)") (blast intro: server_move.drain server_move.drained)
next
  case (Releasing e)
  with assms(2) show ?thesis by (blast intro: server_move.release)
qed (use assms in simp)

lemma request_phase:
  assumes "server_inv exports s" "i < length (ss_conns s)"
    "serve_op (cn_input (ss_conns s ! i)) = (Some (OpImport b, r), vs)"
  shows "cn_phase (ss_conns (serve_request fault i (ss_conns s ! i) s) ! i) =
    (case find (\<lambda>e. ex_busid e = b) exports of
       None \<Rightarrow> Returned
     | Some e \<Rightarrow> if \<exists>j. held s j = Some b then Returned else Granted e)"
proof -
  have "ss_exports s = exports" "b \<in> set (ss_imported s) \<longleftrightarrow> (\<exists>j. held s j = Some b)"
    using assms(1) by (auto simp: server_inv_def ran_def)
  then show ?thesis using assms(2,3)
    by (auto simp: serve_request_def Let_def split: option.splits prod.splits)
qed

section \<open>Properties\<close>

text \<open>C12. However its connections interleave and whichever of their writes fail, the server gives a device to
  one connection at a time: no two connections hold the same device, the device held is the one the
  server exports under that bus id, a connection in the URB loop has been sent its
  description, and a request to import is granted exactly if the device is exported and no
  connection holds it.\<close>

theorem import_exclusive:
  assumes "(server_step endpoints)\<^sup>*\<^sup>* (Server_bind exports) s"
  shows "(\<forall>i j. held s i \<noteq> None \<and> held s i = held s j \<longrightarrow> i = j) \<and>
    (\<forall>c\<in>set (ss_conns s). \<forall>e. holder (cn_phase c) = Some e \<longrightarrow>
       find (\<lambda>x. ex_busid x = ex_busid e) exports = Some e \<and>
       (\<forall>sv. cn_phase c = Serving e sv \<longrightarrow> (\<exists>rest. cn_sent c = import_reply e @ rest))) \<and>
    (\<forall>i b r vs fault. i < length (ss_conns s) \<and> cn_phase (ss_conns s ! i) = Opened \<and>
       serve_op (cn_input (ss_conns s ! i)) = (Some (OpImport b, r), vs) \<longrightarrow>
       cn_phase (ss_conns (serve_request fault i (ss_conns s ! i) s) ! i) =
         (case find (\<lambda>e. ex_busid e = b) exports of
            None \<Rightarrow> Returned
          | Some e \<Rightarrow> if \<exists>j. held s j = Some b then Returned else Granted e))"
proof -
  have inv: "server_inv exports s" by (rule server_reachable [OF assms])
  then have "i = j" if "held s i \<noteq> None" "held s i = held s j" for i j
    using that inj_onD [of "held s" "dom (held s)" i j] by (auto simp: server_inv_def domIff)
  moreover have "find (\<lambda>x. ex_busid x = ex_busid e) exports = Some e"
    "cn_phase c = Serving e sv \<Longrightarrow> \<exists>rest. cn_sent c = import_reply e @ rest"
    if "c \<in> set (ss_conns s)" "holder (cn_phase c) = Some e" for c e sv
    using inv that by (auto simp: server_inv_def conn_ok_def)
  ultimately show ?thesis using request_phase [OF inv] by blast
qed

text \<open>
  Without new connections the server comes to rest, whatever the peers sent; then every connection
  has returned and every device can be imported again.
\<close>

theorem devices_come_free:
  "wfp (\<lambda>s' s. server_move endpoints s s')"
  "\<lbrakk>(server_step endpoints)\<^sup>*\<^sup>* (Server_bind exports) s; \<nexists>s'. server_move endpoints s s'\<rbrakk>
   \<Longrightarrow> ss_imported s = [] \<and> (\<forall>c\<in>set (ss_conns s). cn_phase c = Returned)"
proof -
  show "wfp (\<lambda>s' s. server_move endpoints s s')" by (rule server_move_wf)
  assume inv: "(server_step endpoints)\<^sup>*\<^sup>* (Server_bind exports) s" and rest: "\<nexists>s'. server_move endpoints s s'"
  note inv = server_reachable [OF inv]
  have ret: "cn_phase (ss_conns s ! i) = Returned" if "i < length (ss_conns s)" for i
    using conn_moves [OF inv that] rest by blast
  then have "held s = (\<lambda>_. None)" by (simp add: held_def fun_eq_iff)
  then have "ss_imported s = []" using inv by (simp add: server_inv_def)
  with ret show "ss_imported s = [] \<and> (\<forall>c\<in>set (ss_conns s). cn_phase c = Returned)" by (auto simp: in_set_conv_nth)
qed

text \<open>
  The log counts a URB as outstanding until it completes; one that was cancelled never completes, and
  stays in the count.
\<close>

lemma cancelled_still_counted:
  "max_in_flight [EvSubmit u, EvUnlink 2 (u_seqnum u) True, EvSubmit (u\<lparr>u_seqnum := 3\<rparr>)] (u_ep u) = Some 2"
  by (simp add: max_in_flight_def)

section \<open>Two clients and one device\<close>

definition sample_request_bytes :: rstream where
  "sample_request_bytes =
     \<lparr>avail = (case encode_import_request [0x31, 0x2d, 0x31] of Inr req \<Rightarrow> req | Inl _ \<Rightarrow> []), ending = UnexpectedEof\<rparr>"

definition sample_opened :: Connection where
  "sample_opened = \<lparr>cn_phase = Opened, cn_input = sample_request_bytes, cn_sent = [], cn_writing = True\<rparr>"

definition sample_server :: ServerState where
  "sample_server = accept sample_request_bytes
     (serve_request None 0 sample_opened (accept sample_request_bytes (Server_bind [Export_new [0x31, 0x2d, 0x31]])))"

lemma sample_op:
  "serve_op sample_request_bytes = (Some (OpImport [0x31, 0x2d, 0x31], \<lparr>avail = [], ending = UnexpectedEof\<rparr>), [])"
  using serve_import_request [of "[0x31, 0x2d, 0x31]" _ "[]" UnexpectedEof]
  by (simp add: sample_request_bytes_def encode_import_request_def encode_busid_def BUSID_SIZE_def ascii_valid)

lemma sample_server_conns:
  "ss_conns sample_server = [\<lparr>cn_phase = Granted (Export_new [0x31, 0x2d, 0x31]),
     cn_input = \<lparr>avail = [], ending = UnexpectedEof\<rparr>, cn_sent = [], cn_writing = True\<rparr>, sample_opened]"
  by (simp add: sample_server_def serve_request_def accept_def Server_bind_def sample_opened_def sample_op
      serve_import_def Let_def) (simp add: Export_new_def Let_def)

lemma sample_server_runs:
  "(server_step (\<lambda>_. []))\<^sup>*\<^sup>* (Server_bind [Export_new [0x31, 0x2d, 0x31]]) sample_server"
proof -
  let ?R = "server_step (\<lambda>_. [])" and ?s0 = "Server_bind [Export_new [0x31, 0x2d, 0x31]]"
  let ?s1 = "accept sample_request_bytes ?s0"
  let ?s2 = "serve_request None 0 sample_opened ?s1"
  have "server_move (\<lambda>_. []) ?s1 ?s2"
    by (rule server_move.request) (simp_all add: accept_def Server_bind_def sample_opened_def)
  then have "?R ?s1 ?s2" by (rule server_step.moved)
  moreover have "?R ?s0 ?s1" "?R ?s2 sample_server"
    unfolding sample_server_def by (rule server_step.accepted)+
  ultimately show ?thesis by (meson converse_rtranclp_into_rtranclp r_into_rtranclp)
qed

theorem import_exclusive_witness:
  "held sample_server 0 = Some [0x31, 0x2d, 0x31] \<and>
   cn_phase (ss_conns (serve_request None 1 (ss_conns sample_server ! 1) sample_server) ! 1) = Returned"
proof -
  have h: "held sample_server 0 = Some [0x31, 0x2d, 0x31]"
    by (simp add: held_def sample_server_conns) (simp add: Export_new_def Let_def)
  have one: "1 < length (ss_conns sample_server)" "cn_phase (ss_conns sample_server ! 1) = Opened"
    "serve_op (cn_input (ss_conns sample_server ! 1)) = (Some (OpImport [0x31, 0x2d, 0x31], \<lparr>avail = [], ending = UnexpectedEof\<rparr>), [])"
    by (simp_all add: sample_server_conns sample_opened_def sample_op)
  show ?thesis using import_exclusive [OF sample_server_runs] h one by (auto split: option.splits)
qed

end
