(* ===== verification/Spec2Isabelle.thy ===== *)
theory Spec2Isabelle
  imports App End_To_End Server_Connections
begin

text \<open>
  A verification of usbip-macos, a USB/IP client for macOS. The program connects to a USB/IP server,
  imports one of its devices, and presents the device to macOS through a virtual host controller
  of the IOUSBHost framework. Its parts, all in Rust under \<open>src/src/\<close>:

    \<^item> \<open>protocol.rs\<close>, the wire protocol: encoders for requests and commands, readers for replies;
    \<^item> \<open>client.rs\<close>, the session with the server: submits and unlinks from any thread, one task that
      writes frames and one that reads replies, all over a state behind a mutex;
    \<^item> \<open>hci.rs\<close>, the messages of the framework, the address pool, endpoint descriptors and hiding
      the UAS interface of a storage device;
    \<^item> \<open>engine.rs\<close>, the transfer engine: it turns the messages of an endpoint's ring into URBs of the
      session, several ahead for reads, and completes messages in ring order as replies arrive;
    \<^item> \<open>host.rs\<close>, the controller: it answers the framework's commands, hands doorbells to the engine,
      implements the engine's ring on the framework's endpoint state machines, and reports frames;
    \<^item> \<open>cli.rs\<close> and \<open>main.rs\<close>, the command line and the program.

  A host rings a doorbell; the controller passes it to the engine; the engine looks at the ring
  and submits requests to the session; the writer sends them; the server answers; the reader resolves
  the transfer; the engine completes the message on the controller's queue and looks again.

  \<^bold>\<open>Theories and what they model.\<close>

    \<^item> \<open>Prelude\<close>: byte order, byte streams with an end or an error, results as sums, association maps
      with distinct keys for \<open>HashMap\<close>. \<open>Utf8\<close>: Rust's \<open>String::from_utf8_lossy\<close>.
    \<^item> \<open>Protocol\<close>: \<open>protocol.rs\<close>, one definition per constant, type, encoder and reader.
    \<^item> \<open>Server\<close>: how the server of the tests (\<open>src/tests/support/server.rs\<close>) parses requests and
      encodes replies, checks of Linux servers included; the reference for the round trips. \<open>Wire\<close>:
      the lemmas that connect both ends.
    \<^item> \<open>Client\<close>: \<open>client.rs\<close>. The record \<open>Shared\<close> is the state behind the mutex, with the frames queued
      and written and the replies handed out; reply channels are numbers. Each operation is a
      function on it, a round of the writer and of the reader is one step, and \<open>client_step\<close>
      interleaves them all.
    \<^item> \<open>Server_Loop\<close>: the URB loop of the server of the tests: its table of pending URBs, the jobs of its
      endpoint workers, cancels, the frames for its writer and the log. \<open>Server_Connections\<close>: the
      exports, accepting connections and \<open>serve\<close>, for any number of connections that share the list of
      imported devices, and the queries on the log.
    \<^item> \<open>Exchange\<close>: the client's session and the server's loop exchanging whole commands and replies, with
      the history of what was issued, completed and answered, and the invariant that ties them.
      \<open>Network\<close>: the same two byte by byte: batches of the writer, both directions of the
      stream in segments of any size, the reader's two critical sections, and a connection that may break
      for either side at any time. Each of its steps is a few steps of \<open>Exchange\<close>.
      \<open>Network_Properties\<close>: what follows for every run.
    \<^item> \<open>Delivery\<close>: what is to be reported on a ring for a request and its result, and for the answers the
      engine gives by itself, said without the engine's definitions; and that what the engine reports is
      that, traced back to the session's replies, for a ring that writes its completions down. \<open>End_To_End\<close>: engine, session, connection and server as one
      system; the engine's operations are its steps, their submits and cancels are calls
      on the connection.
    \<^item> \<open>Hci\<close>: \<open>hci.rs\<close>.
    \<^item> \<open>Engine\<close>: \<open>engine.rs\<close>. A record of functions \<open>Ring\<close> is the trait; the engine's operations work for
      every ring and contain the session, so that a submit changes it. Tasks that wait for a
      reply are \<open>en_waiters\<close>, and \<open>finish\<close> is what such a task runs on the executor.
      \<open>Engine_System\<close>: the steps of the engine, the session and the host together and their
      invariant. \<open>Fake_Ring\<close>: the ring of the tests (\<open>src/tests/support/mod.rs\<close>).
      \<open>Engine_Properties\<close>: the engine's properties.
    \<^item> \<open>Frame_Clock\<close>, \<open>Io_Ring\<close>, \<open>Host\<close>: \<open>host.rs\<close>, its clock, its ring in the host's memory, and the
      handlers for commands, doorbells and frame updates, the root port and the capabilities.
      \<open>Host_System\<close>: the steps of the controller and their invariant. \<open>Host_Properties\<close>.
    \<^item> \<open>Cli\<close>, \<open>App\<close>: \<open>cli.rs\<close> and \<open>main.rs\<close>, with what the program prints; \<open>attach\<close> is the variant for
      macOS, \<open>attach_elsewhere\<close> the one for other systems, which only fails.

  Statements about requests, replies and listings use specifications of their own: \<open>requested_urb\<close>, the URB
  that has a request's fields; \<open>ret_of\<close>, the reply that has a completion's; \<open>urb_meaning\<close>, the table of URB
  statuses; \<open>delivered\<close> and \<open>own_answer\<close>; \<open>shows_device\<close>, how a line of a listing reads.

  \<^bold>\<open>What is shown.\<close> Claim numbers are those of the theorems' text blocks.

    \<^item> The system. What the host is told on a ring is the engine's own answer, which has no data, or
      the status and data of the device for one accepted request, at most once and in order (C1); at rest,
      when the device too has completed its URBs, none is left without its result (C2); tables, tasks and URBs stay well formed (C3).
    \<^item> Session. The interleaved threads refine a contract in which a transfer is accepted, then
      answered once (C4); in every reachable state an accepted submit is pending or has exactly one
      reply (C6); requests reach the server in order and unchanged (C13); late replies
      are skipped with their payload (C14); a reply stays within the request's lengths (C15); the
      reader ends on every finite stream with all transfers answered (C16); cancelling everything
      sends one CMD_UNLINK that names each pending transfer, and a second time nothing (C17).
    \<^item> Client and server. In every run with requests that pass the server's checks neither side sees a
      protocol error, broken connections included (C7); a reply is what the device completed for that request, a cancel of one it never
      completed, or the end of the connection (C8); the tasks, completions of the device among them, come
      to rest with everything answered (C9); at rest both sides agree on what is pending (C10); bytes refine whole
      messages (C11). Of many connections one at a time holds a device (C12).
    \<^item> Messages. Hiding UAS equals a filter on the list of descriptors (C18); endpoint descriptors are
      found in configurations (C19); isochronous payloads are spread to their packets (C39).
    \<^item> Engine. No URB is lost (C20); a doorbell and a reply touch the ring only by its rules, in order
      and within the depth (C22, C23), and return (C24); a read interrupted by a pause is
      submitted again (C25); reads ahead (C26), bounds on what is in flight (C27), safety on the ring of
      the tests (C28); a short read of a configuration descriptor agrees with the full one before it (C38).
    \<^item> Controller. Its handlers refine the engine, with maps that agree (C5); every command that has an
      addressee is answered exactly once (C21), the others change nothing (C30); destroying a
      device leaves nothing behind (C29); frames strictly increase (C31, C32); the ring follows the
      memory layout (C34), writes within buffers (C35), and the requests formed from it, of data and of control
      transfers, are what servers accept (C33).
    \<^item> Program. Attaching ends detached with every transfer answered, after a signal and after the loss of
      the connection (C36); the selected device is imported (C37); the program does what its
      arguments ask for, a listing says each device of the server, and it never panics on them (C40).
    \<^item> Without a number: a reply resolves its own transfer, an import starts a session, hiding UAS is
      stable, the pool gives the lowest free address, addresses split back, the list shows
      the exports, a pause unlinks reads, a closed session gets no frames, doorbell handlers return,
      devices of the server come free again, and the unit tests of \<open>hci.rs\<close>.

  Interfaces are locales, interpreted on the model: encodings of fixed width (\<open>fixed_codec\<close>), the session
  as the engine and the program use it (\<open>urb_session\<close>), the address pool (\<open>address_allocator\<close>), the
  ring's promise that a completed message leaves it (\<open>transfer_ring\<close>), which the ring of the tests
  keeps outright and the ring of macOS whenever the framework does, and forward simulation with an
  invariant of the abstract side (\<open>simulation\<close>), through which the bytes inherit what holds for messages.

  \<^bold>\<open>Bounds and fuel.\<close> Loops that the code bounds keep the code's bound: \<open>message_walk\<close> makes
  \<open>(ahead + 1) * 4\<close> steps. Loops without one (\<open>next_seqnum\<close>, \<open>fill\<close>, \<open>pump\<close>, \<open>frame_wait\<close>) are partial
  functions into option, and that they return is proved: a free sequence number exists while fewer
  than 2^32 - 1 are in use, a pump ends because every completed message leaves the ring, and
  the clock's loop ends once the time advances. Machine integers are words; sequence numbers wrap and
  skip zero and numbers in use. Tokens and reply channels are counted; properties that depend
  on tokens not wrapping ask for fewer than 2^64 submitted transfers. Panics and non-termination
  are \<open>None\<close>. The runs of \<open>Exchange\<close>, \<open>Network\<close> and \<open>End_To_End\<close> are those in which the sequence counter has not come round
  (fewer than 2^32 commands), the device number fits the 16 bits it has in the device id, and the
  outcomes of the device behind the server are completions; requests are those that pass the server's checks (\<open>wf_request\<close>).
  For the ring of macOS C33 shows this of data and control transfers, provided that the host's messages are of at most 16 MiB and
  isochronous ones are for isochronous endpoints, that endpoints are known to the server as they are to the host,
  and that endpoint 0 is in no descriptor; the code checks none of these.

  \<^bold>\<open>Arguments of the model.\<close> The framework (state machines of the controller, ports, devices and
  endpoints) is a record of functions; of an endpoint state machine only what the documented calls
  return is used. Clock readings, the memory of the host, connections, signals and what the argument
  parser found are arguments too. The memory of a ring is kept with the ring, and a step of the host
  may change it at any time.

  \<^bold>\<open>Not modelled.\<close> Logging, the texts of error messages and a standard output that
  fails; the tokio runtime and the dispatch
  queue, which are the order of the steps; \<open>interest_handler\<close>, which only logs; \<open>try_parse\<close>, which only calls
  the argument parser; the devices that tests put behind the server, which are its argument,
  and in \<open>Network\<close> the tests' raw replies and forced disconnects (\<open>Server_Loop\<close> has them); the
  harness around the ring of the tests (threads, waiting, time limits); the example programs
  under \<open>src/examples/\<close> and the end-to-end tests, which drive the operating system.
\<close>

end
